(* ===== verification/Prelude.thy ===== *)
theory Prelude
  imports Main "HOL-Library.Word" "HOL-Library.Char_ord" "HOL-Library.List_Lexorder"
    "HOL-Library.Sublist" "HOL-Library.AList"
begin

section \<open>Shared notions of the development\<close>

text \<open>
  What every component theory uses: the error type of the coordinator API, decimal text, the
  rounding of Lua numbers (IEEE doubles), the command monad in which server-side scripts are
  written, and the world a replica acts on (the server it talks to, the other clients' interference,
  the fate of each round trip and the local clocks). Text and byte strings are both
  \<^typ>\<open>string\<close>: a \<^typ>\<open>char\<close> is one byte, so a Rust \<open>String\<close> is the list of its UTF-8
  bytes and the order on strings is Redis' byte order.
\<close>

named_theorems sim_intros \<open>rules that lift a simulation of single commands to whole scripts\<close>
named_theorems keeps_intros \<open>rules that lift an invariant of the server to whole client operations\<close>
named_theorems ks_simps \<open>what a command reads from, and leaves in, a keyspace\<close>

type_synonym u16 = "16 word"
type_synonym u32 = "32 word"
type_synonym u64 = "64 word"

text \<open>The variants of \<open>ClusterError\<close> this plugin raises.\<close>

datatype cluster_error =
    InvalidReference string
  | BackendUnavailable string
  | LeaseExpired
  | Internal string
  | Precondition string

subsection \<open>Decimal text\<close>

fun dec_nat :: "nat \<Rightarrow> string" where
  "dec_nat n = (if n < 10 then [char_of (48 + n)] else dec_nat (n div 10) @ [char_of (48 + n mod 10)])"

declare dec_nat.simps [simp del]

definition dec :: "int \<Rightarrow> string" where
  "dec i = (if i < 0 then CHR ''-'' # dec_nat (nat (- i)) else dec_nat (nat i))"

text \<open>A lower-case hexadecimal digit.\<close>

definition hex_digit :: "nat \<Rightarrow> char" where
  "hex_digit n = char_of (if n < 10 then 48 + n else 87 + n)"

definition undec_nat :: "string \<Rightarrow> nat" where
  "undec_nat t = foldl (\<lambda>a c. 10 * a + (of_char c - 48)) 0 t"

definition undec :: "string \<Rightarrow> int" where
  "undec t = (case t of [] \<Rightarrow> 0
     | c # cs \<Rightarrow> if c = CHR ''-'' then - int (undec_nat cs) else int (undec_nat (c # cs)))"

definition in_i64 :: "int \<Rightarrow> bool" where
  "in_i64 i \<longleftrightarrow> - (2 ^ 63) \<le> i \<and> i < 2 ^ 63"

text \<open>The canonical reading of an integer: only the text that \<^const>\<open>dec\<close> prints, within i64.\<close>

definition parse_i64 :: "string \<Rightarrow> int option" where
  "parse_i64 t = (let i = undec t in if dec i = t \<and> in_i64 i then Some i else None)"

subsection \<open>UTF-8\<close>

text \<open>The byte sequences that \<open>std::str::from_utf8\<close> accepts.\<close>

definition byte_in :: "nat \<Rightarrow> nat \<Rightarrow> char \<Rightarrow> bool" where
  "byte_in lo hi c \<longleftrightarrow> lo \<le> of_char c \<and> of_char c \<le> hi"

abbreviation cont :: "char \<Rightarrow> bool" where
  "cont c \<equiv> byte_in 0x80 0xBF c"

function valid_utf8 :: "string \<Rightarrow> bool" where
  "valid_utf8 [] = True"
| "valid_utf8 (a # t) =
     (if byte_in 0 0x7F a then valid_utf8 t
      else if byte_in 0xC2 0xDF a then (case t of b # u \<Rightarrow> cont b \<and> valid_utf8 u | _ \<Rightarrow> False)
      else if byte_in 0xE0 0xEF a then
        (case t of b # c # u \<Rightarrow>
            (if byte_in 0xE0 0xE0 a then byte_in 0xA0 0xBF b
             else if byte_in 0xED 0xED a then byte_in 0x80 0x9F b else cont b) \<and> cont c \<and> valid_utf8 u
         | _ \<Rightarrow> False)
      else if byte_in 0xF0 0xF4 a then
        (case t of b # c # d # u \<Rightarrow>
            (if byte_in 0xF0 0xF0 a then byte_in 0x90 0xBF b
             else if byte_in 0xF4 0xF4 a then byte_in 0x80 0x8F b else cont b) \<and> cont c \<and> cont d \<and> valid_utf8 u
         | _ \<Rightarrow> False)
      else False)"
  by pat_completeness auto
termination by (relation "measure length") auto

declare valid_utf8.simps(2) [simp del]

text \<open>
  \<open>str::trim\<close> strips the characters with the Unicode property White_Space; a leading one of these
  in UTF-8, and the strings \<open>trim().is_empty()\<close> holds of.
\<close>

fun skip_space :: "string \<Rightarrow> string option" where
  "skip_space (a # t) =
     (if byte_in 9 13 a \<or> byte_in 32 32 a then Some t
      else case t of
        b # u \<Rightarrow>
          if byte_in 0xC2 0xC2 a \<and> (byte_in 0x85 0x85 b \<or> byte_in 0xA0 0xA0 b) then Some u
          else (case u of
            c # w \<Rightarrow>
              if byte_in 0xE1 0xE1 a \<and> byte_in 0x9A 0x9A b \<and> byte_in 0x80 0x80 c \<or>
                 byte_in 0xE2 0xE2 a \<and> byte_in 0x80 0x80 b \<and>
                   (byte_in 0x80 0x8A c \<or> byte_in 0xA8 0xA9 c \<or> byte_in 0xAF 0xAF c) \<or>
                 byte_in 0xE2 0xE2 a \<and> byte_in 0x81 0x81 b \<and> byte_in 0x9F 0x9F c \<or>
                 byte_in 0xE3 0xE3 a \<and> byte_in 0x80 0x80 b \<and> byte_in 0x80 0x80 c
              then Some w else None
          | [] \<Rightarrow> None)
      | [] \<Rightarrow> None)"
| "skip_space [] = None"

lemma skip_space_length: "skip_space s = Some t \<Longrightarrow> length t < length s"
  by (cases s) (auto split: if_splits list.splits)

function blank :: "string \<Rightarrow> bool" where
  "blank s = (s = [] \<or> (case skip_space s of Some t \<Rightarrow> blank t | None \<Rightarrow> False))"
  by pat_completeness auto
termination by (relation "measure length") (auto dest: skip_space_length)

declare blank.simps [simp del]

subsection \<open>Lua numbers\<close>

text \<open>
  A Lua number is an IEEE double. \<open>dbl\<close> rounds an integer to the nearest double (53 bits of
  significand, ties to even); it is the identity up to \<open>2 ^ 53\<close>. A numeral that is no integer
  is \<open>LInf\<close> (an infinity) or \<open>LOther\<close> (a fraction, a NaN).
\<close>

fun excess_bits :: "nat \<Rightarrow> nat" where
  "excess_bits n = (if n < 2 ^ 53 then 0 else Suc (excess_bits (n div 2)))"

declare excess_bits.simps [simp del]

definition dbl_nat :: "nat \<Rightarrow> nat" where
  "dbl_nat n =
     (let e = excess_bits n; q = n div 2 ^ e; r = n mod 2 ^ e
      in (if 2 ^ e < 2 * r \<or> (2 ^ e = 2 * r \<and> odd q) then Suc q else q) * 2 ^ e)"

definition dbl :: "int \<Rightarrow> int" where
  "dbl i = (if i < 0 then - int (dbl_nat (nat (- i))) else int (dbl_nat (nat i)))"

datatype lua_number = LInt int | LInf | LOther

subsection \<open>Commands and scripts\<close>

text \<open>
  A command runs on the server in one step: it replies or raises, and leaves a state either way.
  A script is a command composed of commands; one that raises half-way keeps the effects it had,
  as Redis does.
\<close>

type_synonym ('e, 's, 'a) eff = "'s \<Rightarrow> ('e + 'a) \<times> 's"
type_synonym ('s, 'a) cmd = "(string, 's, 'a) eff"

definition ret :: "'a \<Rightarrow> ('e, 's, 'a) eff" where
  "ret x s = (Inr x, s)"

definition raise :: "'e \<Rightarrow> ('e, 's, 'a) eff" where
  "raise e s = (Inl e, s)"

definition cbind :: "('e, 's, 'a) eff \<Rightarrow> ('a \<Rightarrow> ('e, 's, 'b) eff) \<Rightarrow> ('e, 's, 'b) eff" where
  "cbind m f s = (case m s of (Inl e, t) \<Rightarrow> (Inl e, t) | (Inr x, t) \<Rightarrow> f x t)"

text \<open>Lua's \<open>pcall\<close>: the error becomes a value.\<close>

definition pcall :: "('d, 's, 'a) eff \<Rightarrow> ('e, 's, 'd + 'a) eff" where
  "pcall m s = (case m s of (r, t) \<Rightarrow> (Inr r, t))"

text \<open>A Lua \<open>for\<close> loop that threads a counter.\<close>

primrec for_count :: "('a \<Rightarrow> ('s, int) cmd) \<Rightarrow> 'a list \<Rightarrow> int \<Rightarrow> ('s, int) cmd" where
  "for_count body [] n = ret n"
| "for_count body (x # xs) n = cbind (body x) (\<lambda>d. for_count body xs (n + d))"

text \<open>
  Two commands of a pipeline: both run, whatever the first replied; the pipeline's result is its
  first error, or both replies.
\<close>

definition pipe2 :: "('s, 'a) cmd \<Rightarrow> ('s, 'b) cmd \<Rightarrow> ('s, 'a \<times> 'b) cmd" where
  "pipe2 m n s =
     (case m s of (r, t) \<Rightarrow> (case n t of (q, u) \<Rightarrow>
        ((case r of Inl e \<Rightarrow> Inl e
          | Inr a \<Rightarrow> (case q of Inl e \<Rightarrow> Inl e | Inr b \<Rightarrow> Inr (a, b))), u)))"

primrec pipe_all :: "('s, 'a) cmd list \<Rightarrow> ('s, 'a list) cmd" where
  "pipe_all [] = ret []"
| "pipe_all (m # ms) = cbind (pcall (pipe2 m (pipe_all ms)))
     (\<lambda>r. case r of Inl e \<Rightarrow> raise e | Inr (a, as) \<Rightarrow> ret (a # as))"

subsection \<open>Simulation of commands\<close>

text \<open>
  \<open>sim view m n\<close>: the command \<open>m\<close> on concrete states replies what \<open>n\<close> replies on
  their views, and leaves a state whose view is what \<open>n\<close> leaves.
\<close>

definition sim :: "('s \<Rightarrow> 'v) \<Rightarrow> ('s, 'a) cmd \<Rightarrow> ('v, 'a) cmd \<Rightarrow> bool" where
  "sim view m n \<longleftrightarrow> (\<forall>s. map_prod id view (m s) = n (view s))"

subsection \<open>The world a replica acts on\<close>

text \<open>
  \<open>env\<close> holds, per atomic server-side execution of this replica, what everybody else did to the
  server just before it (other clients, the passage of time). \<open>links\<close> holds the fate of each
  round trip: answered, refused before it reached the server, or executed with its reply lost.
  \<open>wall\<close> is the local wall clock (ms since the epoch), \<open>mono\<close> the monotonic clock; both move
  at round trips as \<open>ticks\<close> says. Past the end of these lists nothing interferes, every link is up
  and the clocks stand.
\<close>

datatype link = Up | Refused string | ReplyLost string

record 's world =
  server :: 's
  env :: "('s \<Rightarrow> 's) list"
  links :: "link list"
  wall :: int
  mono :: nat
  ticks :: "(int \<times> nat) list"

definition exec :: "('s, 'a) cmd \<Rightarrow> ('s world, 'a) cmd" where
  "exec m w =
     (case m (case env w of [] \<Rightarrow> server w | e # _ \<Rightarrow> e (server w)) of
        (r, s) \<Rightarrow> (r, w\<lparr>server := s, env := tl (env w)\<rparr>))"

definition pass_time :: "'s world \<Rightarrow> 's world" where
  "pass_time w = (case ticks w of [] \<Rightarrow> w
     | (t, d) # ts \<Rightarrow> w\<lparr>wall := t, mono := mono w + d, ticks := ts\<rparr>)"

text \<open>One round trip; \<open>show_error\<close> is how the client library prints a server's error reply.\<close>

definition round_trip :: "(string \<Rightarrow> string) \<Rightarrow> ('s world, 'a) cmd \<Rightarrow> ('s world, 'a) cmd" where
  "round_trip show_error m w =
     (let v = w\<lparr>links := tl (links w)\<rparr>
      in case links w of
           Refused e # _ \<Rightarrow> (Inl e, pass_time v)
         | ReplyLost e # _ \<Rightarrow> (Inl e, pass_time (snd (m v)))
         | _ \<Rightarrow> (case m v of (r, u) \<Rightarrow> (map_sum show_error id r, pass_time u)))"

text \<open>\<open>SystemTime::now()\<close> as Unix milliseconds in a u64: 0 before the epoch, saturating.\<close>

definition clamp_u64 :: "int \<Rightarrow> int" where
  "clamp_u64 i = max 0 (min i (2 ^ 64 - 1))"

text \<open>A quiet world: nothing interferes, every link is up.\<close>

definition quiet :: "'s world \<Rightarrow> bool" where
  "quiet w \<longleftrightarrow> env w = [] \<and> (\<forall>l \<in> set (links w). l = Up)"

text \<open>
  A client operation: it acts on the world and fails with a \<^typ>\<open>cluster_error\<close>.
  \<open>map_err\<close> is Rust's \<open>Result::map_err\<close> at the end of a round trip, \<open>now_of\<close> reads the clock.
\<close>

type_synonym ('s, 'a) op = "(cluster_error, 's world, 'a) eff"

definition map_err :: "('d \<Rightarrow> 'e) \<Rightarrow> ('d, 's, 'a) eff \<Rightarrow> ('e, 's, 'a) eff" where
  "map_err f m w = (case m w of (r, u) \<Rightarrow> (map_sum f id r, u))"

definition reading :: "('s \<Rightarrow> 'b) \<Rightarrow> ('b \<Rightarrow> ('e, 's, 'a) eff) \<Rightarrow> ('e, 's, 'a) eff" where
  "reading f m w = m (f w) w"

text \<open>
  Loops that may run forever: not returning is \<^const>\<open>None\<close>. One turn of \<open>loop\<close> ends it with
  \<open>Inl\<close> or goes on with \<open>Inr\<close>.
\<close>

type_synonym ('e, 's, 'a) peff = "'s \<Rightarrow> (('e + 'a) \<times> 's) option"

partial_function (option) loop ::
  "('a \<Rightarrow> ('e, 's, 'b + 'a) eff) \<Rightarrow> 'a \<Rightarrow> ('e, 's, 'b) peff" where
  [code]: "loop body a w = (case body a w of
      (Inl e, u) \<Rightarrow> Some (Inl e, u)
    | (Inr (Inl b), u) \<Rightarrow> Some (Inr b, u)
    | (Inr (Inr c), u) \<Rightarrow> loop body c u)"

definition pure :: "('e, 's, 'a) eff \<Rightarrow> ('e, 's, 'a) peff" where
  "pure m w = Some (m w)"

definition pbind :: "('e, 's, 'a) peff \<Rightarrow> ('a \<Rightarrow> ('e, 's, 'b) peff) \<Rightarrow> ('e, 's, 'b) peff" where
  "pbind p f w = (case p w of None \<Rightarrow> None | Some (Inl e, u) \<Rightarrow> Some (Inl e, u) | Some (Inr x, u) \<Rightarrow> f x u)"

text \<open>
  \<open>stable I w\<close>: the server satisfies \<open>I\<close> and everybody else keeps it. \<open>keeps P m\<close>: running \<open>m\<close> in a
  state with \<open>P\<close> leaves one with \<open>P\<close>, whatever the interference and the fate of the round trips.
  \<open>yields P m Q\<close>: it also returns only values that satisfy \<open>Q\<close>.
\<close>

definition stable :: "('s \<Rightarrow> bool) \<Rightarrow> 's world \<Rightarrow> bool" where
  "stable I w \<longleftrightarrow> I (server w) \<and> (\<forall>e \<in> set (env w). \<forall>s. I s \<longrightarrow> I (e s))"

definition keeps :: "('s \<Rightarrow> bool) \<Rightarrow> ('e, 's, 'a) eff \<Rightarrow> bool" where
  "keeps P m \<longleftrightarrow> (\<forall>w. P w \<longrightarrow> P (snd (m w)))"

definition yields :: "('s \<Rightarrow> bool) \<Rightarrow> ('e, 's, 'a) eff \<Rightarrow> ('a \<Rightarrow> bool) \<Rightarrow> bool" where
  "yields P m Q \<longleftrightarrow> (\<forall>w. P w \<longrightarrow> P (snd (m w)) \<and> (\<forall>x. fst (m w) = Inr x \<longrightarrow> Q x))"

definition pkeeps :: "('s \<Rightarrow> bool) \<Rightarrow> ('e, 's, 'a) peff \<Rightarrow> bool" where
  "pkeeps P p \<longleftrightarrow> (\<forall>w r u. P w \<longrightarrow> p w = Some (r, u) \<longrightarrow> P u)"

subsection \<open>Lemmas: decimal text\<close>

lemma of_char_digit: "n < 10 \<Longrightarrow> of_char (char_of (48 + n) :: char) = (48 + n :: nat)"
  by (simp add: of_char_of)

lemma undec_nat_snoc [simp]: "undec_nat (t @ [c]) = 10 * undec_nat t + (of_char c - 48)"
  by (simp add: undec_nat_def)

lemma undec_dec_nat [simp]: "undec_nat (dec_nat n) = n"
proof (induction n rule: dec_nat.induct)
  case (1 n)
  show ?case
  proof (cases "n < 10")
    case True
    then show ?thesis
      using undec_nat_snoc [of "[]"] by (simp add: dec_nat.simps [of n] of_char_digit undec_nat_def)
  next
    case False
    have "of_char (char_of (48 + n mod 10) :: char) = (48 + n mod 10 :: nat)"
      by (rule of_char_digit) simp
    with False "1.IH" show ?thesis
      by (simp add: dec_nat.simps [of n])
  qed
qed

lemma dec_nat_digits: "c \<in> set (dec_nat n) \<Longrightarrow> 48 \<le> (of_char c :: nat) \<and> (of_char c :: nat) < 58"
proof (induction n rule: dec_nat.induct)
  case (1 n)
  have small: "of_char (char_of (48 + d) :: char) = (48 + d :: nat)" if "d < 10" for d
    using that by (rule of_char_digit)
  show ?case
  proof (cases "n < 10")
    case True
    with "1.prems" small [of n] show ?thesis by (simp add: dec_nat.simps [of n])
  next
    case False
    with "1.prems" consider "c \<in> set (dec_nat (n div 10))" | "c = char_of (48 + n mod 10)"
      by (auto simp: dec_nat.simps [of n])
    then show ?thesis
      using "1.IH" False small [of "n mod 10"] by cases auto
  qed
qed

lemma dec_nat_not_Nil [simp]: "dec_nat n \<noteq> []"
  by (simp add: dec_nat.simps [of n])

lemma dec_nat_no_minus: "CHR ''-'' \<notin> set (dec_nat n)"
  using dec_nat_digits [of "CHR ''-''" n] by auto

lemma undec_dec [simp]: "undec (dec i) = i"
proof (cases "i < 0")
  case True
  then show ?thesis by (simp add: dec_def undec_def)
next
  case False
  obtain c cs where *: "dec_nat (nat i) = c # cs" by (cases "dec_nat (nat i)") auto
  then have "c \<noteq> CHR ''-''" using dec_nat_no_minus [of "nat i"] by auto
  moreover from * have "undec_nat (c # cs) = nat i" by (metis undec_dec_nat)
  ultimately show ?thesis
    using False * by (simp add: dec_def undec_def)
qed

lemma dec_inject [simp]: "dec i = dec j \<longleftrightarrow> i = j"
  by (metis undec_dec)

lemma parse_i64_dec [simp]: "parse_i64 (dec i) = (if in_i64 i then Some i else None)"
  by (simp add: parse_i64_def Let_def)

lemma parse_i64_Some: "parse_i64 t = Some i \<longleftrightarrow> t = dec i \<and> in_i64 i"
  by (auto simp: parse_i64_def Let_def split: if_splits)

subsection \<open>Lemmas: UTF-8\<close>

lemma valid_utf8_no_ff: "valid_utf8 t \<Longrightarrow> CHR 0xFF \<notin> set t"
proof (induction t rule: valid_utf8.induct)
  case (2 a t)
  then show ?case
    by (auto simp: valid_utf8.simps(2) byte_in_def split: if_splits list.splits)
qed simp

lemma valid_utf8_append: "valid_utf8 s \<Longrightarrow> valid_utf8 (s @ t) = valid_utf8 t"
proof (induction s rule: valid_utf8.induct)
  case (2 a s)
  then show ?case
    by (auto simp: valid_utf8.simps(2) split: if_splits list.splits)
qed simp

lemma valid_utf8_ascii: "list_all (byte_in 0 0x7F) t \<Longrightarrow> valid_utf8 t"
  by (induction t) (simp_all add: valid_utf8.simps(2))

lemma blank_Nil [simp]: "blank []"
  by (simp add: blank.simps)

lemma not_blank_ascii: "byte_in 33 0x7F a \<Longrightarrow> \<not> blank (a # t)"
  by (auto simp: blank.simps [of "a # t"] byte_in_def split: list.splits option.splits if_splits)

subsection \<open>Lemmas: Lua numbers\<close>

lemma dbl_nat_exact [simp]: "n < 2 ^ 53 \<Longrightarrow> dbl_nat n = n"
  by (simp add: dbl_nat_def excess_bits.simps [of n])

lemma dbl_exact [simp]: "\<bar>i\<bar> < 2 ^ 53 \<Longrightarrow> dbl i = i"
  by (auto simp: dbl_def intro!: dbl_nat_exact)

lemma dbl_nonneg: "0 \<le> i \<Longrightarrow> 0 \<le> dbl i"
  by (simp add: dbl_def)

lemma excess_bits_quotient:
  "n div 2 ^ excess_bits n < 2 ^ 53 \<and> (2 ^ 53 \<le> n \<longrightarrow> 0 < excess_bits n \<and> 2 ^ 52 \<le> n div 2 ^ excess_bits n)"
proof (induction n rule: excess_bits.induct)
  case (1 n)
  show ?case
  proof (cases "n < 2 ^ 53")
    case True
    then show ?thesis by (simp add: excess_bits.simps [of n])
  next
    case False
    then have e: "excess_bits n = Suc (excess_bits (n div 2))" by (simp add: excess_bits.simps [of n])
    have q: "n div 2 ^ excess_bits n = n div 2 div 2 ^ excess_bits (n div 2)"
      by (simp add: e div_mult2_eq)
    have "2 ^ 52 \<le> n div 2 div 2 ^ excess_bits (n div 2)"
    proof (cases "n div 2 < 2 ^ 53")
      case True
      with False show ?thesis by (simp add: excess_bits.simps [of "n div 2"])
    qed (use "1.IH" [OF False] in simp)
    with "1.IH" [OF False] show ?thesis unfolding q by (simp add: e)
  qed
qed

lemma dbl_nat_large: "2 ^ 53 \<le> n \<Longrightarrow> 2 ^ 53 \<le> dbl_nat n"
proof -
  assume n: "2 ^ 53 \<le> n"
  let ?e = "excess_bits n"
  let ?q = "n div 2 ^ ?e"
  have e: "0 < ?e" and q: "2 ^ 52 \<le> ?q" using excess_bits_quotient [of n] n by auto
  from e have "2 ^ 1 \<le> (2 :: nat) ^ ?e" by (intro power_increasing) auto
  with q have "2 ^ 52 * 2 ^ 1 \<le> ?q * 2 ^ ?e" by (intro mult_le_mono)
  also have "\<dots> \<le> dbl_nat n" by (simp add: dbl_nat_def Let_def)
  finally show ?thesis by simp
qed

lemma dbl_large: "2 ^ 53 \<le> \<bar>i\<bar> \<Longrightarrow> 2 ^ 53 \<le> \<bar>dbl i\<bar>"
  using dbl_nat_large [of "nat i"] dbl_nat_large [of "nat (- i)"]
  by (auto simp: dbl_def nat_le_iff le_nat_iff of_nat_le_iff [of "2 ^ 53", symmetric, where 'a = int])

lemma dbl_abs_ge: "2 ^ 53 \<le> \<bar>dbl i\<bar> \<longleftrightarrow> 2 ^ 53 \<le> \<bar>i\<bar>"
  using dbl_large [of i] dbl_exact [of i] by linarith

lemma excess_bits_shift: "m < 2 ^ 53 \<Longrightarrow> excess_bits (m * 2 ^ e) \<le> e"
proof (induction e)
  case 0
  then show ?case by (simp add: excess_bits.simps [of m])
next
  case (Suc e)
  have "m * 2 ^ Suc e div 2 = m * 2 ^ e" by simp
  with Suc show ?case 
    by (simp only: excess_bits.simps [of "m * 2 ^ Suc e"] split: if_split) simp
qed

lemma dbl_nat_shift:
  assumes "m \<le> 2 ^ 53"
  shows "dbl_nat (m * 2 ^ e) = m * 2 ^ e"
proof -
  obtain m' e' where *: "m' < 2 ^ 53" "m * 2 ^ e = m' * 2 ^ e'"
  proof (cases "m = 2 ^ 53")
    case True
    have "(2 :: nat) ^ 53 * 2 ^ e = 2 ^ 52 * 2 ^ Suc e" by simp
    with True that [of "2 ^ 52" "Suc e"] show thesis by simp
  next
    case False
    with assms that [of m e] show thesis by simp
  qed
  have "2 ^ excess_bits (m * 2 ^ e) dvd m * 2 ^ e"
    using excess_bits_shift [OF *(1), of e'] unfolding *(2) by (simp add: le_imp_power_dvd)
  then show ?thesis by (simp add: dbl_nat_def Let_def mod_eq_0_iff_dvd)
qed

text \<open>Rounding a double changes nothing.\<close>

lemma dbl_nat_idem: "dbl_nat (dbl_nat n) = dbl_nat n"
proof -
  let ?q = "n div 2 ^ excess_bits n"
  have "?q < 2 ^ 53" using excess_bits_quotient [of n] by simp
  then have "\<exists>m \<le> 2 ^ 53. dbl_nat n = m * 2 ^ excess_bits n"
    by (intro exI [of _ "if 2 ^ excess_bits n < 2 * (n mod 2 ^ excess_bits n) \<or>
          (2 ^ excess_bits n = 2 * (n mod 2 ^ excess_bits n) \<and> odd ?q) then Suc ?q else ?q"])
       (simp add: dbl_nat_def Let_def)
  then obtain m where "m \<le> 2 ^ 53" "dbl_nat n = m * 2 ^ excess_bits n" by blast
  then show ?thesis by (simp add: dbl_nat_shift)
qed

text \<open>Every integer up to \<open>2 ^ 53\<close> is a double, the bound included.\<close>

lemma dbl_nat_bound: "n \<le> 2 ^ 53 \<Longrightarrow> dbl_nat n = n"
  using dbl_nat_shift [of n 0] by simp

lemma dbl_bound_exact: "\<bar>i\<bar> \<le> 2 ^ 53 \<Longrightarrow> dbl i = i"
  using dbl_nat_bound [of "nat i"] dbl_nat_bound [of "nat (- i)"] by (auto simp: dbl_def nat_le_iff)

lemma dbl_code [code]:
  "dbl i = (if \<bar>i\<bar> \<le> 9007199254740992 then i
     else if i < 0 then - int (dbl_nat (nat (- i))) else int (dbl_nat (nat i)))"
  using dbl_bound_exact [of i] by (simp add: dbl_def)

lemma dbl_idem [simp]: "dbl (dbl i) = dbl i"
proof (cases "i < 0")
  case True
  have "dbl (- int k) = - int (dbl_nat k)" for k
    by (cases "k = 0") (auto simp: dbl_def)
  with True show ?thesis by (simp add: dbl_def [of i] dbl_nat_idem)
next
  case False
  then show ?thesis by (simp add: dbl_def dbl_nat_idem)
qed

subsection \<open>Lemmas: commands\<close>

lemma cbind_ret [simp]: "cbind (ret x) f = f x"
  by (rule ext) (simp add: cbind_def ret_def)

lemma cbind_raise [simp]: "cbind (raise e) f = raise e"
  by (rule ext) (simp add: cbind_def raise_def)

lemma cbind_assoc: "cbind (cbind m f) g = cbind m (\<lambda>x. cbind (f x) g)"
  by (rule ext) (simp add: cbind_def split: prod.splits sum.splits)

lemma cbind_step: "m s = (Inr x, t) \<Longrightarrow> cbind m f s = f x t"
  by (simp add: cbind_def)

lemma cbind_fail: "m s = (Inl e, t) \<Longrightarrow> cbind m f s = (Inl e, t)"
  by (simp add: cbind_def)

lemma pcall_step: "m s = (r, t) \<Longrightarrow> pcall m s = (Inr r, t)"
  by (simp add: pcall_def)

lemma sim_ret [sim_intros]: "sim view (ret x) (ret x)"
  by (simp add: sim_def ret_def)

lemma sim_raise [sim_intros]: "sim view (raise e) (raise e)"
  by (simp add: sim_def raise_def)

lemma simD: "sim view m n \<Longrightarrow> m s = (r, t) \<Longrightarrow> n (view s) = (r, view t)"
  by (metis sim_def map_prod_simp id_apply)

lemma sim_run: "sim view m n \<Longrightarrow> n (view s) = (r, v) \<Longrightarrow> \<exists>t. m s = (r, t) \<and> view t = v"
  by (metis simD prod.collapse prod.inject)

lemma sim_view: "sim view m n \<Longrightarrow> view (snd (m s)) = snd (n (view s))"
  by (metis sim_def snd_map_prod)

lemma sim_reply: "sim view m n \<Longrightarrow> fst (m s) = fst (n (view s))"
  by (metis sim_def fst_map_prod id_apply)

lemma simI: "(\<And>s r t. m s = (r, t) \<Longrightarrow> n (view s) = (r, view t)) \<Longrightarrow> sim view m n"
  by (simp add: sim_def) (metis map_prod_simp id_apply prod.collapse)

lemma sim_cbind [sim_intros]:
  assumes "sim view m n" and "\<And>x. sim view (f x) (g x)"
  shows "sim view (cbind m f) (cbind n g)"
proof (rule simI)
  fix s r t
  assume run: "cbind m f s = (r, t)"
  obtain q u where mu: "m s = (q, u)" by fastforce
  with assms(1) have nu: "n (view s) = (q, view u)" by (rule simD)
  show "cbind n g (view s) = (r, view t)"
  proof (cases q)
    case (Inl e)
    with run mu nu show ?thesis by (simp add: cbind_def)
  next
    case (Inr x)
    with run mu have "f x u = (r, t)" by (simp add: cbind_def)
    with assms(2) have "g x (view u) = (r, view t)" by (rule simD)
    with Inr nu show ?thesis by (simp add: cbind_def)
  qed
qed

lemma sim_pcall [sim_intros]: "sim view m n \<Longrightarrow> sim view (pcall m) (pcall n)"
  by (rule simI) (auto simp: pcall_def dest: simD split: prod.splits)

lemma sim_if [sim_intros]:
  "(b \<Longrightarrow> sim view m n) \<Longrightarrow> (\<not> b \<Longrightarrow> sim view p q) \<Longrightarrow>
   sim view (if b then m else p) (if b then n else q)"
  by simp

lemma sim_for_count [sim_intros]:
  "(\<And>x. sim view (f x) (g x)) \<Longrightarrow> sim view (for_count f xs n) (for_count g xs n)"
  by (induction xs arbitrary: n) (auto intro!: sim_intros)

lemma sim_case_sum [sim_intros]:
  "(\<And>e. sim view (f e) (f' e)) \<Longrightarrow> (\<And>x. sim view (g x) (g' x)) \<Longrightarrow>
   sim view (case r of Inl e \<Rightarrow> f e | Inr x \<Rightarrow> g x) (case r of Inl e \<Rightarrow> f' e | Inr x \<Rightarrow> g' x)"
  by (cases r) auto

lemma sim_case_option [sim_intros]:
  "sim view m n \<Longrightarrow> (\<And>x. sim view (g x) (g' x)) \<Longrightarrow>
   sim view (case r of None \<Rightarrow> m | Some x \<Rightarrow> g x) (case r of None \<Rightarrow> n | Some x \<Rightarrow> g' x)"
  by (cases r) auto

subsection \<open>Lemmas: the world\<close>

lemma exec_calm: "env w = [] \<Longrightarrow> exec m w = (case m (server w) of (r, s) \<Rightarrow> (r, w\<lparr>server := s\<rparr>))"
  by (auto simp: exec_def split: prod.splits)

lemma pass_time_fields [simp]:
  "server (pass_time w) = server w" "env (pass_time w) = env w" "links (pass_time w) = links w"
  by (auto simp: pass_time_def split: list.splits)

lemma round_trip_up:
  "links w = [] \<or> hd (links w) = Up \<Longrightarrow>
   round_trip sh m w =
     (case m (w\<lparr>links := tl (links w)\<rparr>) of (r, u) \<Rightarrow> (map_sum sh id r, pass_time u))"
  by (cases "links w") (auto simp: round_trip_def Let_def)

lemma quiet_up: "quiet w \<Longrightarrow> links w = [] \<or> hd (links w) = Up"
  by (cases "links w") (auto simp: quiet_def)

text \<open>A single script sent in a quiet world: its effect on the server and the reply.\<close>

lemma quiet_trip:
  assumes "quiet w" and "m (server w) = (r, s)"
  shows "\<exists>u. round_trip sh (exec m) w = (map_sum sh id r, u) \<and> server u = s \<and> quiet u"
proof -
  have "links (w\<lparr>links := tl (links w)\<rparr>) = tl (links w)" by simp
  moreover have "\<forall>l \<in> set (tl (links w)). l = Up"
    using assms(1) by (cases "links w") (auto simp: quiet_def)
  ultimately show ?thesis
    using assms by (auto simp: round_trip_up [OF quiet_up [OF assms(1)]] exec_def quiet_def)
qed

lemma clamp_u64_id [simp]: "0 \<le> i \<Longrightarrow> i < 2 ^ 64 \<Longrightarrow> clamp_u64 i = i"
  by (simp add: clamp_u64_def)

lemma clamp_u64_bounds: "0 \<le> clamp_u64 i \<and> clamp_u64 i < 2 ^ 64"
  by (simp add: clamp_u64_def)

subsection \<open>Lemmas: invariants of the server across client operations\<close>

lemma keeps_ret [keeps_intros]: "keeps I (ret x)"
  by (simp add: keeps_def ret_def)

lemma keeps_raise [keeps_intros]: "keeps I (raise e)"
  by (simp add: keeps_def raise_def)

lemma keeps_cbind [keeps_intros]:
  "keeps I m \<Longrightarrow> (\<And>x. keeps I (f x)) \<Longrightarrow> keeps I (cbind m f)"
  by (auto simp: keeps_def cbind_def split: prod.splits sum.splits)

lemma keeps_map_err [keeps_intros]: "keeps I m \<Longrightarrow> keeps I (map_err f m)"
  by (auto simp: keeps_def map_err_def split: prod.splits)

lemma keeps_reading [keeps_intros]: "(\<And>x. keeps I (m x)) \<Longrightarrow> keeps I (reading f m)"
  by (simp add: keeps_def reading_def)

lemma keeps_pcall [keeps_intros]: "keeps I m \<Longrightarrow> keeps I (pcall m)"
  by (auto simp: keeps_def pcall_def split: prod.splits)

lemma keeps_pipe2 [keeps_intros]: "keeps I m \<Longrightarrow> keeps I n \<Longrightarrow> keeps I (pipe2 m n)"
  by (auto simp: keeps_def pipe2_def split: prod.splits)

lemma keeps_case_sum [keeps_intros]:
  "(\<And>e. keeps I (f e)) \<Longrightarrow> (\<And>x. keeps I (g x)) \<Longrightarrow> keeps I (case r of Inl e \<Rightarrow> f e | Inr x \<Rightarrow> g x)"
  by (cases r) auto

lemma keeps_if [keeps_intros]: "keeps I m \<Longrightarrow> keeps I n \<Longrightarrow> keeps I (if b then m else n)"
  by simp

lemma keeps_pipe_all [keeps_intros]: "(\<And>m. m \<in> set ms \<Longrightarrow> keeps I m) \<Longrightarrow> keeps I (pipe_all ms)"
  by (induction ms) (auto intro!: keeps_intros split: prod.splits)

lemma stable_fields:
  "server u = server w \<Longrightarrow> env u = env w \<Longrightarrow> stable I u = stable I w"
  by (simp add: stable_def)

lemma keeps_exec [keeps_intros]: "(\<And>s. I s \<Longrightarrow> I (snd (m s))) \<Longrightarrow> keeps (stable I) (exec m)"
  by (auto simp: keeps_def stable_def exec_def list.set_sel split: prod.splits list.splits)
     (metis snd_conv)+

text \<open>A round trip keeps what its commands keep and the clocks and links do not touch.\<close>

lemma keeps_trip:
  assumes "keeps P m" and "\<And>w u. server u = server w \<Longrightarrow> env u = env w \<Longrightarrow> P w \<Longrightarrow> P u"
  shows "keeps P (round_trip sh m)"
  unfolding keeps_def
proof (intro allI impI)
  fix w
  assume w: "P w"
  let ?v = "w\<lparr>links := tl (links w)\<rparr>"
  have v: "P ?v" using assms(2) [of ?v w] w by simp
  then have m: "P (snd (m ?v))" using assms(1) by (simp add: keeps_def)
  have later: "P (pass_time x)" if "P x" for x using assms(2) [of "pass_time x" x] that by simp
  show "P (snd (round_trip sh m w))"
    using later [OF v] later [OF m] by (auto simp: round_trip_def Let_def split: list.splits link.splits prod.splits)
qed

lemma keeps_round_trip [keeps_intros]: "keeps (stable I) m \<Longrightarrow> keeps (stable I) (round_trip sh m)"
  by (rule keeps_trip) (simp_all add: stable_def)

lemma keepsD: "keeps P m \<Longrightarrow> P w \<Longrightarrow> P (snd (m w))"
  by (simp add: keeps_def)

lemma pkeepsD: "pkeeps P p \<Longrightarrow> P w \<Longrightarrow> p w = Some (r, u) \<Longrightarrow> P u"
  unfolding pkeeps_def by blast

lemma yields_keeps: "yields P m Q \<Longrightarrow> keeps P m"
  by (simp add: keeps_def yields_def)

lemma keeps_after:
  "yields P m Q \<Longrightarrow> (\<And>x. Q x \<Longrightarrow> keeps P (f x)) \<Longrightarrow> keeps P (cbind m f)"
  by (fastforce simp: keeps_def yields_def cbind_def split: prod.splits sum.splits)

lemma map_sum_id_Inr [simp]: "map_sum f id r = Inr x \<longleftrightarrow> r = Inr x"
  by (cases r) auto

lemma yields_map_err: "yields I m Q \<Longrightarrow> yields I (map_err f m) Q"
  by (fastforce simp: yields_def map_err_def split: prod.splits)

lemma yields_trip:
  assumes "\<And>s. I s \<Longrightarrow> I (snd (m s))" and "\<And>s x. I s \<Longrightarrow> fst (m s) = Inr x \<Longrightarrow> Q x"
  shows "yields (stable I) (round_trip sh (exec m)) Q"
  unfolding yields_def
proof (intro allI impI conjI)
  fix w
  assume w: "stable I w"
  show "stable I (snd (round_trip sh (exec m) w))"
    using keeps_round_trip [OF keeps_exec [of I m, OF assms(1)], of sh] w by (simp add: keeps_def)
  fix x
  assume "fst (round_trip sh (exec m) w) = Inr x"
  then have "\<exists>s. I s \<and> fst (m s) = Inr x"
    using w by (auto simp: round_trip_def Let_def exec_def stable_def split: list.splits link.splits prod.splits)
  with assms(2) show "Q x" by blast
qed

lemma yields_filter:
  "yields I m Q \<Longrightarrow> (\<And>x. f x = ret x \<or> (\<exists>e. f x = raise e)) \<Longrightarrow> yields I (cbind m f) Q"
  unfolding yields_def cbind_def by (auto split: prod.splits sum.splits) (metis (no_types) ret_def raise_def fst_conv snd_conv sum.inject(2) Inl_Inr_False)+

lemma pkeeps_pure [keeps_intros]: "keeps P m \<Longrightarrow> pkeeps P (pure m)"
  by (auto simp: pkeeps_def keeps_def pure_def)

lemma pkeeps_bind [keeps_intros]:
  assumes "pkeeps P p" and f: "\<And>x. pkeeps P (f x)"
  shows "pkeeps P (pbind p f)"
  unfolding pkeeps_def
proof (intro allI impI)
  fix w r u
  assume "P w" and run: "pbind p f w = Some (r, u)"
  then obtain q v where pv: "p w = Some (q, v)" by (auto simp: pbind_def split: option.splits)
  with assms(1) \<open>P w\<close> have v: "P v" unfolding pkeeps_def by blast
  show "P u"
  proof (cases q)
    case (Inl e)
    with run pv v show ?thesis by (simp add: pbind_def)
  next
    case (Inr x)
    with run pv have "f x v = Some (r, u)" by (simp add: pbind_def)
    with f [of x] v show ?thesis unfolding pkeeps_def by blast
  qed
qed

lemma pkeeps_loop [keeps_intros]:
  assumes "\<And>a. keeps P (body a)"
  shows "pkeeps P (loop body a)"
proof -
  have "(\<forall>a. keeps P (body a)) \<longrightarrow> P w \<longrightarrow> P (snd ru)" if "loop body a w = Some ru" for a w ru
  proof (rule loop.raw_induct [where P = "\<lambda>bd a w ru. (\<forall>a. keeps P (bd a)) \<longrightarrow> P w \<longrightarrow> P (snd ru)", OF _ that])
    fix rec bd a w ru
    assume IH: "\<And>bd a w ru. rec bd a w = Some ru \<Longrightarrow> (\<forall>a. keeps P (bd a)) \<longrightarrow> P w \<longrightarrow> P (snd ru)"
      and turn: "(case bd a w of (Inl e, u) \<Rightarrow> Some (Inl e, u) | (Inr (Inl b), u) \<Rightarrow> Some (Inr b, u)
        | (Inr (Inr c), u) \<Rightarrow> rec bd c u) = Some ru"
    show "(\<forall>a. keeps P (bd a)) \<longrightarrow> P w \<longrightarrow> P (snd ru)"
    proof (intro impI)
      assume bd: "\<forall>a. keeps P (bd a)" and "P w"
      then have "P (snd (bd a w))" by (simp add: keeps_def)
      with turn IH bd show "P (snd ru)" by (auto split: prod.splits sum.splits)
    qed
  qed
  with assms show ?thesis by (force simp: pkeeps_def)
qed

text \<open>A loop whose turns decrease a measure, while an invariant holds, returns.\<close>

lemma loop_returns:
  assumes "P a w"
    and "\<And>a w c u. P a w \<Longrightarrow> body a w = (Inr (Inr c), u) \<Longrightarrow> P c u \<and> (f c u :: nat) < f a w"
    and "\<And>a w b u. P a w \<Longrightarrow> body a w = (Inr (Inl b), u) \<Longrightarrow> Q (Inr b) u"
    and "\<And>a w e u. P a w \<Longrightarrow> body a w = (Inl e, u) \<Longrightarrow> Q (Inl e) u"
  shows "\<exists>r u. loop body a w = Some (r, u) \<and> Q r u"
  using assms(1)
proof (induction "f a w" arbitrary: a w rule: less_induct)
  case less
  obtain x u where xu: "body a w = (x, u)" by fastforce
  consider (err) e where "x = Inl e" | (stop) b where "x = Inr (Inl b)" | (go) c where "x = Inr (Inr c)"
    by (metis sum.exhaust)
  then show ?case
  proof cases
    case err
    with assms(4) less.prems xu show ?thesis by (simp add: loop.simps [of body a w])
  next
    case stop
    with assms(3) less.prems xu show ?thesis by (simp add: loop.simps [of body a w])
  next
    case go
    with assms(2) [OF less.prems] xu less.hyps show ?thesis by (simp add: loop.simps [of body a w])
  qed
qed

subsection \<open>Lemmas: loops\<close>

text \<open>Partial correctness of a loop that returned, and what a loop that does not return looks like.\<close>

lemma loop_rule:
  assumes "loop body a w = Some (Inr b, u)" and "I a w"
    and "\<And>a w c u. I a w \<Longrightarrow> body a w = (Inr (Inr c), u) \<Longrightarrow> I c u"
    and "\<And>a w b u. I a w \<Longrightarrow> body a w = (Inr (Inl b), u) \<Longrightarrow> Q b u"
  shows "Q b u"
proof -
  have "bd = body \<longrightarrow> I a w \<longrightarrow> (\<forall>b u. ru = (Inr b, u) \<longrightarrow> Q b u)" if "loop bd a w = Some ru" for bd a w ru
  proof (rule loop.raw_induct [where P = "\<lambda>bd a w ru. bd = body \<longrightarrow> I a w \<longrightarrow> (\<forall>b u. ru = (Inr b, u) \<longrightarrow> Q b u)", OF _ that])
    fix rec bd a w ru
    assume IH: "\<And>bd a w ru. rec bd a w = Some ru \<Longrightarrow> bd = body \<longrightarrow> I a w \<longrightarrow> (\<forall>b u. ru = (Inr b, u) \<longrightarrow> Q b u)"
      and turn: "(case bd a w of (Inl e, u) \<Rightarrow> Some (Inl e, u) | (Inr (Inl b), u) \<Rightarrow> Some (Inr b, u)
        | (Inr (Inr c), u) \<Rightarrow> rec bd c u) = Some ru"
    then show "bd = body \<longrightarrow> I a w \<longrightarrow> (\<forall>b u. ru = (Inr b, u) \<longrightarrow> Q b u)"
      using assms(3,4) by (auto split: prod.splits sum.splits)
  qed
  with assms(1,2) show ?thesis by blast
qed

text \<open>The outcome of a loop whose turns do not fail.\<close>

lemma loop_result:
  assumes "loop body a w = Some (r, u)" and "I a w"
    and "\<And>a w. I a w \<Longrightarrow> \<exists>q u. body a w = (Inr q, u) \<and> (\<forall>c. q = Inr c \<longrightarrow> I c u)"
  shows "\<exists>b. r = Inr b"
proof -
  have "bd = body \<longrightarrow> I a w \<longrightarrow> (\<exists>b. fst ru = Inr b)" if "loop bd a w = Some ru" for bd a w ru
  proof (rule loop.raw_induct [where P = "\<lambda>bd a w ru. bd = body \<longrightarrow> I a w \<longrightarrow> (\<exists>b. fst ru = Inr b)", OF _ that])
    fix rec bd a w ru
    assume IH: "\<And>bd a w ru. rec bd a w = Some ru \<Longrightarrow> bd = body \<longrightarrow> I a w \<longrightarrow> (\<exists>b. fst ru = Inr b)"
      and turn: "(case bd a w of (Inl e, u) \<Rightarrow> Some (Inl e, u) | (Inr (Inl b), u) \<Rightarrow> Some (Inr b, u)
        | (Inr (Inr c), u) \<Rightarrow> rec bd c u) = Some ru"
    show "bd = body \<longrightarrow> I a w \<longrightarrow> (\<exists>b. fst ru = Inr b)"
      using assms(3) [of a w] turn IH [of body _ _ ru] by (auto split: prod.splits sum.splits)
  qed
  from this [OF assms(1)] assms(2) show ?thesis by auto
qed

primrec unroll :: "('a \<Rightarrow> ('e, 's, 'b + 'a) eff) \<Rightarrow> 'a \<times> 's \<Rightarrow> nat \<Rightarrow> 'a \<times> 's" where
  "unroll body aw 0 = aw"
| "unroll body aw (Suc i) =
     (case unroll body aw i of (a, w) \<Rightarrow> (case body a w of (Inr (Inr c), u) \<Rightarrow> (c, u) | (r, u) \<Rightarrow> (a, u)))"

definition goes_on :: "('a \<Rightarrow> ('e, 's, 'b + 'a) eff) \<Rightarrow> 'a \<times> 's \<Rightarrow> bool" where
  "goes_on body aw = (case body (fst aw) (snd aw) of (Inr (Inr c), u) \<Rightarrow> True | _ \<Rightarrow> False)"

lemma goes_onE:
  assumes "goes_on body (unroll body aw i)"
  shows "body (fst (unroll body aw i)) (snd (unroll body aw i)) =
    (Inr (Inr (fst (unroll body aw (Suc i)))), snd (unroll body aw (Suc i)))"
  using assms by (auto simp: goes_on_def split: prod.splits sum.splits)

lemma loop_unroll:
  "(\<forall>j < i. goes_on body (unroll body (a, w) j)) \<Longrightarrow>
   loop body a w = loop body (fst (unroll body (a, w) i)) (snd (unroll body (a, w) i))"
proof (induction i)
  case (Suc i)
  then show ?case
    using goes_onE [of body "(a, w)" i] loop.simps [of body "fst (unroll body (a, w) i)" "snd (unroll body (a, w) i)"]
    by simp
qed simp

lemma loop_forever:
  assumes "loop body a w = None"
  shows "goes_on body (unroll body (a, w) i)"
proof (induction i rule: less_induct)
  case (less i)
  then have "loop body (fst (unroll body (a, w) i)) (snd (unroll body (a, w) i)) = None"
    using loop_unroll [of i body a w] assms by simp
  then show ?case
    by (subst (asm) loop.simps) (auto simp: goes_on_def split: prod.splits sum.splits)
qed

end
