(* ===== verification/Redis_Server.thy ===== *)
theory Redis_Server
  imports Prelude
begin

section \<open>The Redis server as a parameter\<close>

text \<open>
  Redis, its Lua interpreter and the client library are not part of the repository. The model takes
  them as one argument \<open>R\<close>, a record of the commands the plugin issues over an unknown server
  state, and \<open>view\<close>, which reads a server state as a \<open>keyspace\<close>: the live keys with their
  objects and remaining time to live, and the messages published so far. The locale
  \<open>redis_server\<close> collects what the plugin relies on, the documented behaviour of each
  command, as simulations of the functions \<open>ks_...\<close> on keyspaces.
\<close>

datatype robj = RStr string | RZset "(string \<times> int) list"

record keyspace =
  objs :: "string \<rightharpoonup> robj \<times> nat option"
  feed :: "(string \<times> string) list"

datatype lex_bound = LexIncl string | LexExcl string

datatype score_bound = NegInf | PosInf | ScoreIncl int | ScoreExcl int

record 's redis =
  redis_get :: "string \<Rightarrow> ('s, string option) cmd"
  redis_set :: "string \<Rightarrow> string \<Rightarrow> bool \<Rightarrow> int option \<Rightarrow> ('s, bool) cmd"
  redis_del :: "string \<Rightarrow> ('s, int) cmd"
  redis_exists :: "string \<Rightarrow> ('s, int) cmd"
  redis_pexpire :: "string \<Rightarrow> int \<Rightarrow> ('s, int) cmd"
  redis_persist :: "string \<Rightarrow> ('s, int) cmd"
  redis_pttl :: "string \<Rightarrow> ('s, int) cmd"
  redis_incrby :: "string \<Rightarrow> string \<Rightarrow> ('s, int) cmd"
  redis_zadd :: "string \<Rightarrow> int \<Rightarrow> string \<Rightarrow> ('s, int) cmd"
  redis_zrem :: "string \<Rightarrow> string \<Rightarrow> ('s, int) cmd"
  redis_zrangebylex :: "string \<Rightarrow> lex_bound \<Rightarrow> lex_bound \<Rightarrow> nat \<Rightarrow> ('s, string list) cmd"
  redis_zrangebyscore ::
    "string \<Rightarrow> score_bound \<Rightarrow> score_bound \<Rightarrow> nat option \<Rightarrow> ('s, string list) cmd"
  redis_zremrangebyscore :: "string \<Rightarrow> score_bound \<Rightarrow> score_bound \<Rightarrow> ('s, int) cmd"
  redis_mget :: "string list \<Rightarrow> ('s, string option list) cmd"
  redis_scan :: "nat \<Rightarrow> string \<Rightarrow> nat \<Rightarrow> ('s, nat \<times> string list) cmd"
  redis_publish :: "string \<Rightarrow> string \<Rightarrow> ('s, int) cmd"
  lua_tonumber :: "string \<Rightarrow> lua_number option"
  lua_tointeger :: "int \<Rightarrow> int"
  show_error :: "string \<Rightarrow> string"
  utf8_error :: string
  elapse :: "nat \<Rightarrow> 's \<Rightarrow> 's"

subsection \<open>Documented behaviour on keyspaces\<close>

definition wrongtype :: string where
  "wrongtype = ''WRONGTYPE Operation against a key holding the wrong kind of value''"

definition not_an_integer :: string where
  "not_an_integer = ''ERR value is not an integer or out of range''"

definition would_overflow :: string where
  "would_overflow = ''ERR increment or decrement would overflow''"

definition ks_put :: "string \<Rightarrow> (robj \<times> nat option) option \<Rightarrow> keyspace \<Rightarrow> keyspace" where
  "ks_put k e v = v\<lparr>objs := (objs v)(k := e)\<rparr>"

definition ks_get :: "string \<Rightarrow> (keyspace, string option) cmd" where
  "ks_get k v = (case objs v k of
      None \<Rightarrow> (Inr None, v)
    | Some (RStr x, t) \<Rightarrow> (Inr (Some x), v)
    | Some (RZset z, t) \<Rightarrow> (Inl wrongtype, v))"

definition ks_set :: "string \<Rightarrow> string \<Rightarrow> bool \<Rightarrow> int option \<Rightarrow> (keyspace, bool) cmd" where
  "ks_set k x nx px v =
     (if nx \<and> objs v k \<noteq> None then (Inr False, v)
      else (Inr True, ks_put k (Some (RStr x, map_option nat px)) v))"

definition ks_del :: "string \<Rightarrow> (keyspace, int) cmd" where
  "ks_del k v = (Inr (if objs v k = None then 0 else 1), ks_put k None v)"

definition ks_exists :: "string \<Rightarrow> (keyspace, int) cmd" where
  "ks_exists k v = (Inr (if objs v k = None then 0 else 1), v)"

definition ks_pexpire :: "string \<Rightarrow> int \<Rightarrow> (keyspace, int) cmd" where
  "ks_pexpire k ms v = (case objs v k of
      None \<Rightarrow> (Inr 0, v)
    | Some (x, t) \<Rightarrow> (Inr 1, ks_put k (Some (x, Some (nat ms))) v))"

definition ks_persist :: "string \<Rightarrow> (keyspace, int) cmd" where
  "ks_persist k v = (case objs v k of
      Some (x, Some t) \<Rightarrow> (Inr 1, ks_put k (Some (x, None)) v)
    | _ \<Rightarrow> (Inr 0, v))"

definition ks_pttl :: "string \<Rightarrow> (keyspace, int) cmd" where
  "ks_pttl k v = (Inr (case objs v k of
      None \<Rightarrow> -2 | Some (x, None) \<Rightarrow> -1 | Some (x, Some t) \<Rightarrow> int t), v)"

definition ks_incrby :: "string \<Rightarrow> string \<Rightarrow> (keyspace, int) cmd" where
  "ks_incrby k by v = (case parse_i64 by of
      None \<Rightarrow> (Inl not_an_integer, v)
    | Some d \<Rightarrow> (case objs v k of
          None \<Rightarrow> (Inr d, ks_put k (Some (RStr (dec d), None)) v)
        | Some (RZset z, t) \<Rightarrow> (Inl wrongtype, v)
        | Some (RStr x, t) \<Rightarrow> (case parse_i64 x of
              None \<Rightarrow> (Inl not_an_integer, v)
            | Some c \<Rightarrow>
                if in_i64 (c + d) then (Inr (c + d), ks_put k (Some (RStr (dec (c + d)), t)) v)
                else (Inl would_overflow, v))))"

definition ks_zadd :: "string \<Rightarrow> int \<Rightarrow> string \<Rightarrow> (keyspace, int) cmd" where
  "ks_zadd z sc m v = (case objs v z of
      None \<Rightarrow> (Inr 1, ks_put z (Some (RZset [(m, sc)], None)) v)
    | Some (RStr x, t) \<Rightarrow> (Inl wrongtype, v)
    | Some (RZset l, t) \<Rightarrow>
        (Inr (if m \<in> fst ` set l then 0 else 1), ks_put z (Some (RZset (AList.update m sc l), t)) v))"

definition zset_entry :: "(string \<times> int) list \<Rightarrow> nat option \<Rightarrow> (robj \<times> nat option) option" where
  "zset_entry l t = (if l = [] then None else Some (RZset l, t))"

definition ks_zrem :: "string \<Rightarrow> string \<Rightarrow> (keyspace, int) cmd" where
  "ks_zrem z m v = (case objs v z of
      None \<Rightarrow> (Inr 0, v)
    | Some (RStr x, t) \<Rightarrow> (Inl wrongtype, v)
    | Some (RZset l, t) \<Rightarrow>
        (Inr (if m \<in> fst ` set l then 1 else 0), ks_put z (zset_entry (AList.delete m l) t) v))"

fun above_lex :: "lex_bound \<Rightarrow> string \<Rightarrow> bool" where
  "above_lex (LexIncl b) m = (b \<le> m)"
| "above_lex (LexExcl b) m = (b < m)"

fun below_lex :: "lex_bound \<Rightarrow> string \<Rightarrow> bool" where
  "below_lex (LexIncl b) m = (m \<le> b)"
| "below_lex (LexExcl b) m = (m < b)"

fun above_score :: "score_bound \<Rightarrow> int \<Rightarrow> bool" where
  "above_score NegInf sc = True"
| "above_score PosInf sc = False"
| "above_score (ScoreIncl b) sc = (b \<le> sc)"
| "above_score (ScoreExcl b) sc = (b < sc)"

fun below_score :: "score_bound \<Rightarrow> int \<Rightarrow> bool" where
  "below_score NegInf sc = False"
| "below_score PosInf sc = True"
| "below_score (ScoreIncl b) sc = (sc \<le> b)"
| "below_score (ScoreExcl b) sc = (sc < b)"

definition zread :: "((string \<times> int) list \<Rightarrow> 'a) \<Rightarrow> string \<Rightarrow> (keyspace, 'a) cmd" where
  "zread f z v = (case objs v z of
      None \<Rightarrow> (Inr (f []), v)
    | Some (RStr x, t) \<Rightarrow> (Inl wrongtype, v)
    | Some (RZset l, t) \<Rightarrow> (Inr (f l), v))"

definition lex_range :: "lex_bound \<Rightarrow> lex_bound \<Rightarrow> (string \<times> int) list \<Rightarrow> string list" where
  "lex_range lo hi l = filter (\<lambda>m. above_lex lo m \<and> below_lex hi m) (sort (map fst l))"

definition score_range :: "score_bound \<Rightarrow> score_bound \<Rightarrow> (string \<times> int) list \<Rightarrow> string list" where
  "score_range lo hi l =
     map fst (filter (\<lambda>p. above_score lo (snd p) \<and> below_score hi (snd p))
                (sort_key snd (sort_key fst l)))"

definition ks_zrangebylex :: "string \<Rightarrow> lex_bound \<Rightarrow> lex_bound \<Rightarrow> nat \<Rightarrow> (keyspace, string list) cmd" where
  "ks_zrangebylex z lo hi n = zread (\<lambda>l. take n (lex_range lo hi l)) z"

definition ks_zrangebyscore ::
  "string \<Rightarrow> score_bound \<Rightarrow> score_bound \<Rightarrow> nat option \<Rightarrow> (keyspace, string list) cmd" where
  "ks_zrangebyscore z lo hi lim =
     zread (\<lambda>l. case lim of None \<Rightarrow> score_range lo hi l | Some n \<Rightarrow> take n (score_range lo hi l)) z"

definition ks_zremrangebyscore :: "string \<Rightarrow> score_bound \<Rightarrow> score_bound \<Rightarrow> (keyspace, int) cmd" where
  "ks_zremrangebyscore z lo hi v = (case objs v z of
      None \<Rightarrow> (Inr 0, v)
    | Some (RStr x, t) \<Rightarrow> (Inl wrongtype, v)
    | Some (RZset l, t) \<Rightarrow>
        (Inr (int (length (score_range lo hi l))),
         ks_put z (zset_entry
           (filter (\<lambda>p. \<not> (above_score lo (snd p) \<and> below_score hi (snd p))) l) t) v))"

definition ks_mget :: "string list \<Rightarrow> (keyspace, string option list) cmd" where
  "ks_mget ks v = (Inr (map (\<lambda>k. case objs v k of Some (RStr x, t) \<Rightarrow> Some x | _ \<Rightarrow> None) ks), v)"

definition ks_elapse :: "nat \<Rightarrow> keyspace \<Rightarrow> keyspace" where
  "ks_elapse d v = v\<lparr>objs := (\<lambda>k. case objs v k of
      Some (x, Some t) \<Rightarrow> if d \<le> t then Some (x, Some (t - d)) else None
    | e \<Rightarrow> e)\<rparr>"

text \<open>The times to live the commands take without an error: positive, within the exact doubles.\<close>

definition px_ok :: "int \<Rightarrow> bool" where
  "px_ok ms \<longleftrightarrow> 0 < ms \<and> ms < 2 ^ 53"

definition px_opt_ok :: "int option \<Rightarrow> bool" where
  "px_opt_ok px = (case px of None \<Rightarrow> True | Some ms \<Rightarrow> px_ok ms)"

text \<open>Scores and score bounds are doubles: the server rounds the numerals it is given.\<close>

fun dbl_bound :: "score_bound \<Rightarrow> score_bound" where
  "dbl_bound (ScoreIncl b) = ScoreIncl (dbl b)"
| "dbl_bound (ScoreExcl b) = ScoreExcl (dbl b)"
| "dbl_bound b = b"

definition all_scores :: "int \<Rightarrow> string \<Rightarrow> keyspace \<Rightarrow> bool" where
  "all_scores sc z v = (case objs v z of Some (RZset l, t) \<Rightarrow> list_all (\<lambda>p. snd p = sc) l | _ \<Rightarrow> True)"

subsection \<open>The interface\<close>

locale redis_server =
  fixes R :: "'s redis" and view :: "'s \<Rightarrow> keyspace"
  assumes get_sim [sim_intros]: "sim view (redis_get R k) (ks_get k)"
    and set_sim [sim_intros]: "px_opt_ok px \<Longrightarrow> sim view (redis_set R k x nx px) (ks_set k x nx px)"
    and del_sim [sim_intros]: "sim view (redis_del R k) (ks_del k)"
    and exists_sim [sim_intros]: "sim view (redis_exists R k) (ks_exists k)"
    and pexpire_sim [sim_intros]: "px_ok ms \<Longrightarrow> sim view (redis_pexpire R k ms) (ks_pexpire k ms)"
    and persist_sim [sim_intros]: "sim view (redis_persist R k) (ks_persist k)"
    and pttl_sim [sim_intros]: "sim view (redis_pttl R k) (ks_pttl k)"
    and incrby_sim [sim_intros]: "sim view (redis_incrby R k by) (ks_incrby k by)"
    and zadd_sim: "sim view (redis_zadd R z sc m) (ks_zadd z (dbl sc) m)"
    and zrem_sim [sim_intros]: "sim view (redis_zrem R z m) (ks_zrem z m)"
    and zrangebylex_sim: "all_scores 0 z (view s) \<Longrightarrow> n < 2 ^ 63 \<Longrightarrow>
      map_prod id view (redis_zrangebylex R z lo hi n s) = ks_zrangebylex z lo hi n (view s)"
    and zrangebyscore_sim [sim_intros]:
      "sim view (redis_zrangebyscore R z slo shi lim) (ks_zrangebyscore z (dbl_bound slo) (dbl_bound shi) lim)"
    and zremrangebyscore_sim [sim_intros]:
      "sim view (redis_zremrangebyscore R z slo shi) (ks_zremrangebyscore z (dbl_bound slo) (dbl_bound shi))"
    and mget_sim [sim_intros]: "sim view (redis_mget R ks) (ks_mget ks)"
    and publish_feed: "fst (redis_publish R c p s) = Inr cnt \<Longrightarrow>
      view (snd (redis_publish R c p s)) = (view s)\<lparr>feed := feed (view s) @ [(c, p)]\<rparr>"
    and publish_replies: "\<exists>cnt. fst (redis_publish R c p s) = Inr cnt"
    and tonumber_dec: "in_i64 i \<Longrightarrow> lua_tonumber R (dec i) = Some (LInt (dbl i))"
    and tointeger_i64: "in_i64 i \<Longrightarrow> lua_tointeger R i = i"
    and error_word: "sublist (takeWhile (\<lambda>c. c \<noteq> CHR '' '') e) (show_error R e)"
    and elapse_view: "view (elapse R d s) = ks_elapse d (view s)"
begin

lemma zadd_dbl_sim [sim_intros]: "sim view (redis_zadd R z (dbl i) m) (ks_zadd z (dbl i) m)"
  using zadd_sim [of z "dbl i" m] by simp

lemma zadd_zero_sim [sim_intros]: "sim view (redis_zadd R z 0 m) (ks_zadd z 0 m)"
  using zadd_sim [of z 0 m] by simp

end

subsection \<open>Reading a keyspace\<close>

definition live :: "keyspace \<Rightarrow> string \<Rightarrow> bool" where
  "live v k \<longleftrightarrow> objs v k \<noteq> None"

definition str_at :: "keyspace \<Rightarrow> string \<Rightarrow> (string \<times> nat option) option" where
  "str_at v k = (case objs v k of Some (RStr x, t) \<Rightarrow> Some (x, t) | _ \<Rightarrow> None)"

definition zset_at :: "keyspace \<Rightarrow> string \<Rightarrow> (string \<times> int) list" where
  "zset_at v z = (case objs v z of Some (RZset l, t) \<Rightarrow> l | _ \<Rightarrow> [])"

definition members :: "keyspace \<Rightarrow> string \<Rightarrow> string set" where
  "members v z = fst ` set (zset_at v z)"

text \<open>The key holds no object of the other kind, so string (sorted-set) commands accept it.\<close>

definition str_slot :: "keyspace \<Rightarrow> string \<Rightarrow> bool" where
  "str_slot v k = (case objs v k of Some (RZset l, t) \<Rightarrow> False | _ \<Rightarrow> True)"

definition zset_slot :: "keyspace \<Rightarrow> string \<Rightarrow> bool" where
  "zset_slot v z = (case objs v z of Some (RStr x, t) \<Rightarrow> False | _ \<Rightarrow> True)"

text \<open>A sorted set as the plugin keeps them: each member once, no time to live.\<close>

definition zset_ok :: "keyspace \<Rightarrow> string \<Rightarrow> bool" where
  "zset_ok v z = (case objs v z of None \<Rightarrow> True | Some (RStr x, t) \<Rightarrow> False
     | Some (RZset l, t) \<Rightarrow> distinct (map fst l) \<and> t = None)"

subsection \<open>The updates, as seen by the readers\<close>

definition zput :: "string \<Rightarrow> int \<Rightarrow> string \<Rightarrow> keyspace \<Rightarrow> keyspace" where
  "zput z sc m v = snd (ks_zadd z sc m v)"

definition zdel :: "string \<Rightarrow> string \<Rightarrow> keyspace \<Rightarrow> keyspace" where
  "zdel z m v = snd (ks_zrem z m v)"

lemma ks_put_objs [ks_simps]: "objs (ks_put k e v) j = (if j = k then e else objs v j)"
  by (simp add: ks_put_def)

lemma ks_put_feed [ks_simps]: "feed (ks_put k e v) = feed v"
  by (simp add: ks_put_def)

lemma ks_put_same [simp]: "ks_put k (objs v k) v = v"
  by (simp add: ks_put_def)

lemma ks_put_id: "objs v k = e \<Longrightarrow> ks_put k e v = v"
  by auto

lemma ks_put_twist: "j \<noteq> k \<Longrightarrow> ks_put j d (ks_put k e v) = ks_put k e (ks_put j d v)"
  by (simp add: ks_put_def fun_upd_twist)

lemma ks_put_put [simp]: "ks_put k d (ks_put k e v) = ks_put k d v"
  by (simp add: ks_put_def)

lemma ks_zadd_ok [ks_simps]: "zset_slot v z \<Longrightarrow> \<exists>n. ks_zadd z sc m v = (Inr n, zput z sc m v)"
  by (auto simp: ks_zadd_def zput_def zset_slot_def split: option.splits robj.splits)

lemma ks_zrem_ok [ks_simps]: "zset_slot v z \<Longrightarrow> \<exists>n. ks_zrem z m v = (Inr n, zdel z m v)"
  by (auto simp: ks_zrem_def zdel_def zset_slot_def split: option.splits robj.splits)

lemma cbind_zadd: "zset_slot v z \<Longrightarrow> cbind (ks_zadd z sc m) (\<lambda>_. f) v = f (zput z sc m v)"
  using ks_zadd_ok [of v z sc m] by (auto simp: cbind_def)

lemma cbind_zrem: "zset_slot v z \<Longrightarrow> cbind (ks_zrem z m) (\<lambda>_. f) v = f (zdel z m v)"
  using ks_zrem_ok [of v z m] by (auto simp: cbind_def)

lemma objs_zput_other [ks_simps]: "k \<noteq> z \<Longrightarrow> objs (zput z sc m v) k = objs v k"
  by (auto simp: zput_def ks_zadd_def ks_put_def split: option.splits robj.splits)

lemma objs_zdel_other [ks_simps]: "k \<noteq> z \<Longrightarrow> objs (zdel z m v) k = objs v k"
  by (auto simp: zdel_def ks_zrem_def ks_put_def split: option.splits robj.splits)

lemma zset_at_zput:
  "zset_slot v z \<Longrightarrow> zset_at (zput z sc m v) z = AList.update m sc (zset_at v z)"
  by (auto simp: zput_def ks_zadd_def ks_put_def zset_at_def zset_slot_def split: option.splits robj.splits)

lemma zset_at_zdel:
  "zset_slot v z \<Longrightarrow> zset_at (zdel z m v) z = AList.delete m (zset_at v z)"
  by (auto simp: zdel_def ks_zrem_def ks_put_def zset_at_def zset_slot_def zset_entry_def
      split: option.splits robj.splits)

lemma members_zput [ks_simps]: "zset_slot v z \<Longrightarrow> members (zput z sc m v) z = insert m (members v z)"
  by (simp add: members_def zset_at_zput dom_update)

lemma members_zdel [ks_simps]: "zset_slot v z \<Longrightarrow> members (zdel z m v) z = members v z - {m}"
  by (auto simp: members_def zset_at_zdel delete_keys set_map [symmetric] simp del: set_map)

lemma members_other [ks_simps]:
  "k \<noteq> z \<Longrightarrow> members (zput z sc m v) k = members v k"
  "k \<noteq> z \<Longrightarrow> members (zdel z m v) k = members v k"
  "k \<noteq> j \<Longrightarrow> members (ks_put j e v) k = members v k"
  by (simp_all add: members_def zset_at_def ks_simps)

lemma live_other [ks_simps]:
  "k \<noteq> z \<Longrightarrow> live (zput z sc m v) k = live v k"
  "k \<noteq> z \<Longrightarrow> live (zdel z m v) k = live v k"
  "live (ks_put j e v) k = (if k = j then e \<noteq> None else live v k)"
  by (simp_all add: live_def ks_simps)

lemma str_at_other [ks_simps]:
  "k \<noteq> z \<Longrightarrow> str_at (zput z sc m v) k = str_at v k"
  "k \<noteq> z \<Longrightarrow> str_at (zdel z m v) k = str_at v k"
  "k \<noteq> j \<Longrightarrow> str_at (ks_put j e v) k = str_at v k"
  by (simp_all add: str_at_def ks_simps)

lemma str_slot_other [ks_simps]:
  "k \<noteq> z \<Longrightarrow> str_slot (zput z sc m v) k = str_slot v k"
  "k \<noteq> z \<Longrightarrow> str_slot (zdel z m v) k = str_slot v k"
  "k \<noteq> j \<Longrightarrow> str_slot (ks_put j e v) k = str_slot v k"
  by (simp_all add: str_slot_def ks_simps)

lemma zset_slot_other [ks_simps]:
  "k \<noteq> z \<Longrightarrow> zset_slot (zput z sc m v) k = zset_slot v k"
  "k \<noteq> z \<Longrightarrow> zset_slot (zdel z m v) k = zset_slot v k"
  "k \<noteq> j \<Longrightarrow> zset_slot (ks_put j e v) k = zset_slot v k"
  by (simp_all add: zset_slot_def ks_simps)

lemma zset_slot_self [ks_simps]:
  "zset_slot (zput z sc m v) z = zset_slot v z"
  "zset_slot (zdel z m v) z = zset_slot v z"
  by (auto simp: zset_slot_def zput_def zdel_def ks_zadd_def ks_zrem_def ks_put_def zset_entry_def
      split: option.splits robj.splits)

lemma zset_ok_other [ks_simps]:
  "k \<noteq> z \<Longrightarrow> zset_ok (zput z sc m v) k = zset_ok v k"
  "k \<noteq> z \<Longrightarrow> zset_ok (zdel z m v) k = zset_ok v k"
  "k \<noteq> j \<Longrightarrow> zset_ok (ks_put j e v) k = zset_ok v k"
  by (simp_all add: zset_ok_def ks_simps)

lemma zset_ok_self [ks_simps]:
  "zset_ok v z \<Longrightarrow> zset_ok (zput z sc m v) z"
  "zset_ok v z \<Longrightarrow> zset_ok (zdel z m v) z"
  by (auto simp: zset_ok_def zput_def zdel_def ks_zadd_def ks_zrem_def ks_put_def zset_entry_def
      distinct_update distinct_delete split: option.splits robj.splits)

lemma zset_ok_slot [simp]: "zset_ok v z \<Longrightarrow> zset_slot v z"
  by (auto simp: zset_ok_def zset_slot_def split: option.splits robj.splits)

lemma zset_ok_distinct: "zset_ok v z \<Longrightarrow> distinct (map fst (zset_at v z))"
  by (auto simp: zset_ok_def zset_at_def split: option.splits robj.splits)

lemma str_at_live: "str_at v k = Some (x, t) \<longleftrightarrow> objs v k = Some (RStr x, t)"
  by (auto simp: str_at_def split: option.splits robj.splits)

lemma live_str_at: "str_slot v k \<Longrightarrow> live v k = (str_at v k \<noteq> None)"
  by (auto simp: str_at_def str_slot_def live_def split: option.splits robj.splits)

lemma ks_get_str: "str_slot v k \<Longrightarrow> ks_get k v = (Inr (map_option fst (str_at v k)), v)"
  by (auto simp: ks_get_def str_at_def str_slot_def split: option.splits robj.splits)

lemma elapse_readers [ks_simps]:
  "str_slot v k \<Longrightarrow> str_slot (ks_elapse d v) k"
  "live (ks_elapse d v) k \<Longrightarrow> live v k"
  "zset_ok v z \<Longrightarrow> objs (ks_elapse d v) z = objs v z"
  by (force simp: ks_elapse_def zset_ok_def str_slot_def live_def
      split: option.splits prod.splits robj.splits)+

lemma elapse_ttl: "objs (ks_elapse d v) k = Some (x, Some t) \<Longrightarrow> objs v k = Some (x, Some (t + d))"
  by (auto simp: ks_elapse_def split: option.splits if_splits)

lemma elapse_dies: "live v k \<Longrightarrow> \<not> live (ks_elapse d v) k \<Longrightarrow> \<exists>x t. objs v k = Some (x, Some t) \<and> t < d"
  by (auto simp: ks_elapse_def live_def split: option.splits if_splits)

lemma elapse_zset [ks_simps]:
  assumes "zset_ok v z"
  shows "zset_ok (ks_elapse d v) z" and "members (ks_elapse d v) z = members v z"
  using assms elapse_readers(3) [OF assms, of d]
  by (simp_all add: zset_ok_def members_def zset_at_def)

lemma score_range_subset: "set (score_range lo hi l) \<subseteq> fst ` set l"
  by (force simp: score_range_def)

lemma lex_range_subset: "set (lex_range lo hi l) \<subseteq> fst ` set l"
  by (auto simp: lex_range_def)

lemma zrange_members:
  "fst (ks_zrangebyscore z slo shi lim v) = Inr x \<Longrightarrow> set x \<subseteq> members v z"
  "fst (ks_zrangebylex z lo hi n v) = Inr x \<Longrightarrow> set x \<subseteq> members v z"
  using score_range_subset lex_range_subset
  by (force simp: ks_zrangebyscore_def ks_zrangebylex_def zread_def members_def zset_at_def
      split: option.splits robj.splits dest!: in_set_takeD)+

end
