(* ===== verification/Kv_Keys.thy ===== *)
theory Kv_Keys
  imports Redis_Server
begin

section \<open>The key layout of the state store\<close>

text \<open>
  \<open>RedisKv\<close> of \<open>state/kv.rs\<close>: its prefix, the names of the two indexes and of the
  completeness mark, and whether listings trust the index. The connection itself is the world the
  operations act on.
\<close>

record redis_kv =
  key_prefix :: string
  index_key :: string
  expiry_key :: string
  complete_key :: string
  index_ready :: bool

definition with_connection_manager :: "string \<Rightarrow> redis_kv" where
  "with_connection_manager p = \<lparr>key_prefix = p, index_key = p @ ''#kv-index'',
     expiry_key = p @ ''#kv-expiry'', complete_key = p @ ''#kv-index-complete'', index_ready = False\<rparr>"

definition full_key :: "redis_kv \<Rightarrow> string \<Rightarrow> string" where
  "full_key K key = (if key_prefix K = [] then key else key_prefix K @ '':'' @ key)"

text \<open>Rust's \<open>str::strip_prefix\<close>.\<close>

definition strip_prefix :: "string \<Rightarrow> string \<Rightarrow> string option" where
  "strip_prefix p s = (if prefix p s then Some (drop (length p) s) else None)"

definition logical_key :: "redis_kv \<Rightarrow> string \<Rightarrow> string" where
  "logical_key K full =
     (if key_prefix K = [] then full
      else case strip_prefix (key_prefix K @ '':'') full of Some s \<Rightarrow> s | None \<Rightarrow> full)"

definition set_index_ready :: "redis_kv \<Rightarrow> bool \<Rightarrow> redis_kv" where
  "set_index_ready K ready = K\<lparr>index_ready := ready\<rparr>"

fun glob_escape :: "string \<Rightarrow> string" where
  "glob_escape [] = []"
| "glob_escape (c # cs) =
     (if c = CHR ''*'' \<or> c = CHR ''?'' \<or> c = CHR ''['' \<or> c = CHR '']'' \<or> c = CHR 0x5C
      then CHR 0x5C # c # glob_escape cs else c # glob_escape cs)"

subsection \<open>Which keys are data keys\<close>

definition data_key :: "redis_kv \<Rightarrow> string \<Rightarrow> bool" where
  "data_key K k \<longleftrightarrow> prefix (full_key K []) k"

definition keys_apart :: "redis_kv \<Rightarrow> bool" where
  "keys_apart K \<longleftrightarrow> distinct [index_key K, expiry_key K, complete_key K] \<and>
     \<not> data_key K (index_key K) \<and> \<not> data_key K (expiry_key K) \<and> \<not> data_key K (complete_key K)"

lemma full_key_append: "full_key K (a @ b) = full_key K a @ b"
  by (simp add: full_key_def)

lemma full_key_prefix_iff: "prefix (full_key K p) (full_key K k) \<longleftrightarrow> prefix p k"
  by (simp add: full_key_def)

lemma data_key_iff: "data_key K k \<longleftrightarrow> (\<exists>j. k = full_key K j)"
  by (auto simp: data_key_def prefix_def full_key_def)

lemma data_key_full [simp, intro]: "data_key K (full_key K k)"
  by (auto simp: data_key_iff)

lemma full_key_inj: "full_key K a = full_key K b \<longleftrightarrow> a = b"
  by (simp add: full_key_def)

lemma logical_full [simp]: "logical_key K (full_key K k) = k"
  by (simp add: logical_key_def full_key_def strip_prefix_def)

lemma keys_apart_prefix: "p \<noteq> [] \<Longrightarrow> keys_apart (with_connection_manager p)"
  by (simp add: keys_apart_def with_connection_manager_def data_key_def full_key_def)

text \<open>Without a prefix the data keys cover the indexes themselves.\<close>

lemma keys_not_apart_empty: "\<not> keys_apart (with_connection_manager [])"
  by (simp add: keys_apart_def with_connection_manager_def data_key_def full_key_def)

subsection \<open>The byte order and prefixes\<close>

lemma char_le_max: "(c::char) \<le> CHR 0xFF"
proof -
  have "of_char c < (256 :: nat)" by (rule nat_of_char_less_256)
  then have "of_char c \<le> (255 :: nat)" by linarith
  then show ?thesis by (simp add: less_eq_char_def)
qed

lemma char_less_max: "(c::char) < CHR 0xFF \<longleftrightarrow> c \<noteq> CHR 0xFF"
  using char_le_max [of c] by auto

text \<open>
  The range \<open>[p, p 0xFF)\<close> of the byte order holds exactly the strings with prefix \<open>p\<close>, as long
  as they hold no byte \<open>0xFF\<close>.
\<close>

lemma prefix_range:
  "CHR 0xFF \<notin> set k \<Longrightarrow> p \<le> k \<and> k < p @ [CHR 0xFF] \<longleftrightarrow> prefix p k"
proof (induction p arbitrary: k)
  case Nil
  then show ?case by (cases k) (auto simp: char_less_max)
next
  case (Cons c p)
  then show ?case
  proof (cases k)
    case Nil
    then show ?thesis by simp
  next
    case (Cons d ks)
    with Cons.prems Cons.IH [of ks] show ?thesis by auto
  qed
qed

lemma prefix_above: "prefix p k \<Longrightarrow> p \<le> (k :: string)"
proof (induction p arbitrary: k)
  case (Cons c p)
  then show ?case by (cases k) auto
qed simp

lemma append_le: "p @ a \<le> p @ b \<longleftrightarrow> a \<le> (b :: string)"
  by (induction p) auto

lemma full_key_le: "full_key K a \<le> full_key K b \<longleftrightarrow> a \<le> b"
  using append_le [of "key_prefix K @ '':''"] by (simp add: full_key_def)

end
