(* ===== verification/Kv_Scripts.thy ===== *)
theory Kv_Scripts
  imports Redis_Server
begin

section \<open>The key/value scripts\<close>

text \<open>
  The Lua scripts of \<open>state/kv.rs\<close>, one definition each, over the server \<open>R\<close>. Every script
  takes the data key, the key index and the expiry index as the source does (\<open>KEYS[1..3]\<close>), then
  its arguments. \<open>tonumber(ARGV[i])\<close> of an integer argument is \<^const>\<open>dbl\<close>.
\<close>

definition set_lua ::
  "'s redis \<Rightarrow> string \<Rightarrow> string \<Rightarrow> string \<Rightarrow> string \<Rightarrow> int \<Rightarrow> int \<Rightarrow> string \<Rightarrow> ('s, int) cmd" where
  "set_lua R data idx exp value ttl_arg now_arg nx =
     (let ttl = dbl ttl_arg;
          px = (if 0 < ttl then Some ttl else None);
          index = cbind (if 0 < ttl then redis_zadd R exp (dbl (dbl now_arg + ttl)) data
                         else redis_zrem R exp data)
            (\<lambda>_. cbind (redis_zadd R idx 0 data) (\<lambda>_. ret 1))
      in if nx = ''1''
         then cbind (redis_set R data value True px) (\<lambda>ok. if \<not> ok then ret 0 else index)
         else cbind (redis_set R data value False px) (\<lambda>_. index))"

definition del_lua :: "'s redis \<Rightarrow> string \<Rightarrow> string \<Rightarrow> string \<Rightarrow> ('s, int) cmd" where
  "del_lua R data idx exp =
     cbind (redis_del R data) (\<lambda>n.
     cbind (redis_zrem R idx data) (\<lambda>_.
     cbind (redis_zrem R exp data) (\<lambda>_. ret n)))"

definition expire_lua ::
  "'s redis \<Rightarrow> string \<Rightarrow> string \<Rightarrow> string \<Rightarrow> int \<Rightarrow> int \<Rightarrow> ('s, int) cmd" where
  "expire_lua R data idx exp ttl_arg now_arg =
     cbind (redis_exists R data) (\<lambda>n.
       if n = 0 then ret 0
       else let ttl = dbl ttl_arg in
         cbind (if 0 < ttl
                then cbind (redis_pexpire R data ttl)
                       (\<lambda>_. redis_zadd R exp (dbl (dbl now_arg + ttl)) data)
                else cbind (redis_persist R data) (\<lambda>_. redis_zrem R exp data))
         (\<lambda>_. cbind (redis_zadd R idx 0 data) (\<lambda>_. ret 1)))"

text \<open>
  An integer the server replies inside a script is a Lua number from then on; returned from the
  script, that number is turned back into an integer.
\<close>

definition lua_reply :: "'s redis \<Rightarrow> int \<Rightarrow> int" where
  "lua_reply R n = lua_tointeger R (dbl n)"

definition incr_precondition :: string where
  "incr_precondition = ''MCPG_KV_INCR_PRECONDITION''"

text \<open>What both counter scripts do after \<open>INCRBY\<close>: reply its error, or re-arm the TTL and index.\<close>

definition incr_finish ::
  "'s redis \<Rightarrow> string \<Rightarrow> string \<Rightarrow> string \<Rightarrow> int \<Rightarrow> int \<Rightarrow> string + int \<Rightarrow> ('s, int) cmd" where
  "incr_finish R data idx exp ttl_arg now_arg r =
     (case r of
        Inl e \<Rightarrow> raise (incr_precondition @ '': '' @ e)
      | Inr n \<Rightarrow>
          (let ttl = dbl ttl_arg;
               index = cbind (redis_zadd R idx 0 data) (\<lambda>_. ret (lua_reply R n))
           in if 0 < ttl
              then cbind (redis_pexpire R data ttl)
                     (\<lambda>_. cbind (redis_zadd R exp (dbl (dbl now_arg + ttl)) data) (\<lambda>_. index))
              else index))"

definition incr_lua ::
  "'s redis \<Rightarrow> string \<Rightarrow> string \<Rightarrow> string \<Rightarrow> int \<Rightarrow> int \<Rightarrow> int \<Rightarrow> ('s, int) cmd" where
  "incr_lua R data idx exp delta ttl_arg now_arg =
     cbind (pcall (redis_incrby R data (dec delta))) (incr_finish R data idx exp ttl_arg now_arg)"

text \<open>
  Lua arithmetic on the numbers of \<open>INCR_FLOOR_LUA\<close>. An infinity is
  past the guard; a fraction or a NaN (\<^const>\<open>LOther\<close>) passes it and makes \<open>INCRBY\<close> raise, whatever the increment:
  the server refuses to add to such a value.
\<close>

definition exact :: int where
  "exact = 9007199254740992"

fun lua_abs_ge :: "lua_number \<Rightarrow> int \<Rightarrow> bool" where
  "lua_abs_ge (LInt i) b = (b \<le> \<bar>i\<bar>)"
| "lua_abs_ge LInf b = True"
| "lua_abs_ge LOther b = False"

fun lua_less :: "lua_number \<Rightarrow> lua_number \<Rightarrow> bool" where
  "lua_less (LInt i) (LInt j) = (i < j)"
| "lua_less _ _ = False"

fun lua_sub :: "lua_number \<Rightarrow> lua_number \<Rightarrow> lua_number" where
  "lua_sub (LInt i) (LInt j) = LInt (dbl (i - j))"
| "lua_sub _ _ = LOther"

fun lua_add :: "lua_number \<Rightarrow> lua_number \<Rightarrow> lua_number" where
  "lua_add (LInt i) (LInt j) = LInt (dbl (i + j))"
| "lua_add _ _ = LOther"

text \<open>\<open>string.format('%.0f', x)\<close>\<close>

fun format_0f :: "lua_number \<Rightarrow> string" where
  "format_0f (LInt i) = dec i"
| "format_0f LInf = ''inf''"
| "format_0f LOther = ''nan''"

definition incr_floor_lua ::
  "'s redis \<Rightarrow> string \<Rightarrow> string \<Rightarrow> string \<Rightarrow> int \<Rightarrow> int \<Rightarrow> int \<Rightarrow> int \<Rightarrow> ('s, int) cmd" where
  "incr_floor_lua R data idx exp delta_arg ttl_arg now_arg floor_arg =
     cbind (redis_get R data) (\<lambda>raw.
       let delta = LInt (dbl delta_arg); floor = LInt (dbl floor_arg) in
       case (case raw of None \<Rightarrow> Some (LInt 0) | Some t \<Rightarrow> lua_tonumber R t) of
         None \<Rightarrow> raise (incr_precondition @ '': incr target holds a non-integer value'')
       | Some current \<Rightarrow>
           if lua_abs_ge current exact \<or> lua_abs_ge floor exact \<or> lua_abs_ge delta exact
           then raise (incr_precondition @ '': incr_floor operand beyond 2^53'')
           else let base = (if lua_less current floor then floor else current) in
             cbind (pcall (redis_incrby R data (format_0f (lua_add (lua_sub base current) delta))))
               (incr_finish R data idx exp ttl_arg now_arg))"

definition prune_one :: "'s redis \<Rightarrow> string \<Rightarrow> string \<Rightarrow> string \<Rightarrow> ('s, int) cmd" where
  "prune_one R idx exp k =
     cbind (redis_exists R k) (\<lambda>n.
       if n = 0
       then cbind (redis_zrem R idx k) (\<lambda>_. cbind (redis_zrem R exp k) (\<lambda>_. ret 1))
       else ret 0)"

definition prune_lua :: "'s redis \<Rightarrow> string \<Rightarrow> string \<Rightarrow> string list \<Rightarrow> ('s, int) cmd" where
  "prune_lua R idx exp ks = for_count (prune_one R idx exp) ks 0"

definition sweep_one :: "'s redis \<Rightarrow> string \<Rightarrow> string \<Rightarrow> int \<Rightarrow> string \<Rightarrow> ('s, int) cmd" where
  "sweep_one R idx exp now k =
     cbind (redis_pttl R k) (\<lambda>pttl.
       if pttl = -2
       then cbind (redis_zrem R idx k) (\<lambda>_. cbind (redis_zrem R exp k) (\<lambda>_. ret 1))
       else if pttl = -1 then cbind (redis_zrem R exp k) (\<lambda>_. ret 0)
       else cbind (redis_zadd R exp (dbl (now + dbl pttl)) k) (\<lambda>_. ret 0))"

definition sweep_lua :: "'s redis \<Rightarrow> string \<Rightarrow> string \<Rightarrow> int \<Rightarrow> string list \<Rightarrow> ('s, int) cmd" where
  "sweep_lua R idx exp now_arg ks = for_count (sweep_one R idx exp (dbl now_arg)) ks 0"

definition backfill_one :: "'s redis \<Rightarrow> string \<Rightarrow> string \<Rightarrow> int \<Rightarrow> string \<Rightarrow> ('s, int) cmd" where
  "backfill_one R idx exp now k =
     cbind (redis_pttl R k) (\<lambda>pttl.
       if pttl \<noteq> -2
       then cbind (redis_zadd R idx 0 k)
              (\<lambda>_. if 0 < pttl then cbind (redis_zadd R exp (dbl (now + dbl pttl)) k) (\<lambda>_. ret 1) else ret 1)
       else ret 0)"

definition backfill_lua :: "'s redis \<Rightarrow> string \<Rightarrow> string \<Rightarrow> int \<Rightarrow> string list \<Rightarrow> ('s, int) cmd" where
  "backfill_lua R idx exp now_arg ks = for_count (backfill_one R idx exp (dbl now_arg)) ks 0"

subsection \<open>Scripts on keyspaces\<close>

text \<open>
  The documented commands as a server whose state is the keyspace itself, with the interpreter's
  \<open>tonumber\<close> taken from \<open>R\<close>. Each script on \<open>R\<close> is simulated by the same script there.
  (No script uses \<open>SCAN\<close> or \<open>PUBLISH\<close>.)
\<close>

definition ks_ops :: "'s redis \<Rightarrow> keyspace redis" where
  "ks_ops R = \<lparr>redis_get = ks_get, redis_set = ks_set, redis_del = ks_del, redis_exists = ks_exists,
     redis_pexpire = ks_pexpire, redis_persist = ks_persist, redis_pttl = ks_pttl,
     redis_incrby = ks_incrby, redis_zadd = ks_zadd, redis_zrem = ks_zrem,
     redis_zrangebylex = ks_zrangebylex, redis_zrangebyscore = ks_zrangebyscore,
     redis_zremrangebyscore = ks_zremrangebyscore, redis_mget = ks_mget,
     redis_scan = \<lambda>c pat n. ret (0, []), redis_publish = \<lambda>c p v. (Inr 0, v\<lparr>feed := feed v @ [(c, p)]\<rparr>),
     lua_tonumber = lua_tonumber R, lua_tointeger = lua_tointeger R, show_error = show_error R,
     utf8_error = utf8_error R, elapse = ks_elapse\<rparr>"

lemma ks_ops_simps [simp]:
  "redis_get (ks_ops R) = ks_get" "redis_set (ks_ops R) = ks_set" "redis_del (ks_ops R) = ks_del"
  "redis_exists (ks_ops R) = ks_exists" "redis_pexpire (ks_ops R) = ks_pexpire"
  "redis_persist (ks_ops R) = ks_persist" "redis_pttl (ks_ops R) = ks_pttl"
  "redis_incrby (ks_ops R) = ks_incrby" "redis_zadd (ks_ops R) = ks_zadd"
  "redis_zrem (ks_ops R) = ks_zrem" "redis_mget (ks_ops R) = ks_mget"
  "redis_zrangebyscore (ks_ops R) = ks_zrangebyscore"
  "redis_zremrangebyscore (ks_ops R) = ks_zremrangebyscore"
  "lua_tonumber (ks_ops R) = lua_tonumber R" "lua_tointeger (ks_ops R) = lua_tointeger R" "show_error (ks_ops R) = show_error R"
  by (simp_all add: ks_ops_def)

lemma lua_reply_ks [simp]: "lua_reply (ks_ops R) n = lua_reply R n"
  by (simp add: lua_reply_def)

text \<open>A TTL argument a script can use: 0 (none) or one the server accepts.\<close>

definition ttl_arg_ok :: "int \<Rightarrow> bool" where
  "ttl_arg_ok ttl \<longleftrightarrow> 0 \<le> ttl \<and> ttl < 2 ^ 53"

lemma ttl_arg_dbl [simp]: "ttl_arg_ok ttl \<Longrightarrow> dbl ttl = ttl"
  by (simp add: ttl_arg_ok_def)

lemma ttl_arg_px: "ttl_arg_ok ttl \<Longrightarrow> 0 < ttl \<Longrightarrow> px_ok ttl"
  by (simp add: ttl_arg_ok_def px_ok_def)

lemma ttl_arg_px_opt: "ttl_arg_ok ttl \<Longrightarrow> px_opt_ok (if 0 < ttl then Some ttl else None)"
  by (simp add: px_opt_ok_def ttl_arg_px)

context redis_server
begin

lemma set_lua_sim: "ttl_arg_ok ttl \<Longrightarrow>
  sim view (set_lua R data idx exp x ttl now nx) (set_lua (ks_ops R) data idx exp x ttl now nx)"
  unfolding set_lua_def Let_def ks_ops_simps by (simp only: ttl_arg_dbl) (intro sim_intros ttl_arg_px_opt)

lemma del_lua_sim: "sim view (del_lua R data idx exp) (del_lua (ks_ops R) data idx exp)"
  unfolding del_lua_def ks_ops_simps by (intro sim_intros)

lemma expire_lua_sim: "ttl_arg_ok ttl \<Longrightarrow>
  sim view (expire_lua R data idx exp ttl now) (expire_lua (ks_ops R) data idx exp ttl now)"
  unfolding expire_lua_def Let_def ks_ops_simps
  by (simp only: ttl_arg_dbl) (intro sim_intros ttl_arg_px; assumption)

text \<open>The reply is the integer itself as long as it is a double.\<close>

lemma lua_reply_exact: "\<bar>n\<bar> \<le> 2 ^ 53 \<Longrightarrow> lua_reply R n = n"
proof -
  assume n: "\<bar>n\<bar> \<le> 2 ^ 53"
  then have "in_i64 n" by (auto simp: in_i64_def)
  with n show ?thesis by (simp add: lua_reply_def dbl_bound_exact tointeger_i64)
qed

lemma incr_finish_sim [sim_intros]: "ttl_arg_ok ttl \<Longrightarrow>
  sim view (incr_finish R data idx exp ttl now r) (incr_finish (ks_ops R) data idx exp ttl now r)"
  unfolding incr_finish_def Let_def ks_ops_simps lua_reply_ks
  by (simp only: ttl_arg_dbl) (intro sim_intros ttl_arg_px; assumption)

lemma incr_lua_sim: "ttl_arg_ok ttl \<Longrightarrow>
  sim view (incr_lua R data idx exp delta ttl now) (incr_lua (ks_ops R) data idx exp delta ttl now)"
  unfolding incr_lua_def ks_ops_simps by (intro sim_intros)

lemma incr_floor_lua_sim: "ttl_arg_ok ttl \<Longrightarrow>
  sim view (incr_floor_lua R data idx exp delta ttl now floor)
    (incr_floor_lua (ks_ops R) data idx exp delta ttl now floor)"
  unfolding incr_floor_lua_def Let_def ks_ops_simps by (intro sim_intros)

lemma prune_lua_sim: "sim view (prune_lua R idx exp ks) (prune_lua (ks_ops R) idx exp ks)"
  unfolding prune_lua_def prune_one_def ks_ops_simps by (intro sim_intros)

lemma sweep_lua_sim: "sim view (sweep_lua R idx exp now ks) (sweep_lua (ks_ops R) idx exp now ks)"
  unfolding sweep_lua_def sweep_one_def ks_ops_simps by (intro sim_intros)

lemma backfill_lua_sim:
  "sim view (backfill_lua R idx exp now ks) (backfill_lua (ks_ops R) idx exp now ks)"
  unfolding backfill_lua_def backfill_one_def ks_ops_simps by (intro sim_intros)

end

end
