(* ===== verification/Kv_Index.thy ===== *)
theory Kv_Index
  imports Kv_Keys Kv_Scripts
begin

section \<open>The index invariants of the state store\<close>

text \<open>
  What the scripts keep true of a keyspace between the data keys and the two indexes:
  \<^item> \<open>kv_wf\<close>: the indexes are sorted sets without a TTL that hold data keys only, the key index with
    score 0 throughout; no data key holds a sorted set;
  \<^item> \<open>kv_complete\<close>: every live data key is in the key index, so a listing that reads the index
    misses nothing;
  \<^item> \<open>kv_reclaim\<close>: every data key with a TTL is in the expiry index, and every index entry is that
    of a live key or is in the expiry index, so a sweep finds every entry it has to drop.
  The effect of every script on one key is an instance of \<open>touch\<close>; what \<open>touch\<close> keeps is proved
  once, and the contract that all scripts share is the locale \<open>index_keeper\<close>.
\<close>

definition kv_wf :: "redis_kv \<Rightarrow> keyspace \<Rightarrow> bool" where
  "kv_wf K v \<longleftrightarrow> keys_apart K \<and> zset_ok v (index_key K) \<and> zset_ok v (expiry_key K) \<and>
     all_scores 0 (index_key K) v \<and> (\<forall>k. data_key K k \<longrightarrow> str_slot v k) \<and>
     (\<forall>m \<in> members v (index_key K) \<union> members v (expiry_key K). data_key K m)"

definition kv_complete :: "redis_kv \<Rightarrow> keyspace \<Rightarrow> bool" where
  "kv_complete K v \<longleftrightarrow> (\<forall>k. data_key K k \<and> live v k \<longrightarrow> k \<in> members v (index_key K))"

text \<open>The live data keys an index listing would miss.\<close>

definition unlisted :: "redis_kv \<Rightarrow> keyspace \<Rightarrow> string set" where
  "unlisted K v = {k. data_key K k \<and> live v k \<and> k \<notin> members v (index_key K)}"

definition kv_reclaim :: "redis_kv \<Rightarrow> keyspace \<Rightarrow> bool" where
  "kv_reclaim K v \<longleftrightarrow>
     (\<forall>k x t. data_key K k \<and> objs v k = Some (x, Some t) \<longrightarrow> k \<in> members v (expiry_key K)) \<and>
     (\<forall>m \<in> members v (index_key K). live v m \<or> m \<in> members v (expiry_key K))"

subsection \<open>The effect of a script on one key\<close>

datatype zact = ZKeep | ZAdd int | ZDel

fun zapply :: "string \<Rightarrow> string \<Rightarrow> zact \<Rightarrow> keyspace \<Rightarrow> keyspace" where
  "zapply z m ZKeep v = v"
| "zapply z m (ZAdd sc) v = zput z sc m v"
| "zapply z m ZDel v = zdel z m v"

definition touch ::
  "redis_kv \<Rightarrow> string \<Rightarrow> (robj \<times> nat option) option \<Rightarrow> zact \<Rightarrow> zact \<Rightarrow> keyspace \<Rightarrow> keyspace" where
  "touch K k e ia xa v = zapply (index_key K) k ia (zapply (expiry_key K) k xa (ks_put k e v))"

lemma zapply_other [ks_simps]:
  assumes "k \<noteq> z"
  shows "objs (zapply z m a v) k = objs v k" and "members (zapply z m a v) k = members v k"
    and "live (zapply z m a v) k = live v k" and "zset_ok (zapply z m a v) k = zset_ok v k"
    and "str_slot (zapply z m a v) k = str_slot v k" and "zset_slot (zapply z m a v) k = zset_slot v k"
  using assms by (cases a; simp add: ks_simps)+

lemma zapply_self [ks_simps]:
  assumes "zset_ok v z"
  shows "zset_ok (zapply z m a v) z"
    and "members (zapply z m a v) z =
      (case a of ZKeep \<Rightarrow> members v z | ZAdd sc \<Rightarrow> insert m (members v z) | ZDel \<Rightarrow> members v z - {m})"
  using assms by (cases a; simp add: ks_simps)+

lemma zset_update_values:
  "list_all (\<lambda>p. snd p = sc) l \<Longrightarrow> list_all (\<lambda>p. snd p = sc) (AList.update m sc l)"
  by (induction l) auto

lemma all_scores_zapply:
  assumes "all_scores sc z v" and "\<And>i. a = ZAdd i \<Longrightarrow> i = sc"
  shows "all_scores sc z (zapply z m a v)"
proof (cases a)
  case (ZAdd i)
  with assms show ?thesis
    by (auto simp: all_scores_def zput_def ks_zadd_def ks_put_def zset_update_values
        split: option.splits robj.splits)
next
  case ZDel
  with assms show ?thesis
    by (auto simp: all_scores_def zdel_def ks_zrem_def ks_put_def zset_entry_def list_all_iff
        AList.delete_eq snd_def split: option.splits robj.splits if_splits)
qed (use assms in simp)

lemma all_scores_other: "k \<noteq> z \<Longrightarrow> all_scores sc k (zapply z m a v) = all_scores sc k v"
  by (simp add: all_scores_def ks_simps)

text \<open>Updates of the two indexes commute.\<close>

lemma zapply_put: "\<exists>e. zapply z m a v = ks_put z e v"
proof -
  have keep: "\<exists>e. v = ks_put z e v" by (metis ks_put_same)
  show ?thesis
    by (cases a) (auto simp: zput_def zdel_def ks_zadd_def ks_zrem_def keep split: option.splits robj.splits)
qed

lemma zapply_at: "objs v z = objs u z \<Longrightarrow> objs (zapply z m a v) z = objs (zapply z m a u) z"
  by (cases a) (auto simp: zput_def zdel_def ks_zadd_def ks_zrem_def ks_put_def
      split: option.splits robj.splits)

lemma zapply_eq: "zapply z m a v = ks_put z (objs (zapply z m a v) z) v"
proof -
  obtain e where e: "zapply z m a v = ks_put z e v" using zapply_put by blast
  then show ?thesis by (simp add: ks_put_objs)
qed

lemma zapply_commute:
  assumes "y \<noteq> z"
  shows "zapply y m a (zapply z n b v) = zapply z n b (zapply y m a v)"
proof -
  have "zapply y m a (zapply z n b v) = ks_put y (objs (zapply y m a v) y) (zapply z n b v)"
    using zapply_eq [of y m a "zapply z n b v"] zapply_at [of "zapply z n b v" y v m a] assms
    by (simp add: zapply_other)
  moreover have "zapply z n b (zapply y m a v) = ks_put z (objs (zapply z n b v) z) (zapply y m a v)"
    using zapply_eq [of z n b "zapply y m a v"] zapply_at [of "zapply y m a v" z v n b] assms
    by (simp add: zapply_other)
  ultimately show ?thesis
    using zapply_eq [of y m a v] zapply_eq [of z n b v] ks_put_twist [OF assms] by metis
qed

lemma zput_commute: "y \<noteq> z \<Longrightarrow> zput y a m (zput z b n v) = zput z b n (zput y a m v)"
  using zapply_commute [of y z m "ZAdd a" n "ZAdd b" v] by simp

subsection \<open>What a touch keeps\<close>

lemma kv_wfD:
  assumes "kv_wf K v"
  shows "keys_apart K" and "zset_ok v (index_key K)" and "zset_ok v (expiry_key K)"
    and "all_scores 0 (index_key K) v" and "data_key K k \<Longrightarrow> str_slot v k"
    and "m \<in> members v (index_key K) \<Longrightarrow> data_key K m"
    and "m \<in> members v (expiry_key K) \<Longrightarrow> data_key K m"
    and "index_key K \<noteq> expiry_key K" and "expiry_key K \<noteq> index_key K"
  using assms by (auto simp: kv_wf_def keys_apart_def)

lemma data_key_not_index:
  assumes "kv_wf K v" and "data_key K k"
  shows "k \<noteq> index_key K" and "k \<noteq> expiry_key K"
  using assms by (auto simp: kv_wf_def keys_apart_def)

definition str_entry :: "(robj \<times> nat option) option \<Rightarrow> bool" where
  "str_entry e = (case e of Some (RZset l, t) \<Rightarrow> False | _ \<Rightarrow> True)"

definition index_act :: "zact \<Rightarrow> bool" where
  "index_act a = (case a of ZAdd sc \<Rightarrow> sc = 0 | _ \<Rightarrow> True)"

lemma touch_objs:
  assumes "kv_wf K v" and "data_key K k" and "j \<noteq> index_key K" and "j \<noteq> expiry_key K"
  shows "objs (touch K k e ia xa v) j = (if j = k then e else objs v j)"
  using assms data_key_not_index [OF assms(1,2)] by (simp add: touch_def ks_simps)

lemma touch_live:
  assumes "kv_wf K v" and "data_key K k" and "data_key K j"
  shows "live (touch K k e ia xa v) j = (if j = k then e \<noteq> None else live v j)"
  using data_key_not_index [OF assms(1,3)] by (simp add: live_def touch_objs [OF assms(1,2)])

lemma touch_members:
  assumes "kv_wf K v" and "data_key K k"
  shows "members (touch K k e ia xa v) (index_key K) = (case ia of ZKeep \<Rightarrow> members v (index_key K)
      | ZAdd sc \<Rightarrow> insert k (members v (index_key K)) | ZDel \<Rightarrow> members v (index_key K) - {k})"
    and "members (touch K k e ia xa v) (expiry_key K) = (case xa of ZKeep \<Rightarrow> members v (expiry_key K)
      | ZAdd sc \<Rightarrow> insert k (members v (expiry_key K)) | ZDel \<Rightarrow> members v (expiry_key K) - {k})"
  using kv_wfD [OF assms(1)] data_key_not_index [OF assms]
  by (simp_all add: touch_def ks_simps split: zact.splits)

lemma touch_wf:
  assumes "kv_wf K v" and "data_key K k" and "str_entry e" and "index_act ia"
  shows "kv_wf K (touch K k e ia xa v)"
proof -
  note wf = kv_wfD [OF assms(1)] and ne = data_key_not_index [OF assms(1,2)]
  have zs: "zset_ok (touch K k e ia xa v) (index_key K)" "zset_ok (touch K k e ia xa v) (expiry_key K)"
    using wf ne by (simp_all add: touch_def ks_simps)
  have "all_scores 0 (index_key K) (zapply (expiry_key K) k xa (ks_put k e v))"
    using wf ne by (simp add: all_scores_other) (simp add: all_scores_def ks_simps)
  then have sc: "all_scores 0 (index_key K) (touch K k e ia xa v)"
    unfolding touch_def by (rule all_scores_zapply) (use assms(4) in \<open>simp add: index_act_def\<close>)
  have str: "str_slot (touch K k e ia xa v) j" if "data_key K j" for j
    using touch_objs [OF assms(1,2), of j] data_key_not_index [OF assms(1) that] wf(5) [OF that] assms(3)
    by (auto simp: str_slot_def str_entry_def)
  have mem: "data_key K m"
    if "m \<in> members (touch K k e ia xa v) (index_key K) \<union> members (touch K k e ia xa v) (expiry_key K)" for m
    using that assms(2) wf(6,7)
    by (auto simp: touch_members [OF assms(1,2)] split: zact.splits)
  show ?thesis
    unfolding kv_wf_def using wf(1) zs sc str mem by blast
qed

lemma kv_complete_unlisted: "kv_complete K v \<longleftrightarrow> unlisted K v = {}"
  by (auto simp: kv_complete_def unlisted_def)

lemma touch_unlisted:
  assumes "kv_wf K v" and "data_key K k"
    and "e = None \<or> (\<exists>sc. ia = ZAdd sc) \<or> ia = ZKeep \<and> live v k"
  shows "unlisted K (touch K k e ia xa v) \<subseteq> unlisted K v"
  using assms unfolding unlisted_def
  by (auto simp: touch_members [OF assms(1,2)] touch_live [OF assms(1,2)]
      split: zact.splits if_splits)

lemma touch_reclaim:
  assumes "kv_wf K v" and "data_key K k" and "kv_reclaim K v"
    and ttl: "\<And>x t. e = Some (x, Some t) \<Longrightarrow> (\<exists>sc. xa = ZAdd sc) \<or> xa = ZKeep \<and> k \<in> members v (expiry_key K)"
    and gone: "e = None \<Longrightarrow> ia = ZDel"
  shows "kv_reclaim K (touch K k e ia xa v)"
proof -
  let ?v = "touch K k e ia xa v"
  have 1: "j \<in> members ?v (expiry_key K)" if "data_key K j" "objs ?v j = Some (x, Some t)" for j x t
    using that assms(3) ttl data_key_not_index [OF assms(1) that(1)]
    by (auto simp: touch_objs [OF assms(1,2)] touch_members [OF assms(1,2)] kv_reclaim_def
        split: zact.splits if_splits)
  have 2: "live ?v m \<or> m \<in> members ?v (expiry_key K)" if "m \<in> members ?v (index_key K)" for m
  proof -
    have m: "m = k \<or> m \<in> members v (index_key K)" and k: "m = k \<Longrightarrow> ia \<noteq> ZDel"
      using that by (auto simp: touch_members [OF assms(1,2)] split: zact.splits)
    then have "data_key K m" using assms(2) kv_wfD(6) [OF assms(1)] by auto
    note lm = touch_live [OF assms(1,2) this]
    show ?thesis
    proof (cases "m = k")
      case True
      with k gone have "e \<noteq> None" by blast
      with True lm show ?thesis by simp
    next
      case False
      with m lm assms(3) show ?thesis
        by (auto simp: touch_members [OF assms(1,2)] kv_reclaim_def split: zact.splits)
    qed
  qed
  show ?thesis unfolding kv_reclaim_def using 1 2 by blast
qed

text \<open>An empty keyspace satisfies all three invariants.\<close>

lemma kv_empty:
  assumes "keys_apart K" and "objs v = Map.empty"
  shows "kv_wf K v" and "kv_complete K v" and "kv_reclaim K v"
  using assms by (simp_all add: kv_wf_def kv_complete_def kv_reclaim_def zset_ok_def all_scores_def
      str_slot_def members_def zset_at_def live_def)

end
