(* ===== verification/Kv_Effects.thy ===== *)
theory Kv_Effects
  imports Kv_Index
begin

section \<open>The effect of each key/value script\<close>

text \<open>
  Each script of \<open>Kv_Scripts\<close> run on a keyspace that satisfies \<^const>\<open>kv_wf\<close>: its reply
  and its effect, as a \<^const>\<open>touch\<close> of the data key. The contract that follows, that the
  indexes stay well-formed, complete and reclaimable, is stated once as the locales
  \<open>index_keeper\<close> and \<open>index_reclaimer\<close> and interpreted for every script.
\<close>

definition counter_at :: "keyspace \<Rightarrow> string \<Rightarrow> (int \<times> nat option) option" where
  "counter_at v k = (case objs v k of None \<Rightarrow> Some (0, None)
     | Some (RStr x, t) \<Rightarrow> map_option (\<lambda>c. (c, t)) (parse_i64 x)
     | Some (RZset l, t) \<Rightarrow> None)"

definition px_of :: "int \<Rightarrow> nat option" where
  "px_of ttl = (if 0 < ttl then Some (nat ttl) else None)"

definition expiry_act :: "int \<Rightarrow> int \<Rightarrow> zact \<Rightarrow> zact" where
  "expiry_act now ttl a = (if 0 < ttl then ZAdd (dbl (dbl now + ttl)) else a)"

abbreviation touched :: "redis_kv \<Rightarrow> string \<Rightarrow> (robj \<times> nat option) option \<Rightarrow> zact \<Rightarrow> keyspace \<Rightarrow> keyspace" where
  "touched K k e xa v \<equiv> touch K k e (ZAdd 0) xa v"

subsection \<open>Index updates at the end of a script\<close>

lemma index_tail:
  assumes "kv_wf K v" and "data_key K k"
  shows "cbind (if 0 < ttl then ks_zadd (expiry_key K) sc k else ks_zrem (expiry_key K) k)
      (\<lambda>_. cbind (ks_zadd (index_key K) 0 k) (\<lambda>_. ret r)) (ks_put k e v) =
    (Inr r, touched K k e (if 0 < ttl then ZAdd sc else ZDel) v)"
  using kv_wfD [OF assms(1)] data_key_not_index [OF assms]
  by (simp add: touch_def cbind_zadd cbind_zrem ks_simps ret_def)

lemma drop_tail:
  assumes "kv_wf K v" and "data_key K k"
  shows "cbind (ks_zrem (index_key K) k) (\<lambda>_. cbind (ks_zrem (expiry_key K) k) (\<lambda>_. ret r)) (ks_put k e v) =
    (Inr r, touch K k e ZDel ZDel v)"
  using kv_wfD [OF assms(1)] data_key_not_index [OF assms]
    zapply_commute [of "index_key K" "expiry_key K" k ZDel k ZDel]
  by (simp add: touch_def cbind_zrem ks_simps ret_def)

subsection \<open>Effects\<close>

lemma set_lua_ks:
  assumes "kv_wf K v" and "data_key K k"
  shows "set_lua (ks_ops R) k (index_key K) (expiry_key K) x ttl now nx v =
    (if nx = ''1'' \<and> live v k then (Inr 0, v)
     else (Inr 1, touched K k (Some (RStr x, px_of (dbl ttl))) (expiry_act now (dbl ttl) ZDel) v))"
  using index_tail [OF assms, where ttl = "dbl ttl" and r = 1]
  by (auto simp: set_lua_def Let_def cbind_def ks_set_def live_def ret_def px_of_def expiry_act_def
      split: if_splits)

lemma del_lua_ks:
  assumes "kv_wf K v" and "data_key K k"
  shows "del_lua (ks_ops R) k (index_key K) (expiry_key K) v =
    (Inr (if live v k then 1 else 0), touch K k None ZDel ZDel v)"
  using drop_tail [OF assms, of _ None]
  by (auto simp: del_lua_def cbind_def [of "ks_del k"] ks_del_def live_def)

lemma expire_lua_ks:
  assumes "kv_wf K v" and "data_key K k"
  shows "expire_lua (ks_ops R) k (index_key K) (expiry_key K) ttl now v =
    (case objs v k of None \<Rightarrow> (Inr 0, v)
     | Some (x, t) \<Rightarrow> (Inr 1, touched K k (Some (x, px_of (dbl ttl))) (expiry_act now (dbl ttl) ZDel) v))"
proof (cases "objs v k")
  case None
  then show ?thesis by (simp add: expire_lua_def cbind_def ks_exists_def ret_def)
next
  case (Some e)
  obtain x t where e: "e = (x, t)" by fastforce
  have per: "ks_persist k v = (Inr (if t = None then 0 else 1), ks_put k (Some (x, None)) v)"
    using Some e ks_put_same [of k v] by (cases t) (simp_all add: ks_persist_def)
  note tail = index_tail [OF assms, where ttl = "dbl ttl" and r = 1]
  show ?thesis
  proof (cases "0 < dbl ttl")
    case True
    with tail [where e = "Some (x, Some (nat (dbl ttl)))"] Some e show ?thesis
      by (simp add: expire_lua_def cbind_def [of "ks_exists k"] ks_exists_def Let_def px_of_def
          expiry_act_def cbind_assoc cbind_def [of "ks_pexpire k (dbl ttl)"] ks_pexpire_def)
  next
    case False
    with tail [where e = "Some (x, None)"] Some e per show ?thesis
      by (simp add: expire_lua_def cbind_def [of "ks_exists k"] ks_exists_def Let_def px_of_def
          expiry_act_def cbind_assoc cbind_def [of "ks_persist k"])
  qed
qed

lemma incrby_ks:
  assumes "str_slot v k"
  shows "ks_incrby k (dec d) v =
    (if \<not> in_i64 d then (Inl not_an_integer, v)
     else case counter_at v k of None \<Rightarrow> (Inl not_an_integer, v)
     | Some (c, t) \<Rightarrow>
         if in_i64 (c + d) then (Inr (c + d), ks_put k (Some (RStr (dec (c + d)), t)) v)
         else (Inl would_overflow, v))"
  using assms
  by (auto simp: ks_incrby_def counter_at_def str_slot_def split: option.splits robj.splits)

lemma incr_finish_ks:
  assumes "kv_wf K v" and "data_key K k"
  shows "incr_finish (ks_ops R) k (index_key K) (expiry_key K) ttl now (Inr n) (ks_put k (Some (x, t)) v) =
    (Inr (lua_reply R n), touched K k (Some (x, if 0 < dbl ttl then px_of (dbl ttl) else t))
       (expiry_act now (dbl ttl) ZKeep) v)"
  using kv_wfD [OF assms(1)] data_key_not_index [OF assms]
  by (simp add: incr_finish_def Let_def px_of_def expiry_act_def touch_def cbind_def [of "ks_pexpire k (dbl ttl)"]
      ks_pexpire_def ks_put_objs cbind_zadd ks_simps ret_def)

lemma incr_lua_ks:
  assumes "kv_wf K v" and "data_key K k"
  shows "incr_lua (ks_ops R) k (index_key K) (expiry_key K) delta ttl now v =
    (if \<not> in_i64 delta then (Inl (incr_precondition @ '': '' @ not_an_integer), v)
     else case counter_at v k of None \<Rightarrow> (Inl (incr_precondition @ '': '' @ not_an_integer), v)
     | Some (c, t) \<Rightarrow>
         if in_i64 (c + delta)
         then (Inr (lua_reply R (c + delta)), touched K k
                (Some (RStr (dec (c + delta)), if 0 < dbl ttl then px_of (dbl ttl) else t))
                (expiry_act now (dbl ttl) ZKeep) v)
         else (Inl (incr_precondition @ '': '' @ would_overflow), v))"
  using incrby_ks [OF kv_wfD(5) [OF assms], of delta]
  by (auto simp: incr_lua_def cbind_def pcall_def incr_finish_ks [OF assms] split: option.splits)
     (simp_all add: incr_finish_def raise_def)

lemma incr_floor_lua_ks:
  assumes "kv_wf K v" and "data_key K k" and "in_i64 (c + inc)" and "in_i64 inc"
    and "counter_at v k = Some (c, t)" and num: "\<And>i. in_i64 i \<Longrightarrow> lua_tonumber R (dec i) = Some (LInt (dbl i))"
    and "\<bar>c\<bar> < exact" and "\<bar>floor\<bar> < exact" and "\<bar>delta\<bar> < exact"
    and inc: "inc = dbl (dbl (max c floor - c) + delta)"
  shows "incr_floor_lua (ks_ops R) k (index_key K) (expiry_key K) delta ttl now floor v =
    (Inr (lua_reply R (c + inc)), touched K k
       (Some (RStr (dec (c + inc)), if 0 < dbl ttl then px_of (dbl ttl) else t))
       (expiry_act now (dbl ttl) ZKeep) v)"
proof -
  have small: "dbl c = c" "dbl floor = floor" "dbl delta = delta"
    using assms(7-9) by (simp_all add: exact_def)
  have "in_i64 c" using assms(7) by (auto simp: in_i64_def exact_def)
  then have cur: "(case fst (ks_get k v) of Inr None \<Rightarrow> Some (LInt 0) | Inr (Some x) \<Rightarrow> lua_tonumber R x
      | Inl e \<Rightarrow> None) = Some (LInt c)"
    using assms(5) small(1)
    by (auto simp: counter_at_def ks_get_def parse_i64_Some num split: option.splits robj.splits)
  obtain raw where raw: "ks_get k v = (Inr raw, v)"
    and rawc: "(case raw of None \<Rightarrow> Some (LInt 0) | Some x \<Rightarrow> lua_tonumber R x) = Some (LInt c)"
    using cur ks_get_str [OF kv_wfD(5) [OF assms(1,2)]] by auto
  have "incr_floor_lua (ks_ops R) k (index_key K) (expiry_key K) delta ttl now floor v =
    cbind (pcall (ks_incrby k (dec inc))) (incr_finish (ks_ops R) k (index_key K) (expiry_key K) ttl now) v"
    unfolding incr_floor_lua_def ks_ops_simps
    by (subst cbind_step [where m = "ks_get k" and s = v, OF raw])
       (use assms(7-9) in \<open>simp add: Let_def rawc small inc max_def\<close>)
  moreover have "ks_incrby k (dec inc) v = (Inr (c + inc), ks_put k (Some (RStr (dec (c + inc)), t)) v)"
    using incrby_ks [OF kv_wfD(5) [OF assms(1,2)], of inc] assms(3-5) by simp
  ultimately show ?thesis
    by (simp add: cbind_def pcall_def incr_finish_ks [OF assms(1,2)])
qed

lemma prune_one_ks:
  assumes "kv_wf K v" and "data_key K k"
  shows "prune_one (ks_ops R) (index_key K) (expiry_key K) k v =
    (if live v k then (Inr 0, v) else (Inr 1, touch K k None ZDel ZDel v))"
  using drop_tail [OF assms, of 1 "objs v k"]
  by (auto simp: prune_one_def cbind_def [of "ks_exists k"] ks_exists_def live_def ret_def ks_put_id)

lemma sweep_one_ks:
  assumes "kv_wf K v" and "data_key K k"
  shows "sweep_one (ks_ops R) (index_key K) (expiry_key K) now k v =
    (case objs v k of None \<Rightarrow> (Inr 1, touch K k None ZDel ZDel v)
     | Some (x, None) \<Rightarrow> (Inr 0, touch K k (objs v k) ZKeep ZDel v)
     | Some (x, Some t) \<Rightarrow> (Inr 0, touch K k (objs v k) ZKeep (ZAdd (dbl (now + dbl (int t)))) v))"
  using drop_tail [OF assms, of 1 "objs v k"] kv_wfD [OF assms(1)]
  by (auto simp: sweep_one_def cbind_def [of "ks_pttl k"] ks_pttl_def cbind_zrem cbind_zadd ret_def
      touch_def ks_put_id split: option.splits)

lemma backfill_one_ks:
  assumes "kv_wf K v" and "data_key K k"
  shows "backfill_one (ks_ops R) (index_key K) (expiry_key K) now k v =
    (case objs v k of None \<Rightarrow> (Inr 0, v)
     | Some (x, t) \<Rightarrow> (Inr 1, touched K k (objs v k)
         (case t of Some r \<Rightarrow> if 0 < r then ZAdd (dbl (now + dbl (int r))) else ZKeep | None \<Rightarrow> ZKeep) v))"
  using kv_wfD [OF assms(1)]
    zput_commute [of "expiry_key K" "index_key K" _ k 0 k v]
  by (auto simp: backfill_one_def cbind_def [of "ks_pttl k"] ks_pttl_def cbind_zadd ks_simps ret_def
      touch_def ks_put_id split: option.splits)

subsection \<open>When the counter scripts refuse\<close>

text \<open>
  A stored value that is no canonical integer, or an operand at or past \<open>2 ^ 53\<close>: the script
  replies its precondition error and changes nothing, whatever the interpreter makes of the text.
\<close>

lemma incr_refused_ks:
  assumes "str_slot v k" and "fst (ks_incrby k by v) = Inl e"
  shows "cbind (pcall (ks_incrby k by)) (incr_finish (ks_ops R) k idx exp ttl now) v =
    (Inl (incr_precondition @ '': '' @ e), v)"
proof -
  have "ks_incrby k by v = (Inl e, v)"
    using assms by (auto simp: ks_incrby_def split: option.splits robj.splits if_splits)
  then show ?thesis by (simp add: cbind_def pcall_def incr_finish_def raise_def)
qed

lemma incr_floor_nonint_ks:
  assumes "str_slot v k" and "counter_at v k = None"
  shows "\<exists>e. incr_floor_lua (ks_ops R) k idx exp delta ttl now floor v =
    (Inl (incr_precondition @ '': '' @ e), v)"
proof -
  obtain x where raw: "ks_get k v = (Inr (Some x), v)"
    using assms by (auto simp: counter_at_def str_slot_def ks_get_def split: option.splits robj.splits)
  have no: "fst (ks_incrby k by v) = Inl not_an_integer" for "by"
    using assms by (auto simp: counter_at_def str_slot_def ks_incrby_def split: option.splits robj.splits)
  show ?thesis
    unfolding incr_floor_lua_def ks_ops_simps
    by (subst cbind_step [where m = "ks_get k" and s = v, OF raw])
       (auto simp: Let_def raise_def incr_refused_ks [OF assms(1) no] split: option.splits)
qed

lemma incr_floor_beyond_ks:
  assumes "str_slot v k" and "counter_at v k = Some (c, t)"
    and num: "\<And>i. in_i64 i \<Longrightarrow> lua_tonumber R (dec i) = Some (LInt (dbl i))"
    and beyond: "exact \<le> \<bar>c\<bar> \<or> exact \<le> \<bar>floor\<bar> \<or> exact \<le> \<bar>delta\<bar>"
  shows "incr_floor_lua (ks_ops R) k idx exp delta ttl now floor v =
    (Inl (incr_precondition @ '': incr_floor operand beyond 2^53''), v)"
proof -
  have ge: "exact \<le> \<bar>dbl i\<bar> \<longleftrightarrow> exact \<le> \<bar>i\<bar>" for i
    using dbl_abs_ge [of i] by (simp add: exact_def)
  have "dbl 0 = 0" by simp
  then obtain raw where raw: "ks_get k v = (Inr raw, v)"
    and rawc: "(case raw of None \<Rightarrow> Some (LInt 0) | Some x \<Rightarrow> lua_tonumber R x) = Some (LInt (dbl c))"
    using assms(1,2) num
    by (auto simp: counter_at_def str_slot_def ks_get_def parse_i64_Some split: option.splits robj.splits)
  show ?thesis
    unfolding incr_floor_lua_def ks_ops_simps
    by (subst cbind_step [where m = "ks_get k" and s = v, OF raw])
       (use beyond ge in \<open>auto simp: Let_def rawc raise_def\<close>)
qed

text \<open>Whatever a counter script does, it leaves the keyspace alone or stores one counter.\<close>

definition counter_left :: "redis_kv \<Rightarrow> string \<Rightarrow> int \<Rightarrow> int \<Rightarrow> keyspace \<Rightarrow> keyspace \<Rightarrow> bool" where
  "counter_left K k ttl now v w \<longleftrightarrow> w = v \<or> (\<exists>n c t. counter_at v k = Some (c, t) \<and>
     w = touched K k (Some (RStr (dec n), if 0 < ttl then px_of ttl else t)) (expiry_act now ttl ZKeep) v)"

lemma counter_left_same [simp]: "counter_left K k ttl now v v"
  by (simp add: counter_left_def)

lemma incrby_left:
  assumes "kv_wf K v" and "data_key K k"
  shows "counter_left K k (dbl ttl) now v
    (snd (cbind (pcall (ks_incrby k by)) (incr_finish (ks_ops R) k (index_key K) (expiry_key K) ttl now) v))"
proof -
  have str: "str_slot v k" using assms by (rule kv_wfD)
  show ?thesis
  proof (cases "fst (ks_incrby k by v)")
    case (Inl e)
    then show ?thesis by (simp add: incr_refused_ks [OF str Inl])
  next
    case (Inr n)
    then obtain c t where ct: "counter_at v k = Some (c, t)"
      and run: "ks_incrby k by v = (Inr n, ks_put k (Some (RStr (dec n), t)) v)"
      using str by (auto simp: ks_incrby_def counter_at_def str_slot_def split: option.splits robj.splits if_splits)
    have "snd (cbind (pcall (ks_incrby k by)) (incr_finish (ks_ops R) k (index_key K) (expiry_key K) ttl now) v) =
      touched K k (Some (RStr (dec n), if 0 < dbl ttl then px_of (dbl ttl) else t)) (expiry_act now (dbl ttl) ZKeep) v"
      by (simp add: cbind_def pcall_def run incr_finish_ks [OF assms])
    with ct show ?thesis unfolding counter_left_def by blast
  qed
qed

lemma incr_left:
  "kv_wf K v \<Longrightarrow> data_key K k \<Longrightarrow> counter_left K k (dbl ttl) now v
    (snd (incr_lua (ks_ops R) k (index_key K) (expiry_key K) delta ttl now v))"
  unfolding incr_lua_def ks_ops_simps by (rule incrby_left)

lemma incr_floor_left:
  assumes "kv_wf K v" and "data_key K k"
  shows "counter_left K k (dbl ttl) now v
    (snd (incr_floor_lua (ks_ops R) k (index_key K) (expiry_key K) delta ttl now floor v))"
proof -
  obtain raw where raw: "ks_get k v = (Inr raw, v)" using ks_get_str [OF kv_wfD(5) [OF assms]] by simp
  show ?thesis
    unfolding incr_floor_lua_def ks_ops_simps
    by (subst cbind_step [where m = "ks_get k" and s = v, OF raw])
       (simp add: Let_def raise_def incrby_left [OF assms] split: option.split)
qed

end
