(* ===== verification/Kv_Contract.thy ===== *)
theory Kv_Contract
  imports Kv_Effects
begin

section \<open>The contract every key/value script keeps\<close>

text \<open>
  \<open>index_keeper\<close>: an operation on the keyspace that keeps the indexes well-formed and leaves no live
  key unlisted that was not so before, hence a complete index complete.
  \<open>index_reclaimer\<close>: one that also keeps every dead entry findable by a sweep. The interpretations
  discharge the laws for the scripts; \<open>BACKFILL_LUA\<close> is a keeper only.
\<close>

locale index_keeper =
  fixes K :: redis_kv and step :: "keyspace \<Rightarrow> keyspace"
  assumes keeps_wf: "kv_wf K v \<Longrightarrow> kv_wf K (step v)"
    and keeps_unlisted: "kv_wf K v \<Longrightarrow> unlisted K (step v) \<subseteq> unlisted K v"
begin

lemma keeps_complete: "kv_wf K v \<Longrightarrow> kv_complete K v \<Longrightarrow> kv_complete K (step v)"
  using keeps_unlisted [of v] by (auto simp: kv_complete_unlisted)

text \<open>Any number of repetitions keeps the index complete.\<close>

lemma keeps_iter:
  "kv_wf K v \<Longrightarrow> kv_complete K v \<Longrightarrow> kv_wf K ((step ^^ n) v) \<and> kv_complete K ((step ^^ n) v)"
  by (induction n) (auto intro: keeps_wf keeps_complete)

lemma never_unlists:
  assumes "kv_wf K v" and "kv_complete K v" and "data_key K k" and "live (step v) k"
  shows "k \<in> members (step v) (index_key K)"
  using assms keeps_complete [OF assms(1,2)] by (auto simp: kv_complete_def)

end

locale index_reclaimer = index_keeper +
  assumes keeps_reclaim: "kv_wf K v \<Longrightarrow> kv_reclaim K v \<Longrightarrow> kv_reclaim K (step v)"
begin

lemma dead_entry_in_expiry:
  assumes "kv_wf K v" and "kv_reclaim K v" and "m \<in> members (step v) (index_key K)"
    and "\<not> live (step v) m"
  shows "m \<in> members (step v) (expiry_key K)"
  using assms keeps_reclaim [OF assms(1,2)] by (auto simp: kv_reclaim_def)

end

subsection \<open>Building keepers\<close>

lemma str_entry_str [simp]: "str_entry (Some (RStr x, t))" "str_entry None"
  by (simp_all add: str_entry_def)

lemma index_act_simps [simp]: "index_act (ZAdd 0)" "index_act ZDel" "index_act ZKeep"
  by (simp_all add: index_act_def)

lemma str_entry_data: "kv_wf K v \<Longrightarrow> data_key K k \<Longrightarrow> str_entry (objs v k)"
  using kv_wfD(5) [of K v k] by (simp add: str_entry_def str_slot_def)

lemma str_entry_retime: "kv_wf K v \<Longrightarrow> data_key K k \<Longrightarrow> objs v k = Some (x, t) \<Longrightarrow> str_entry (Some (x, t'))"
  using str_entry_data [of K v k] by (auto simp: str_entry_def split: robj.splits)

text \<open>The steps a keeper may make: it writes, re-times, drops or re-scores one data key.\<close>

inductive kept :: "redis_kv \<Rightarrow> keyspace \<Rightarrow> keyspace \<Rightarrow> bool" for K v where
  same: "kept K v v"
| stored: "data_key K k \<Longrightarrow> str_entry (Some e) \<Longrightarrow> kept K v (touched K k (Some e) xa v)"
| dropped: "data_key K k \<Longrightarrow> kept K v (touch K k None ZDel ZDel v)"
| rescored: "data_key K k \<Longrightarrow> objs v k = Some e \<Longrightarrow> kept K v (touch K k (Some e) ZKeep xa v)"

inductive reclaimed :: "redis_kv \<Rightarrow> keyspace \<Rightarrow> keyspace \<Rightarrow> bool" for K v where
  same: "reclaimed K v v"
| stored: "data_key K k \<Longrightarrow> str_entry (Some (x, t)) \<Longrightarrow>
    t = None \<or> (\<exists>sc. xa = ZAdd sc) \<or> xa = ZKeep \<and> (\<exists>y r. objs v k = Some (y, Some r)) \<Longrightarrow>
    reclaimed K v (touched K k (Some (x, t)) xa v)"
| dropped: "data_key K k \<Longrightarrow> reclaimed K v (touch K k None ZDel ZDel v)"
| rescored: "data_key K k \<Longrightarrow> objs v k = Some (x, t) \<Longrightarrow> t = None \<or> (\<exists>sc. xa = ZAdd sc) \<Longrightarrow>
    reclaimed K v (touch K k (Some (x, t)) ZKeep xa v)"

lemma reclaimed_kept: "reclaimed K v w \<Longrightarrow> kept K v w"
  by (induction rule: reclaimed.induct) (auto intro: kept.intros)

lemma kept_wf: "kept K v w \<Longrightarrow> kv_wf K v \<Longrightarrow> kv_wf K w"
  by (induction rule: kept.induct) (auto intro!: touch_wf, metis str_entry_data)

lemma kept_unlisted: "kept K v w \<Longrightarrow> kv_wf K v \<Longrightarrow> unlisted K w \<subseteq> unlisted K v"
proof (induction rule: kept.induct)
  case (stored k e xa)
  then show ?case by (intro touch_unlisted) auto
next
  case (dropped k)
  then show ?case by (intro touch_unlisted) auto
next
  case (rescored k e xa)
  then show ?case by (intro touch_unlisted) (auto simp: live_def)
qed simp

lemma reclaimed_reclaim:
  assumes "reclaimed K v w" and "kv_wf K v" and "kv_reclaim K v"
  shows "kv_reclaim K w"
  using assms
proof (induction rule: reclaimed.induct)
  case (stored k x t xa)
  then have "k \<in> members v (expiry_key K)" if "objs v k = Some (y, Some r)" for y r
    using that by (auto simp: kv_reclaim_def)
  with stored show ?case by (intro touch_reclaim) auto
qed (auto intro!: touch_reclaim)

lemma keeperI: "(\<And>v. kv_wf K v \<Longrightarrow> kept K v (step v)) \<Longrightarrow> index_keeper K step"
  by unfold_locales (auto intro: kept_wf kept_unlisted [THEN subsetD])

lemma reclaimerI: "(\<And>v. kv_wf K v \<Longrightarrow> reclaimed K v (step v)) \<Longrightarrow> index_reclaimer K step"
  by unfold_locales (auto intro: kept_wf reclaimed_kept reclaimed_reclaim dest: kept_unlisted [OF reclaimed_kept])

text \<open>A loop over keys keeps what its body keeps.\<close>

lemma for_count_inv:
  "(\<And>x v. P v \<Longrightarrow> x \<in> set xs \<Longrightarrow> P (snd (body x v))) \<Longrightarrow> P v \<Longrightarrow> P (snd (for_count body xs n v))"
proof (induction xs arbitrary: n v)
  case (Cons x xs)
  then have "P (snd (body x v))" by simp
  with Cons.IH Cons.prems(1) show ?case
    by (auto simp: cbind_def split: prod.splits sum.splits)
qed (simp add: ret_def)

lemma loop_keeper:
  assumes "\<And>v k. kv_wf K v \<Longrightarrow> data_key K k \<Longrightarrow> kept K v (snd (body k v))"
  shows "index_keeper K (\<lambda>v. snd (for_count body (map (full_key K) ks) n v))"
proof (unfold_locales, goal_cases)
  case (1 v)
  then show ?case
    by (intro for_count_inv [where P = "kv_wf K"]) (auto intro: kept_wf assms)
next
  case (2 v)
  have "kv_wf K (snd (for_count body (map (full_key K) ks) n v)) \<and>
        unlisted K (snd (for_count body (map (full_key K) ks) n v)) \<subseteq> unlisted K v"
    by (rule for_count_inv [where P = "\<lambda>u. kv_wf K u \<and> unlisted K u \<subseteq> unlisted K v"])
       (use 2 in \<open>auto intro: kept_wf assms dest!: kept_unlisted [OF assms, THEN subsetD, rotated -1]\<close>)
  then show ?case ..
qed

lemma loop_reclaimer:
  assumes "\<And>v k. kv_wf K v \<Longrightarrow> data_key K k \<Longrightarrow> reclaimed K v (snd (body k v))"
  shows "index_reclaimer K (\<lambda>v. snd (for_count body (map (full_key K) ks) n v))"
proof (intro index_reclaimer.intro index_reclaimer_axioms.intro loop_keeper reclaimed_kept assms)
  fix v
  assume v: "kv_wf K v" "kv_reclaim K v"
  have "kv_wf K (snd (for_count body (map (full_key K) ks) n v)) \<and>
        kv_reclaim K (snd (for_count body (map (full_key K) ks) n v))"
    by (rule for_count_inv [where P = "\<lambda>u. kv_wf K u \<and> kv_reclaim K u"])
       (use v in \<open>auto intro: kept_wf reclaimed_kept reclaimed_reclaim assms\<close>)
  then show "kv_reclaim K (snd (for_count body (map (full_key K) ks) n v))" ..
qed

subsection \<open>The scripts\<close>

interpretation set_script: index_reclaimer K
  "\<lambda>v. snd (set_lua (ks_ops R) (full_key K key) (index_key K) (expiry_key K) x ttl now nx v)"
  for K R key x ttl now nx
  by (rule reclaimerI)
     (auto simp: set_lua_ks px_of_def expiry_act_def intro: reclaimed.intros)

interpretation del_script: index_reclaimer K
  "\<lambda>v. snd (del_lua (ks_ops R) (full_key K key) (index_key K) (expiry_key K) v)"
  for K R key
  by (rule reclaimerI) (auto simp: del_lua_ks intro: reclaimed.intros)

interpretation expire_script: index_reclaimer K
  "\<lambda>v. snd (expire_lua (ks_ops R) (full_key K key) (index_key K) (expiry_key K) ttl now v)"
  for K R key ttl now
  by (rule reclaimerI)
     (auto simp: expire_lua_ks px_of_def expiry_act_def intro: reclaimed.intros
        intro!: reclaimed.stored str_entry_retime split: option.splits)

lemma counter_ttl: "counter_at v k = Some (c, Some t) \<Longrightarrow> \<exists>y r. objs v k = Some (y, Some r)"
  by (auto simp: counter_at_def split: option.splits robj.splits)

lemma counter_left_reclaimed:
  assumes "counter_left K k ttl now v w" and "data_key K k"
  shows "reclaimed K v w"
proof -
  have "reclaimed K v (touched K k (Some (RStr x, if 0 < ttl then px_of ttl else t)) (expiry_act now ttl ZKeep) v)"
    if "counter_at v k = Some (c, t)" for x c t
    using that assms(2) counter_ttl
    by (cases t) (auto simp: px_of_def expiry_act_def intro!: reclaimed.stored)
  with assms(1) show ?thesis by (auto simp only: counter_left_def intro: reclaimed.same)
qed

interpretation incr_script: index_reclaimer K
  "\<lambda>v. snd (incr_lua (ks_ops R) (full_key K key) (index_key K) (expiry_key K) delta ttl now v)"
  for K R key delta ttl now
  by (blast intro: reclaimerI counter_left_reclaimed incr_left)

interpretation incr_floor_script: index_reclaimer K
  "\<lambda>v. snd (incr_floor_lua (ks_ops R) (full_key K key) (index_key K) (expiry_key K) delta ttl now floor v)"
  for K R key delta ttl now floor
  by (blast intro: reclaimerI counter_left_reclaimed incr_floor_left)

interpretation prune_script: index_reclaimer K
  "\<lambda>v. snd (prune_lua (ks_ops R) (index_key K) (expiry_key K) (map (full_key K) ks) v)"
  for K R ks
  unfolding prune_lua_def
  by (rule loop_reclaimer) (auto simp: prune_one_ks intro: reclaimed.intros)

interpretation sweep_script: index_reclaimer K
  "\<lambda>v. snd (sweep_lua (ks_ops R) (index_key K) (expiry_key K) now (map (full_key K) ks) v)"
  for K R now ks
  unfolding sweep_lua_def
  by (rule loop_reclaimer) (auto simp: sweep_one_ks intro!: reclaimed.intros split: option.splits)

interpretation backfill_script: index_keeper K
  "\<lambda>v. snd (backfill_lua (ks_ops R) (index_key K) (expiry_key K) now (map (full_key K) ks) v)"
  for K R now ks
  unfolding backfill_lua_def
  by (rule loop_keeper)
     (auto simp: backfill_one_ks intro!: kept.intros str_entry_retime split: option.splits)

interpretation time_step: index_reclaimer K "ks_elapse d"
  for K d
proof (unfold_locales, goal_cases)
  case (1 v)
  then show ?case
    by (auto simp: kv_wf_def ks_simps all_scores_def)
next
  case (2 v)
  then show ?case
    by (auto simp: unlisted_def kv_wf_def ks_simps)
next
  case (3 v)
  then show ?case
    unfolding kv_reclaim_def kv_wf_def
    by (simp add: ks_simps) (metis UnI1 elapse_dies elapse_ttl)
qed

end
