(* ===== verification/Kv_Store.thy ===== *)
theory Kv_Store
  imports Kv_Contract
begin

section \<open>The state store's operations\<close>

text \<open>
  The methods of \<open>RedisKv\<close> and its \<open>KeyValueStore\<close> implementation (\<open>state/kv.rs\<close>), as client
  operations on a world: each script is one atomic execution in one round trip, the commands of a
  pipeline are executions of their own within a round trip, and a failed round trip is the
  \<^typ>\<open>cluster_error\<close> the source makes of it. A \<open>Duration\<close> is a number of nanoseconds; sizes and
  limits (\<open>usize\<close>) are 64-bit words. The text form of a scan cursor is what \<open>serde_json\<close> makes of
  it, a parameter \<open>J\<close>.
\<close>

record entry =
  bytes :: string
  expires_at :: "int option"

record kv_page =
  entries :: "(string \<times> entry) list"
  next_page :: "string option"

record scan_cursor =
  scan :: nat
  pending :: "string list"
  done_pass :: bool

record cursor_json =
  to_string :: "scan_cursor \<Rightarrow> string + string"
  from_str :: "string \<Rightarrow> scan_cursor option"

definition default_cursor :: scan_cursor where
  "default_cursor = \<lparr>scan = 0, pending = [], done_pass = False\<rparr>"

definition SCAN_COUNT :: nat where
  "SCAN_COUNT = 1000"

definition SWEEP_BATCH :: nat where
  "SWEEP_BATCH = 1000"

definition redis_err :: "string \<Rightarrow> cluster_error" where
  "redis_err e = BackendUnavailable (''redis: '' @ e)"

definition incr_err :: "string \<Rightarrow> string \<Rightarrow> string \<Rightarrow> cluster_error" where
  "incr_err op key msg =
     (if sublist incr_precondition msg
      then Precondition (''redis '' @ op @ '' `'' @ key @ ''`: '' @ msg)
      else redis_err msg)"

definition now_ms :: "'s world \<Rightarrow> int" where
  "now_ms w = clamp_u64 (wall w)"

text \<open>Milliseconds of a duration, at least 1, saturating at u64; 0 for no TTL.\<close>

definition ttl_ms :: "nat option \<Rightarrow> int" where
  "ttl_ms ttl = (case ttl of None \<Rightarrow> 0
     | Some ns \<Rightarrow> max 1 (min (int (ns div 1000000)) (2 ^ 64 - 1)))"

text \<open>One script or command, sent in a round trip of its own.\<close>

definition invoke :: "'s redis \<Rightarrow> ('s, 'a) cmd \<Rightarrow> ('s world, 'a) cmd" where
  "invoke R m = round_trip (show_error R) (exec m)"

text \<open>The client library's conversion of a reply to \<open>Vec<String>\<close>.\<close>

definition as_strings :: "'s redis \<Rightarrow> string list \<Rightarrow> ('w, string list) cmd" where
  "as_strings R ks = (if list_all valid_utf8 ks then ret ks else raise (utf8_error R))"

subsection \<open>The \<open>KeyValueStore\<close> methods on single keys\<close>

definition kv_get :: "'s redis \<Rightarrow> redis_kv \<Rightarrow> string \<Rightarrow> ('s, entry option) op" where
  "kv_get R K key =
     (let full = full_key K key in
      cbind (map_err redis_err (round_trip (show_error R)
              (pipe2 (exec (redis_get R full)) (exec (redis_pttl R full)))))
        (\<lambda>(b, pttl).
          case b of None \<Rightarrow> ret None
          | Some x \<Rightarrow>
              if pttl = -2 then ret None
              else reading wall (\<lambda>now.
                ret (Some \<lparr>bytes = x, expires_at = (if 0 \<le> pttl then Some (now + pttl) else None)\<rparr>))))"

definition kv_put :: "'s redis \<Rightarrow> redis_kv \<Rightarrow> string \<Rightarrow> string \<Rightarrow> nat option \<Rightarrow> ('s, unit) op" where
  "kv_put R K key value ttl =
     reading now_ms (\<lambda>now.
       cbind (map_err redis_err (invoke R
               (set_lua R (full_key K key) (index_key K) (expiry_key K) value (ttl_ms ttl) now ''0'')))
         (\<lambda>_. ret ()))"

definition kv_put_if_absent ::
  "'s redis \<Rightarrow> redis_kv \<Rightarrow> string \<Rightarrow> string \<Rightarrow> nat option \<Rightarrow> ('s, bool) op" where
  "kv_put_if_absent R K key value ttl =
     reading now_ms (\<lambda>now.
       cbind (map_err redis_err (invoke R
               (set_lua R (full_key K key) (index_key K) (expiry_key K) value (ttl_ms ttl) now ''1'')))
         (\<lambda>stored. ret (stored = 1)))"

definition kv_delete :: "'s redis \<Rightarrow> redis_kv \<Rightarrow> string \<Rightarrow> ('s, bool) op" where
  "kv_delete R K key =
     cbind (map_err redis_err (invoke R (del_lua R (full_key K key) (index_key K) (expiry_key K))))
       (\<lambda>n. ret (0 < n))"

definition kv_expire :: "'s redis \<Rightarrow> redis_kv \<Rightarrow> string \<Rightarrow> nat option \<Rightarrow> ('s, bool) op" where
  "kv_expire R K key ttl =
     reading now_ms (\<lambda>now.
       cbind (map_err redis_err (invoke R
               (expire_lua R (full_key K key) (index_key K) (expiry_key K) (ttl_ms ttl) now)))
         (\<lambda>updated. ret (updated = 1)))"

definition kv_incr :: "'s redis \<Rightarrow> redis_kv \<Rightarrow> string \<Rightarrow> int \<Rightarrow> nat option \<Rightarrow> ('s, int) op" where
  "kv_incr R K key delta ttl =
     reading now_ms (\<lambda>now. map_err (incr_err ''incr'' key) (invoke R
       (incr_lua R (full_key K key) (index_key K) (expiry_key K) delta (ttl_ms ttl) now)))"

definition kv_incr_floor :: "'s redis \<Rightarrow> redis_kv \<Rightarrow> string \<Rightarrow> int \<Rightarrow> int \<Rightarrow> nat option \<Rightarrow> ('s, int) op" where
  "kv_incr_floor R K key delta floor ttl =
     reading now_ms (\<lambda>now. map_err (incr_err ''incr_floor'' key) (invoke R
       (incr_floor_lua R (full_key K key) (index_key K) (expiry_key K) delta (ttl_ms ttl) now floor)))"

subsection \<open>Listings\<close>

text \<open>What \<open>fetch_entries\<close> makes of the two replies for one key; \<^const>\<open>None\<close> is a gone key.\<close>

definition entry_of :: "int \<Rightarrow> string option \<Rightarrow> int \<Rightarrow> entry option" where
  "entry_of now b pttl =
     (case b of None \<Rightarrow> None
      | Some x \<Rightarrow>
          if pttl = -1 then Some \<lparr>bytes = x, expires_at = None\<rparr>
          else if 0 \<le> pttl then Some \<lparr>bytes = x, expires_at = Some (now + pttl)\<rparr>
          else None)"

text \<open>The loop over the keys and their replies: the entries found, and the gone keys.\<close>

fun sift :: "redis_kv \<Rightarrow> int \<Rightarrow> (string \<times> string option \<times> int) list \<Rightarrow> (string \<times> entry) list \<times> string list" where
  "sift K now [] = ([], [])"
| "sift K now ((k, b, pttl) # rest) =
     (let (out, gone) = sift K now rest in
      case entry_of now b pttl of Some e \<Rightarrow> ((logical_key K k, e) # out, gone) | None \<Rightarrow> (out, k # gone))"

definition fetch_entries ::
  "'s redis \<Rightarrow> redis_kv \<Rightarrow> string list \<Rightarrow> bool \<Rightarrow> ('s, (string \<times> entry) list) op" where
  "fetch_entries R K keys prune =
     (if keys = [] then ret []
      else cbind (map_err redis_err (round_trip (show_error R)
             (pipe_all (map (\<lambda>k. pipe2 (exec (redis_get R k)) (exec (redis_pttl R k))) keys))))
        (\<lambda>replies. reading wall (\<lambda>now.
          let (out, gone) = sift K now (zip keys replies)
          in if prune \<and> gone \<noteq> []
             then cbind (pcall (invoke R (prune_lua R (index_key K) (expiry_key K) gone))) (\<lambda>_. ret out)
             else ret out)))"

definition index_page ::
  "'s redis \<Rightarrow> redis_kv \<Rightarrow> string \<Rightarrow> string option \<Rightarrow> u64 \<Rightarrow> ('s, kv_page) op" where
  "index_page R K pfx after limit =
     (let full_prefix = full_key K pfx;
          lo = (case after of Some full \<Rightarrow> LexExcl full | None \<Rightarrow> LexIncl full_prefix);
          hi = LexExcl (full_prefix @ [CHR 0xFF])
      in cbind (map_err redis_err (cbind (invoke R
             (redis_zrangebylex R (index_key K) lo hi (unat (limit + 1)))) (as_strings R)))
           (\<lambda>keys.
             let more = unat limit < length keys;
                 keys = take (unat limit) keys;
                 next_cur = (if more \<and> keys \<noteq> [] then Some (CHR ''i'' # last keys) else None)
             in cbind (fetch_entries R K keys True) (\<lambda>es. ret \<lparr>entries = es, next_page = next_cur\<rparr>)))"

definition scan_keys :: "'s redis \<Rightarrow> nat \<Rightarrow> string \<Rightarrow> ('s, nat \<times> string list) op" where
  "scan_keys R cur pattern =
     map_err redis_err (cbind (invoke R (redis_scan R cur pattern SCAN_COUNT))
       (\<lambda>(nxt, batch). cbind (as_strings R batch) (\<lambda>ks. ret (nxt, ks))))"

text \<open>One turn of the \<open>while\<close> loop of \<open>scan_page\<close> over (keys, scan, done).\<close>

definition scan_turn :: "'s redis \<Rightarrow> string \<Rightarrow> nat \<Rightarrow> string list \<times> nat \<times> bool \<Rightarrow>
    ('s, (string list \<times> nat \<times> bool) + (string list \<times> nat \<times> bool)) op" where
  "scan_turn R pattern limit st =
     (case st of (keys, cur, fin) \<Rightarrow>
        if length keys < limit \<and> \<not> fin
        then cbind (scan_keys R cur pattern) (\<lambda>(nxt, batch). ret (Inr (keys @ batch, nxt, nxt = 0)))
        else ret (Inl (keys, cur, fin)))"

definition scan_page ::
  "'s redis \<Rightarrow> cursor_json \<Rightarrow> redis_kv \<Rightarrow> string \<Rightarrow> scan_cursor \<Rightarrow> u64 \<Rightarrow>
     (cluster_error, 's world, kv_page) peff" where
  "scan_page R J K pfx state limit =
     (let pattern = glob_escape (full_key K pfx) @ ''*''; lim = unat limit in
      pbind (loop (scan_turn R pattern lim) (pending state, scan state, done_pass state))
        (\<lambda>(keys, cur, fin).
          let rest = drop lim keys;
              keys = take lim keys;
              next_cur = (if fin \<and> rest = [] then Inr None
                else case to_string J \<lparr>scan = cur, pending = rest, done_pass = fin\<rparr> of
                    Inl e \<Rightarrow> Inl (Internal (''redis kv list cursor: '' @ e))
                  | Inr t \<Rightarrow> Inr (Some (CHR ''s'' # t)))
          in case next_cur of Inl e \<Rightarrow> pure (raise e)
             | Inr c \<Rightarrow> pure (cbind (fetch_entries R K keys False)
                        (\<lambda>es. ret \<lparr>entries = es, next_page = c\<rparr>))))"

definition kv_list_page ::
  "'s redis \<Rightarrow> cursor_json \<Rightarrow> redis_kv \<Rightarrow> string \<Rightarrow> string option \<Rightarrow> u64 \<Rightarrow>
     (cluster_error, 's world, kv_page) peff" where
  "kv_list_page R J K pfx cursor lim =
     (let limit = max lim 1;
          scan_from = (\<lambda>t. case from_str J t of
              None \<Rightarrow> pure (raise (Precondition ''redis kv list: not a cursor of this store''))
            | Some st \<Rightarrow> scan_page R J K pfx st limit)
      in case cursor of
           None \<Rightarrow> if index_ready K then pure (index_page R K pfx None limit)
                    else scan_page R J K pfx default_cursor limit
         | Some c \<Rightarrow>
             if c \<noteq> [] \<and> hd c = CHR ''i'' then pure (index_page R K pfx (Some (tl c)) limit)
             else if c \<noteq> [] \<and> hd c = CHR ''s'' then scan_from (tl c)
             else scan_from c)"

subsection \<open>Upkeep of the indexes\<close>

definition sweep_turn :: "'s redis \<Rightarrow> redis_kv \<Rightarrow> nat \<Rightarrow> ('s, nat + nat) op" where
  "sweep_turn R K gone =
     reading now_ms (\<lambda>now.
       cbind (map_err redis_err (cbind (invoke R (redis_zrangebyscore R (expiry_key K) NegInf
                (ScoreIncl now) (Some SWEEP_BATCH))) (as_strings R)))
         (\<lambda>due.
           if due = [] then ret (Inl gone)
           else cbind (map_err redis_err (invoke R (sweep_lua R (index_key K) (expiry_key K) now due)))
             (\<lambda>removed.
               let gone' = gone + nat removed
               in if length due < SWEEP_BATCH then ret (Inl gone') else ret (Inr gone'))))"

definition sweep :: "'s redis \<Rightarrow> redis_kv \<Rightarrow> (cluster_error, 's world, nat) peff" where
  "sweep R K = loop (sweep_turn R K) 0"

definition backfill_turn ::
  "'s redis \<Rightarrow> redis_kv \<Rightarrow> string \<Rightarrow> nat \<times> nat \<Rightarrow> ('s, nat + (nat \<times> nat)) op" where
  "backfill_turn R K pattern st =
     (case st of (cur, indexed) \<Rightarrow>
        cbind (scan_keys R cur pattern) (\<lambda>(nxt, found).
          let batch = filter (\<lambda>k. k \<noteq> index_key K \<and> k \<noteq> expiry_key K \<and> k \<noteq> complete_key K) found;
              go = (\<lambda>n. if nxt = 0 then ret (Inl n) else ret (Inr (nxt, n)))
          in if batch = [] then go indexed
             else reading now_ms (\<lambda>now.
               cbind (map_err redis_err (invoke R (backfill_lua R (index_key K) (expiry_key K) now batch)))
                 (\<lambda>n. go (indexed + nat n)))))"

definition backfill_index :: "'s redis \<Rightarrow> redis_kv \<Rightarrow> (cluster_error, 's world, nat) peff" where
  "backfill_index R K =
     (let pattern = (if key_prefix K = [] then ''*'' else glob_escape (key_prefix K) @ '':*'')
      in loop (backfill_turn R K pattern) (0, 0))"

definition mark_index_complete :: "'s redis \<Rightarrow> redis_kv \<Rightarrow> nat \<Rightarrow> ('s, unit) op" where
  "mark_index_complete R K started_at_ms =
     cbind (map_err redis_err (invoke R
       (redis_set R (complete_key K) (dec (int started_at_ms)) False None))) (\<lambda>_. ret ())"

definition index_complete :: "'s redis \<Rightarrow> redis_kv \<Rightarrow> ('s, bool) op" where
  "index_complete R K =
     cbind (map_err redis_err (invoke R (redis_exists R (complete_key K)))) (\<lambda>n. ret (0 < n))"

definition invalidate_index :: "'s redis \<Rightarrow> redis_kv \<Rightarrow> redis_kv \<times> ('s, unit) op" where
  "invalidate_index R K = (set_index_ready K False,
     cbind (map_err redis_err (invoke R (redis_del R (complete_key K)))) (\<lambda>_. ret ()))"

end
