(* ===== verification/Redis_Reference.thy ===== *)
theory Redis_Reference
  imports Redis_Server
begin

section \<open>A reference server\<close>

text \<open>
  An executable server that meets the interface \<open>redis_server\<close>: one table of live keys as an
  association list, and the log of published messages. It shows that the laws the development
  assumes of Redis can hold together, and the witnesses run the plugin's model on it.
\<close>

record ref_state =
  table :: "(string \<times> robj \<times> nat option) list"
  log :: "(string \<times> string) list"

definition ref_view :: "ref_state \<Rightarrow> keyspace" where
  "ref_view s = \<lparr>objs = map_of (table s), feed = log s\<rparr>"

definition ref_write :: "string \<Rightarrow> (robj \<times> nat option) option \<Rightarrow> ref_state \<Rightarrow> ref_state" where
  "ref_write k e s = s\<lparr>table := (case e of None \<Rightarrow> AList.delete k (table s)
                                         | Some x \<Rightarrow> AList.update k x (table s))\<rparr>"

text \<open>A command that touches one key: run it on the view, store that key's new entry.\<close>

definition ref_cmd :: "string \<Rightarrow> (keyspace, 'a) cmd \<Rightarrow> (ref_state, 'a) cmd" where
  "ref_cmd k m s = (case m (ref_view s) of (r, v) \<Rightarrow> (r, ref_write k (objs v k) s))"

definition ref_read :: "(keyspace, 'a) cmd \<Rightarrow> (ref_state, 'a) cmd" where
  "ref_read m s = (fst (m (ref_view s)), s)"

text \<open>Glob patterns: star, question mark, backslash escapes, character classes.\<close>

fun split_class :: "string \<Rightarrow> (string \<times> string) option" where
  "split_class [] = None"
| "split_class (c # p) = (if c = CHR '']'' then Some ([], p)
     else map_option (\<lambda>(cl, q). (c # cl, q)) (split_class p))"

lemma split_class_length: "split_class p = Some (cl, q) \<Longrightarrow> length q < length p"
  by (induction p arbitrary: cl q) (fastforce split: if_splits)+

fun in_class :: "char \<Rightarrow> string \<Rightarrow> bool" where
  "in_class x (a # b # c # cl) =
     (if b = CHR ''-'' then (a \<le> x \<and> x \<le> c) \<or> in_class x cl else x = a \<or> in_class x (b # c # cl))"
| "in_class x (a # cl) = (x = a \<or> in_class x cl)"
| "in_class x [] = False"

function glob :: "string \<Rightarrow> string \<Rightarrow> bool" where
  "glob [] k = (k = [])"
| "glob (c # p) k =
     (if c = CHR ''*'' then glob p k \<or> (case k of [] \<Rightarrow> False | x # ks \<Rightarrow> glob (c # p) ks)
      else case k of [] \<Rightarrow> False
       | x # ks \<Rightarrow>
         if c = CHR ''?'' then glob p ks
         else if c = CHR 0x5C \<and> p \<noteq> [] then x = hd p \<and> glob (tl p) ks
         else if c = CHR ''['' then (case split_class p of None \<Rightarrow> False
           | Some (cl, q) \<Rightarrow> (if cl \<noteq> [] \<and> hd cl = CHR ''^'' then \<not> in_class x (tl cl) else in_class x cl)
                            \<and> glob q ks)
         else x = c \<and> glob p ks)"
  by pat_completeness auto
termination
  by (relation "measures [\<lambda>(p, k). length k, \<lambda>(p, k). length p]")
     (auto dest: split_class_length)

declare glob.simps [simp del]

text \<open>The passage of \<open>d\<close> milliseconds.\<close>

fun age :: "nat \<Rightarrow> (string \<times> robj \<times> nat option) list \<Rightarrow> (string \<times> robj \<times> nat option) list" where
  "age d [] = []"
| "age d ((k, x, None) # l) = (k, x, None) # age d l"
| "age d ((k, x, Some t) # l) = (if d \<le> t then (k, x, Some (t - d)) # age d l else age d l)"

definition ref_ops :: "ref_state redis" where
  "ref_ops = \<lparr>
     redis_get = \<lambda>k. ref_read (ks_get k),
     redis_set = \<lambda>k x nx px. ref_cmd k (ks_set k x nx px),
     redis_del = \<lambda>k. ref_cmd k (ks_del k),
     redis_exists = \<lambda>k. ref_read (ks_exists k),
     redis_pexpire = \<lambda>k ms. ref_cmd k (ks_pexpire k ms),
     redis_persist = \<lambda>k. ref_cmd k (ks_persist k),
     redis_pttl = \<lambda>k. ref_read (ks_pttl k),
     redis_incrby = \<lambda>k d. ref_cmd k (ks_incrby k d),
     redis_zadd = \<lambda>z sc m. ref_cmd z (ks_zadd z (dbl sc) m),
     redis_zrem = \<lambda>z m. ref_cmd z (ks_zrem z m),
     redis_zrangebylex = \<lambda>z lo hi n. ref_read (ks_zrangebylex z lo hi n),
     redis_zrangebyscore = \<lambda>z lo hi lim. ref_read (ks_zrangebyscore z (dbl_bound lo) (dbl_bound hi) lim),
     redis_zremrangebyscore = \<lambda>z lo hi. ref_cmd z (ks_zremrangebyscore z (dbl_bound lo) (dbl_bound hi)),
     redis_mget = \<lambda>ks. ref_read (ks_mget ks),
     redis_scan = \<lambda>c pat cnt s. (Inr (0, filter (glob pat) (remdups (map fst (table s)))), s),
     redis_publish = \<lambda>c p s. (Inr 0, s\<lparr>log := log s @ [(c, p)]\<rparr>),
     lua_tonumber = \<lambda>t. map_option (\<lambda>i. LInt (dbl i)) (parse_i64 t),
     lua_tointeger = \<lambda>i. i,
     show_error = \<lambda>e. e, utf8_error = ''invalid UTF-8'',
     elapse = \<lambda>d s. s\<lparr>table := age d (AList.clearjunk (table s))\<rparr>\<rparr>"

subsection \<open>It meets the interface\<close>

lemma ref_view_write: "ref_view (ref_write k e s) = ks_put k e (ref_view s)"
  by (auto simp: ref_view_def ref_write_def ks_put_def update_conv' delete_conv' split: option.splits)

text \<open>A keyspace command that leaves every key but \<open>k\<close>, and the feed, alone.\<close>

definition only_key :: "string \<Rightarrow> (keyspace, 'a) cmd \<Rightarrow> bool" where
  "only_key k m \<longleftrightarrow> (\<forall>v. snd (m v) = ks_put k (objs (snd (m v)) k) v)"

lemma only_keyI: "(\<And>v. snd (m v) = v \<or> (\<exists>e. snd (m v) = ks_put k e v)) \<Longrightarrow> only_key k m"
  by (unfold only_key_def, intro allI)
    (metis ks_put_objs ks_put_def fun_upd_triv keyspace.surjective keyspace.update_convs(1)
      fun_upd_upd keyspace.select_convs(1))

lemma sim_ref_cmd: "only_key k m \<Longrightarrow> sim ref_view (ref_cmd k m) m"
  by (auto simp: sim_def ref_cmd_def ref_view_write only_key_def split: prod.splits) (metis snd_conv)

lemma sim_ref_read: "(\<And>v. snd (m v) = v) \<Longrightarrow> sim ref_view (ref_read m) m"
  by (auto simp: sim_def ref_read_def) (metis prod.collapse)

lemmas ks_command_defs = ks_get_def ks_set_def ks_del_def ks_exists_def ks_pexpire_def ks_persist_def
  ks_pttl_def ks_incrby_def ks_zadd_def ks_zrem_def ks_zrangebylex_def ks_zrangebyscore_def zread_def
  ks_zremrangebyscore_def ks_mget_def

lemma age_keys: "fst ` set (age d l) \<subseteq> fst ` set l"
  by (induction d l rule: age.induct) auto

lemma map_of_age:
  "distinct (map fst l) \<Longrightarrow> map_of (age d l) k =
   (case map_of l k of Some (x, Some t) \<Rightarrow> if d \<le> t then Some (x, Some (t - d)) else None | e \<Rightarrow> e)"
proof (induction d l rule: age.induct)
  case (3 d j x t l)
  have "map_of (age d l) j = None"
    using "3.prems" age_keys [of d l] by (auto simp: map_of_eq_None_iff)
  with 3 show ?case by auto
qed auto

lemma ref_elapse: "ref_view (elapse ref_ops d s) = ks_elapse d (ref_view s)"
  by (auto simp: ref_view_def ref_ops_def ks_elapse_def fun_eq_iff map_of_age
      distinct_clearjunk map_of_clearjunk)

lemma one_key_commands:
  "only_key k (ks_set k x nx px)" "only_key k (ks_del k)" "only_key k (ks_pexpire k ms)"
  "only_key k (ks_persist k)" "only_key k (ks_incrby k d)" "only_key k (ks_zadd k sc m)"
  "only_key k (ks_zrem k m)" "only_key k (ks_zremrangebyscore k lo hi)"
  by (rule only_keyI; simp add: ks_command_defs split: option.splits robj.splits; blast)+

lemma read_commands:
  "snd (ks_get k v) = v" "snd (ks_exists k v) = v" "snd (ks_pttl k v) = v"
  "snd (ks_zrangebylex z llo lhi n v) = v" "snd (ks_zrangebyscore z lo hi lim v) = v"
  "snd (ks_mget ks v) = v"
  by (simp_all add: ks_command_defs split: option.splits robj.splits)

interpretation ref: redis_server ref_ops ref_view
proof (unfold_locales, goal_cases)
  case (11 z s lo hi n)
  then show ?case
    by (auto simp: ref_ops_def ref_read_def ks_zrangebylex_def zread_def split: option.splits robj.splits)
next
  case (19 e)
  then show ?case
    by (simp add: ref_ops_def prefix_imp_sublist takeWhile_is_prefix)
next
  case (20 d s)
  then show ?case by (rule ref_elapse)
next
  case (15 c p s cnt)
  then show ?case by (simp add: ref_ops_def ref_view_def)
qed (auto simp: ref_ops_def intro!: sim_ref_read sim_ref_cmd one_key_commands read_commands)

subsection \<open>A concrete start\<close>

text \<open>An empty reference server, and a world in which nobody else acts and every link is up.\<close>

definition ref_empty :: ref_state where
  "ref_empty = \<lparr>table = [], log = []\<rparr>"

definition ref_world :: "int \<Rightarrow> ref_state \<Rightarrow> ref_state world" where
  "ref_world now s = \<lparr>server = s, env = [], links = [], wall = now, mono = 0, ticks = []\<rparr>"

lemma ref_world_simps [simp]:
  "server (ref_world now s) = s" "quiet (ref_world now s)" "wall (ref_world now s) = now"
  "ticks (ref_world now s) = []" "env (ref_world now s) = []" "links (ref_world now s) = []"
  by (simp_all add: ref_world_def quiet_def)

lemma ref_empty_view [simp]: "objs (ref_view ref_empty) = Map.empty" "feed (ref_view ref_empty) = []"
  by (simp_all add: ref_view_def ref_empty_def)

end
