(* ===== verification/Kv_Behaviour.thy ===== *)
theory Kv_Behaviour
  imports Kv_Store Redis_Reference
begin

section \<open>The state store refines a map with expiring entries\<close>

text \<open>
  The abstract specification of \<open>KeyValueStore\<close> is a map from the caller's keys to values with a
  remaining lifetime (\<open>kv_model\<close>), with one function per method (\<open>spec_call\<close>). \<open>contents\<close> reads
  the map off the server. The lemmas in \<open>context redis_server\<close> give each method's reply and effect
  in a quiet world; \<open>kv_refines_map\<close> composes them to whole sequences of calls.
\<close>

type_synonym kv_model = "string \<rightharpoonup> string \<times> nat option"

definition contents :: "redis_kv \<Rightarrow> keyspace \<Rightarrow> kv_model" where
  "contents K v key = str_at v (full_key K key)"

datatype kv_call =
    CGet string
  | CPut string string "nat option"
  | CPutIfAbsent string string "nat option"
  | CDelete string
  | CExpire string "nat option"
  | CIncr string int "nat option"
  | CWait nat

datatype kv_reply = RDone | RBool bool | RInt int | REntry "(string \<times> int option) option"
  | RPrecondition | RFailed

subsection \<open>The specification\<close>

definition spec_counter :: "kv_model \<Rightarrow> string \<Rightarrow> (int \<times> nat option) option" where
  "spec_counter M key = (case M key of None \<Rightarrow> Some (0, None)
     | Some (x, t) \<Rightarrow> map_option (\<lambda>c. (c, t)) (parse_i64 x))"

text \<open>
  A sum the counter scripts reply is exact up to \<open>2 ^ 53\<close>; \<open>rounded\<close> is what becomes of a larger one on
  its way through Lua. The counter itself is always exact.
\<close>

definition spec_sum :: "(int \<Rightarrow> int) \<Rightarrow> int \<Rightarrow> int" where
  "spec_sum rounded n = (if \<bar>n\<bar> \<le> 2 ^ 53 then n else rounded n)"

fun spec_call :: "(int \<Rightarrow> int) \<Rightarrow> kv_call \<Rightarrow> kv_model \<Rightarrow> kv_reply \<times> kv_model" where
  "spec_call rounded (CGet key) M = (REntry (map_option (map_prod id (map_option int)) (M key)), M)"
| "spec_call rounded (CPut key x ttl) M = (RDone, M(key \<mapsto> (x, px_of (ttl_ms ttl))))"
| "spec_call rounded (CPutIfAbsent key x ttl) M =
     (if M key = None then (RBool True, M(key \<mapsto> (x, px_of (ttl_ms ttl)))) else (RBool False, M))"
| "spec_call rounded (CDelete key) M = (RBool (M key \<noteq> None), M(key := None))"
| "spec_call rounded (CExpire key ttl) M =
     (case M key of None \<Rightarrow> (RBool False, M) | Some (x, t) \<Rightarrow> (RBool True, M(key \<mapsto> (x, px_of (ttl_ms ttl)))))"
| "spec_call rounded (CIncr key delta ttl) M =
     (case spec_counter M key of None \<Rightarrow> (RPrecondition, M)
      | Some (c, t) \<Rightarrow>
          if in_i64 (c + delta)
          then (RInt (spec_sum rounded (c + delta)),
                M(key \<mapsto> (dec (c + delta), if ttl = None then t else px_of (ttl_ms ttl))))
          else (RPrecondition, M))"
| "spec_call rounded (CWait d) M = (RDone, \<lambda>key. case M key of
      Some (x, Some t) \<Rightarrow> if d \<le> t then Some (x, Some (t - d)) else None | e \<Rightarrow> e)"

fun spec_calls :: "(int \<Rightarrow> int) \<Rightarrow> kv_call list \<Rightarrow> kv_model \<Rightarrow> kv_reply list \<times> kv_model" where
  "spec_calls rounded [] M = ([], M)"
| "spec_calls rounded (c # cs) M =
     (let (r, N) = spec_call rounded c M; (rs, P) = spec_calls rounded cs N in (r # rs, P))"

subsection \<open>The implementation\<close>

fun reply_of :: "('a \<Rightarrow> kv_reply) \<Rightarrow> cluster_error + 'a \<Rightarrow> kv_reply" where
  "reply_of f (Inr x) = f x"
| "reply_of f (Inl (Precondition e)) = RPrecondition"
| "reply_of f (Inl _) = RFailed"

text \<open>One call on the world; an expiry is read relative to the clock after the call.\<close>

fun run_call :: "'s redis \<Rightarrow> redis_kv \<Rightarrow> kv_call \<Rightarrow> 's world \<Rightarrow> kv_reply \<times> 's world" where
  "run_call R K (CGet key) w = (case kv_get R K key w of (r, u) \<Rightarrow>
     (reply_of (\<lambda>e. REntry (map_option (\<lambda>e. (bytes e, map_option (\<lambda>x. x - wall u) (expires_at e))) e)) r, u))"
| "run_call R K (CPut key x ttl) w = map_prod (reply_of (\<lambda>_. RDone)) id (kv_put R K key x ttl w)"
| "run_call R K (CPutIfAbsent key x ttl) w = map_prod (reply_of RBool) id (kv_put_if_absent R K key x ttl w)"
| "run_call R K (CDelete key) w = map_prod (reply_of RBool) id (kv_delete R K key w)"
| "run_call R K (CExpire key ttl) w = map_prod (reply_of RBool) id (kv_expire R K key ttl w)"
| "run_call R K (CIncr key delta ttl) w = map_prod (reply_of RInt) id (kv_incr R K key delta ttl w)"
| "run_call R K (CWait d) w = (RDone, w\<lparr>server := elapse R d (server w)\<rparr>)"

fun run_calls :: "'s redis \<Rightarrow> redis_kv \<Rightarrow> kv_call list \<Rightarrow> 's world \<Rightarrow> kv_reply list \<times> 's world" where
  "run_calls R K [] w = ([], w)"
| "run_calls R K (c # cs) w =
     (let (r, u) = run_call R K c w; (rs, v) = run_calls R K cs u in (r # rs, v))"

text \<open>Arguments the API hands over: lifetimes the server can keep, increments of 64 bits.\<close>

fun call_ok :: "kv_call \<Rightarrow> bool" where
  "call_ok (CPut key x ttl) = ttl_arg_ok (ttl_ms ttl)"
| "call_ok (CPutIfAbsent key x ttl) = ttl_arg_ok (ttl_ms ttl)"
| "call_ok (CExpire key ttl) = ttl_arg_ok (ttl_ms ttl)"
| "call_ok (CIncr key delta ttl) = (in_i64 delta \<and> ttl_arg_ok (ttl_ms ttl))"
| "call_ok _ = True"

subsection \<open>Effects on the contents\<close>

lemma contents_touch:
  assumes "kv_wf K v"
  shows "contents K (touch K (full_key K key) e ia xa v) =
    (contents K v)(key := case e of Some (RStr x, t) \<Rightarrow> Some (x, t) | _ \<Rightarrow> None)"
proof
  fix j
  note apart = data_key_not_index [OF assms data_key_full [of K j]]
  show "contents K (touch K (full_key K key) e ia xa v) j =
    ((contents K v)(key := case e of Some (RStr x, t) \<Rightarrow> Some (x, t) | _ \<Rightarrow> None)) j"
    using touch_objs [OF assms data_key_full apart, of key e ia xa]
    by (simp add: contents_def str_at_def full_key_inj)
qed

lemma contents_live: "kv_wf K v \<Longrightarrow> live v (full_key K key) \<longleftrightarrow> contents K v key \<noteq> None"
  by (simp add: contents_def live_str_at kv_wfD(5))

lemma contents_objs:
  "kv_wf K v \<Longrightarrow> objs v (full_key K key) = map_option (map_prod RStr id) (contents K v key)"
  using kv_wfD(5) [of K v "full_key K key"]
  by (auto simp: contents_def str_at_def str_slot_def split: option.splits robj.splits)

lemma contents_counter:
  "kv_wf K v \<Longrightarrow> counter_at v (full_key K key) = spec_counter (contents K v) key"
  by (auto simp: counter_at_def spec_counter_def contents_objs split: option.splits)

lemma contents_elapse:
  "kv_wf K v \<Longrightarrow> contents K (ks_elapse d v) = snd (spec_call rounded (CWait d) (contents K v))"
proof
  fix key
  assume "kv_wf K v"
  then have o: "objs v (full_key K key) = map_option (map_prod RStr id) (contents K v key)"
    by (rule contents_objs)
  show "contents K (ks_elapse d v) key = snd (spec_call rounded (CWait d) (contents K v)) key"
    unfolding contents_def [of K "ks_elapse d v"]
    using o by (auto simp: str_at_def ks_elapse_def split: option.splits)
qed

lemma ttl_ms_None [simp]: "ttl_ms None = 0"
  by (simp add: ttl_ms_def)

lemma ttl_ms_pos [simp]: "0 < ttl_ms (Some d)"
  by (simp add: ttl_ms_def)

lemma ttl_ms_zero: "0 < ttl_ms ttl \<longleftrightarrow> ttl \<noteq> None"
  by (cases ttl) auto

subsection \<open>Single calls in a quiet world\<close>

context redis_server
begin

lemma invoke_quiet:
  assumes "quiet w" and "sim view m n"
  shows "\<exists>u. invoke R m w = (map_sum (show_error R) id (fst (n (view (server w)))), u) \<and>
    view (server u) = snd (n (view (server w))) \<and> quiet u"
proof -
  obtain q s where run: "m (server w) = (q, s)" by fastforce
  from simD [OF assms(2) this] have "n (view (server w)) = (q, view s)" .
  with quiet_trip [where w = w and m = m and sh = "show_error R", OF assms(1) run] show ?thesis
    by (auto simp: invoke_def)
qed

text \<open>Both commands of the \<open>get\<close> pipeline see the same server.\<close>

lemma pipe_quiet:
  assumes "quiet w" and "sim view m n" and "sim view p q"
    and "n (view (server w)) = (Inr a, view (server w))" and "q (view (server w)) = (Inr b, view (server w))"
  obtains u where "round_trip sh (pipe2 (exec m) (exec p)) w = (Inr (a, b), u)"
    and "view (server u) = view (server w)" and "quiet u"
proof -
  obtain s where m: "m (server w) = (Inr a, s)" and s: "view s = view (server w)"
    using simD [OF assms(2), of "server w"] assms(4) by (cases "m (server w)") auto
  obtain t where p: "p s = (Inr b, t)" and t: "view t = view (server w)"
    using simD [OF assms(3), of s] assms(5) s by (cases "p s") auto
  have env: "env w = []" and ok: "\<forall>l \<in> set (tl (links w)). l = Up"
    using assms(1) by (cases "links w"; auto simp: quiet_def)+
  show thesis
    by (rule that [of "pass_time (w\<lparr>links := tl (links w), server := t\<rparr>)"])
       (use env ok m p s t in \<open>auto simp: round_trip_up [OF quiet_up [OF assms(1)]] pipe2_def exec_calm quiet_def\<close>)
qed

lemma put_quiet:
  assumes "quiet w" and wf: "kv_wf K (view (server w))" and "ttl_arg_ok (ttl_ms ttl)"
  shows "\<exists>u. kv_put R K key x ttl w = (Inr (), u) \<and> quiet u \<and> kv_wf K (view (server u)) \<and>
    contents K (view (server u)) = (contents K (view (server w)))(key \<mapsto> (x, px_of (ttl_ms ttl)))"
proof -
  note ks = set_lua_ks [OF wf data_key_full, of R key x "ttl_ms ttl" "now_ms w" "''0''"]
  from set_script.keeps_wf [OF wf, of R key x "ttl_ms ttl" "now_ms w" "''0''"]
    invoke_quiet [OF assms(1) set_lua_sim [OF assms(3), of "full_key K key" "index_key K" "expiry_key K" x "now_ms w" "''0''"]]
  show ?thesis
    by (auto simp: ks contents_touch [OF wf] assms(3) kv_put_def reading_def cbind_def map_err_def ret_def)
qed

lemma put_if_absent_quiet:
  assumes "quiet w" and wf: "kv_wf K (view (server w))" and "ttl_arg_ok (ttl_ms ttl)"
  shows "\<exists>u. kv_put_if_absent R K key x ttl w = (Inr (contents K (view (server w)) key = None), u) \<and>
    quiet u \<and> kv_wf K (view (server u)) \<and> contents K (view (server u)) =
      (if contents K (view (server w)) key = None
       then (contents K (view (server w)))(key \<mapsto> (x, px_of (ttl_ms ttl))) else contents K (view (server w)))"
proof -
  note ks = set_lua_ks [OF wf data_key_full, of R key x "ttl_ms ttl" "now_ms w" "''1''"]
  from set_script.keeps_wf [OF wf, of R key x "ttl_ms ttl" "now_ms w" "''1''"]
    invoke_quiet [OF assms(1) set_lua_sim [OF assms(3), of "full_key K key" "index_key K" "expiry_key K" x "now_ms w" "''1''"]]
  show ?thesis
    by (auto simp: ks contents_touch [OF wf] contents_live [OF wf] assms(3) kv_put_if_absent_def reading_def
        cbind_def map_err_def ret_def)
qed

lemma delete_quiet:
  assumes "quiet w" and wf: "kv_wf K (view (server w))"
  shows "\<exists>u. kv_delete R K key w = (Inr (contents K (view (server w)) key \<noteq> None), u) \<and>
    quiet u \<and> kv_wf K (view (server u)) \<and>
    contents K (view (server u)) = (contents K (view (server w)))(key := None)"
proof -
  from del_script.keeps_wf [OF wf, of R key]
    invoke_quiet [OF assms(1) del_lua_sim [of "full_key K key" "index_key K" "expiry_key K"]]
  show ?thesis
    by (auto simp: del_lua_ks [OF wf data_key_full] contents_touch [OF wf] contents_live [OF wf] kv_delete_def
        cbind_def map_err_def ret_def)
qed

lemma expire_quiet:
  assumes "quiet w" and wf: "kv_wf K (view (server w))" and "ttl_arg_ok (ttl_ms ttl)"
  shows "\<exists>u. kv_expire R K key ttl w = (Inr (contents K (view (server w)) key \<noteq> None), u) \<and>
    quiet u \<and> kv_wf K (view (server u)) \<and> contents K (view (server u)) =
      (case contents K (view (server w)) key of None \<Rightarrow> contents K (view (server w))
       | Some (y, t) \<Rightarrow> (contents K (view (server w)))(key \<mapsto> (y, px_of (ttl_ms ttl))))"
proof -
  note ks = expire_lua_ks [OF wf data_key_full, of R key "ttl_ms ttl" "now_ms w"]
  from expire_script.keeps_wf [OF wf, of R key "ttl_ms ttl" "now_ms w"]
    invoke_quiet [OF assms(1) expire_lua_sim [OF assms(3), of "full_key K key" "index_key K" "expiry_key K" "now_ms w"]]
  show ?thesis
    by (cases "contents K (view (server w)) key")
       (auto simp: ks contents_objs [OF wf] contents_touch [OF wf] assms(3) kv_expire_def reading_def
         cbind_def map_err_def ret_def)
qed

text \<open>The server's error reply reaches the caller with the sentinel in it.\<close>

lemma precondition_shown: "sublist incr_precondition (show_error R (incr_precondition @ '': '' @ e))"
proof -
  have "takeWhile (\<lambda>c. c \<noteq> CHR '' '') (incr_precondition @ '': '' @ e) = incr_precondition @ '':''"
    by (simp add: incr_precondition_def)
  with error_word [of "incr_precondition @ '': '' @ e"]
  have "sublist (incr_precondition @ '':'') (show_error R (incr_precondition @ '': '' @ e))" by simp
  moreover have "sublist incr_precondition (incr_precondition @ '':'')" by simp
  ultimately show ?thesis by (rule sublist_order.order_trans [rotated])
qed

lemma precondition_reply [simp]:
  "reply_of f (Inl (incr_err op key (show_error R (incr_precondition @ CHR '':'' # CHR '' '' # e)))) = RPrecondition"
  using precondition_shown [of e] by (simp add: incr_err_def)

lemma incr_quiet:
  assumes "quiet w" and wf: "kv_wf K (view (server w))" and "ttl_arg_ok (ttl_ms ttl)" and "in_i64 delta"
  shows "\<exists>u. kv_incr R K key delta ttl w =
      (case spec_counter (contents K (view (server w))) key of
         Some (c, t) \<Rightarrow> if in_i64 (c + delta) then Inr (lua_reply R (c + delta))
           else Inl (incr_err ''incr'' key (show_error R (incr_precondition @ '': '' @ would_overflow)))
       | None \<Rightarrow> Inl (incr_err ''incr'' key (show_error R (incr_precondition @ '': '' @ not_an_integer))), u) \<and>
    quiet u \<and> kv_wf K (view (server u)) \<and> contents K (view (server u)) =
      (case spec_counter (contents K (view (server w))) key of
         Some (c, t) \<Rightarrow> if in_i64 (c + delta)
           then (contents K (view (server w)))(key \<mapsto>
              (dec (c + delta), if 0 < ttl_ms ttl then px_of (ttl_ms ttl) else t))
           else contents K (view (server w))
       | None \<Rightarrow> contents K (view (server w)))"
proof -
  note ks = incr_lua_ks [OF wf data_key_full, of R key delta "ttl_ms ttl" "now_ms w"]
  from incr_script.keeps_wf [OF wf, of R key delta "ttl_ms ttl" "now_ms w"]
    invoke_quiet [OF assms(1) incr_lua_sim [OF assms(3), of "full_key K key" "index_key K" "expiry_key K" delta "now_ms w"]]
  show ?thesis
    by (cases "spec_counter (contents K (view (server w))) key")
       (auto simp: ks contents_counter [OF wf] contents_touch [OF wf] assms(3,4) kv_incr_def reading_def
         map_err_def)
qed

lemma get_quiet:
  assumes "quiet w" and wf: "kv_wf K (view (server w))"
  shows "\<exists>u. kv_get R K key w =
      (Inr (map_option (\<lambda>(x, t). \<lparr>bytes = x, expires_at = map_option (\<lambda>t. wall u + int t) t\<rparr>)
          (contents K (view (server w)) key)), u) \<and>
    quiet u \<and> view (server u) = view (server w)"
proof -
  let ?k = "full_key K key" and ?v = "view (server w)"
  have g: "ks_get ?k ?v = (Inr (map_option fst (contents K ?v key)), ?v)"
    using ks_get_str [OF kv_wfD(5) [OF wf data_key_full]] by (simp add: contents_def)
  have t: "ks_pttl ?k ?v = (Inr (case contents K ?v key of None \<Rightarrow> -2 | Some (x, None) \<Rightarrow> -1
      | Some (x, Some t) \<Rightarrow> int t), ?v)"
    by (auto simp: ks_pttl_def contents_objs [OF wf] split: option.splits)
  show ?thesis
    by (rule pipe_quiet [OF assms(1) get_sim pttl_sim g t, of "show_error R"])
       (auto simp: kv_get_def Let_def cbind_def map_err_def ret_def reading_def split: option.splits)
qed

lemma spec_sum_reply: "spec_sum (lua_reply R) n = lua_reply R n"
  by (simp add: spec_sum_def lua_reply_exact)

lemma call_refines:
  assumes "quiet w" and wf: "kv_wf K (view (server w))" and "call_ok c"
  shows "\<exists>u. run_call R K c w = (fst (spec_call (lua_reply R) c (contents K (view (server w)))), u) \<and> quiet u \<and>
    kv_wf K (view (server u)) \<and> contents K (view (server u)) = snd (spec_call (lua_reply R) c (contents K (view (server w))))"
proof (cases c)
  case (CGet key)
  obtain u where u: "kv_get R K key w = (Inr (map_option (\<lambda>(x, t). \<lparr>bytes = x,
      expires_at = map_option (\<lambda>t. wall u + int t) t\<rparr>) (contents K (view (server w)) key)), u)"
    "quiet u" "view (server u) = view (server w)"
    using get_quiet [OF assms(1,2)] by blast
  with CGet wf show ?thesis
    by (cases "contents K (view (server w)) key") (auto simp: option.map_comp comp_def map_option_case split: option.splits)
next
  case (CPut key x ttl)
  with put_quiet [OF assms(1,2), of ttl key x] assms(3) show ?thesis by auto
next
  case (CPutIfAbsent key x ttl)
  with put_if_absent_quiet [OF assms(1,2), of ttl key x] assms(3) show ?thesis by auto
next
  case (CDelete key)
  with delete_quiet [OF assms(1,2), of key] show ?thesis by auto
next
  case (CExpire key ttl)
  with expire_quiet [OF assms(1,2), of ttl key] assms(3) show ?thesis by (auto split: option.splits)
next
  case (CIncr key delta ttl)
  with incr_quiet [OF assms(1,2), of ttl delta key] assms(3) show ?thesis
    by (cases "spec_counter (contents K (view (server w))) key")
       (auto simp: ttl_ms_zero spec_sum_reply)
next
  case (CWait d)
  with assms(1) wf show ?thesis
    using contents_elapse [OF wf, of d] time_step.keeps_wf [OF wf, of d]
    by (simp add: elapse_view quiet_def)
qed

lemma calls_refine:
  assumes "quiet w" and "kv_wf K (view (server w))" and "list_all call_ok cs"
  shows "fst (run_calls R K cs w) = fst (spec_calls (lua_reply R) cs (contents K (view (server w)))) \<and>
    contents K (view (server (snd (run_calls R K cs w)))) = snd (spec_calls (lua_reply R) cs (contents K (view (server w))))"
  using assms
proof (induction cs arbitrary: w)
  case (Cons c cs)
  then obtain u where "run_call R K c w = (fst (spec_call (lua_reply R) c (contents K (view (server w)))), u)" "quiet u"
    "kv_wf K (view (server u))" "contents K (view (server u)) = snd (spec_call (lua_reply R) c (contents K (view (server w))))"
    using call_refines [of w K c] by auto
  with Cons.IH [of u] Cons.prems(3) show ?case
    by (auto simp: Let_def split: prod.splits)
qed simp

end

subsection \<open>Properties\<close>

text \<open>
  C1. The store refines a map with expiring entries. On any server that behaves as documented, in a
  world without interference and with every link up, a sequence of \<open>get\<close>, \<open>put\<close>, \<open>put_if_absent\<close>,
  \<open>delete\<close>, \<open>expire\<close> and \<open>incr\<close> calls, with time passing in between, gets the replies of the abstract
  map and leaves the server holding the abstract map's contents: what was put is read back with its
  remaining lifetime and is gone after it, \<open>incr\<close> stores the exact sum or refuses, and no call
  disturbs another key. The sum \<open>incr\<close> replies is exact up to \<open>2 ^ 53\<close>; a larger one has passed
  through a Lua number and is the integer that number is turned into.
\<close>

theorem kv_refines_map:
  assumes "redis_server R view" and "kv_wf K (view (server w))" and "quiet w" and "list_all call_ok cs"
  shows "fst (run_calls R K cs w) = fst (spec_calls (lua_reply R) cs (contents K (view (server w)))) \<and>
    contents K (view (server (snd (run_calls R K cs w)))) = snd (spec_calls (lua_reply R) cs (contents K (view (server w))))"
  using redis_server.calls_refine [OF assms(1,3,2,4)] .

theorem kv_refines_map_witness:
  "fst (run_calls ref_ops (with_connection_manager ''p'')
      [CPut ''a'' ''5'' None, CIncr ''a'' 2 (Some 3000000), CWait 2, CGet ''a'', CWait 2, CGet ''a'',
       CPut ''b'' (dec 9007199254740992) None, CIncr ''b'' 1 None, CGet ''b'']
      (ref_world 1000 ref_empty)) =
    [RDone, RInt 7, RDone, REntry (Some (''7'', Some 1)), RDone, REntry None,
     RDone, RInt 9007199254740992, REntry (Some (dec 9007199254740993, None))]"
proof -
  let ?K = "with_connection_manager ''p''"
  have wf: "kv_wf ?K (ref_view (server (ref_world 1000 ref_empty)))"
    by (rule kv_empty) (simp_all add: keys_apart_prefix)
  have none: "contents ?K (ref_view (server (ref_world 1000 ref_empty))) = Map.empty"
    by (rule ext) (simp add: contents_def str_at_def)
  have d: "dec 7 = ''7''" "parse_i64 ''5'' = Some 5"
    by code_simp+
  have r: "lua_reply ref_ops 9007199254740993 = 9007199254740992"
    by (simp add: lua_reply_def ref_ops_def dbl_def dbl_nat_def Let_def excess_bits.simps)
  show ?thesis
    using kv_refines_map [OF ref.redis_server_axioms wf _ , of
        "[CPut ''a'' ''5'' None, CIncr ''a'' 2 (Some 3000000), CWait 2, CGet ''a'', CWait 2, CGet ''a'',
          CPut ''b'' (dec 9007199254740992) None, CIncr ''b'' 1 None, CGet ''b'']"] r
    by (simp add: none d spec_counter_def spec_sum_def ttl_arg_ok_def ttl_ms_def px_of_def in_i64_def Let_def)
qed

end
