(* ===== verification/Kv_Counters.thy ===== *)
theory Kv_Counters
  imports Kv_Behaviour
begin

section \<open>Counters with a floor\<close>

text \<open>
  \<open>incr_floor\<close> computes in Lua numbers. Where every intermediate value is below \<open>2 ^ 53\<close> it adds
  exactly; an operand at or past \<open>2 ^ 53\<close>, or a stored value that is no integer, is refused. The
  difference between the floor and the counter may reach \<open>2 ^ 54\<close> although no operand does, and is
  then rounded. The reply of \<open>INCRBY\<close> is a Lua number too, so a sum past \<open>2 ^ 53\<close> is replied rounded.
\<close>

context redis_server
begin

lemma incr_floor_quiet:
  assumes "quiet w" and wf: "kv_wf K (view (server w))" and "ttl_arg_ok (ttl_ms ttl)"
    and cnt: "spec_counter (contents K (view (server w))) key = Some (c, t)"
    and small: "\<bar>c\<bar> < exact" "\<bar>floor\<bar> < exact" "\<bar>delta\<bar> < exact"
    and inc: "inc = dbl (dbl (max c floor - c) + delta)" and range: "in_i64 inc" "in_i64 (c + inc)"
  shows "\<exists>u. kv_incr_floor R K key delta floor ttl w = (Inr (lua_reply R (c + inc)), u) \<and> quiet u \<and>
    contents K (view (server u)) = (contents K (view (server w)))(key \<mapsto>
      (dec (c + inc), if 0 < ttl_ms ttl then px_of (ttl_ms ttl) else t))"
proof -
  have cnt': "counter_at (view (server w)) (full_key K key) = Some (c, t)"
    using cnt contents_counter [OF wf] by simp
  note ks = incr_floor_lua_ks [OF wf data_key_full range(2,1) cnt' tonumber_dec small inc, of "ttl_ms ttl" "now_ms w"]
  from invoke_quiet [OF assms(1) incr_floor_lua_sim [OF assms(3), of "full_key K key" "index_key K" "expiry_key K" delta "now_ms w" floor]]
  show ?thesis
    by (auto simp: ks contents_touch [OF wf] assms(3) kv_incr_floor_def reading_def map_err_def)
qed

lemma incr_floor_refused_quiet:
  assumes "quiet w" and wf: "kv_wf K (view (server w))" and "ttl_arg_ok (ttl_ms ttl)"
    and no: "case spec_counter (contents K (view (server w))) key of None \<Rightarrow> True
      | Some (c, t) \<Rightarrow> exact \<le> \<bar>c\<bar> \<or> exact \<le> \<bar>floor\<bar> \<or> exact \<le> \<bar>delta\<bar>"
  shows "\<exists>u e. kv_incr_floor R K key delta floor ttl w = (Inl (Precondition e), u) \<and>
    view (server u) = view (server w)"
proof -
  let ?v = "view (server w)"
  let ?m = "\<lambda>R. incr_floor_lua R (full_key K key) (index_key K) (expiry_key K) delta (ttl_ms ttl) (now_ms w) floor"
  note str = kv_wfD(5) [OF wf data_key_full [of K key]]
  obtain e where ks: "?m (ks_ops R) ?v = (Inl (incr_precondition @ '': '' @ e), ?v)"
  proof (cases "spec_counter (contents K ?v) key")
    case None
    have "counter_at ?v (full_key K key) = None" using None contents_counter [OF wf] by simp
    from incr_floor_nonint_ks [OF str this, of R] that show thesis by blast
  next
    case (Some ct)
    obtain c t where ct: "ct = (c, t)" by fastforce
    have "counter_at ?v (full_key K key) = Some (c, t)" using Some ct contents_counter [OF wf] by simp
    from incr_floor_beyond_ks [OF str this tonumber_dec, of floor delta] no Some ct that show thesis by simp
  qed
  from invoke_quiet [OF assms(1) incr_floor_lua_sim [OF assms(3), of "full_key K key" "index_key K" "expiry_key K" delta "now_ms w" floor]]
  show ?thesis
    using precondition_shown [of e] by (auto simp: ks kv_incr_floor_def reading_def map_err_def incr_err_def)
qed

end

subsection \<open>Properties\<close>

text \<open>
  C6. \<open>incr_floor\<close> raises the counter to at least the floor and adds, exactly: when the operands, the
  distance to the floor and the sum to be added are below \<open>2 ^ 53\<close>, the stored value is
  \<open>max current floor + delta\<close>, which is also the reply as long as it is at most \<open>2 ^ 53\<close> (past it,
  what a Lua number makes of it); other keys are untouched, and the lifetime is re-armed only when one
  is given.
\<close>

theorem incr_floor_exact:
  assumes "redis_server R view" and "quiet w" and "kv_wf K (view (server w))" and "ttl_arg_ok (ttl_ms ttl)"
    and "spec_counter (contents K (view (server w))) key = Some (c, t)"
    and "\<bar>c\<bar> < 2 ^ 53" and "\<bar>floor\<bar> < 2 ^ 53" and "\<bar>delta\<bar> < 2 ^ 53"
    and "max c floor - c < 2 ^ 53" and "\<bar>max c floor - c + delta\<bar> < 2 ^ 53"
  shows "\<exists>u n. kv_incr_floor R K key delta floor ttl w = (Inr n, u) \<and>
    n = (if \<bar>max c floor + delta\<bar> \<le> 2 ^ 53 then max c floor + delta
         else lua_reply R (max c floor + delta)) \<and>
    contents K (view (server u)) = (contents K (view (server w)))(key \<mapsto>
      (dec (max c floor + delta), if 0 < ttl_ms ttl then px_of (ttl_ms ttl) else t))"
proof -
  let ?inc = "max c floor - c + delta"
  have "\<bar>max c floor - c\<bar> < 2 ^ 53" using assms(9) by simp
  then have inc: "?inc = dbl (dbl (max c floor - c) + delta)"
    using dbl_exact [of "max c floor - c"] dbl_exact [OF assms(10)] by simp
  have "in_i64 ?inc" "in_i64 (c + ?inc)"
    using assms(6-10) by (auto simp: in_i64_def)
  from redis_server.incr_floor_quiet [OF assms(1-5) _ _ _ inc this] assms(6-8)
  show ?thesis
    using redis_server.lua_reply_exact [OF assms(1), of "max c floor + delta"] by (auto simp: exact_def)
qed

text \<open>
  C24. What \<open>incr_floor\<close> cannot compute it refuses: a stored value that is no integer, or an operand
  (current value, floor, increment) at or past \<open>2 ^ 53\<close>, is a \<open>Precondition\<close> error for the caller and
  leaves the server as it was.
\<close>

theorem incr_floor_refuses:
  assumes "redis_server R view" and "quiet w" and "kv_wf K (view (server w))" and "ttl_arg_ok (ttl_ms ttl)"
    and "case spec_counter (contents K (view (server w))) key of None \<Rightarrow> True
      | Some (c, t) \<Rightarrow> 2 ^ 53 \<le> \<bar>c\<bar> \<or> 2 ^ 53 \<le> \<bar>floor\<bar> \<or> 2 ^ 53 \<le> \<bar>delta\<bar>"
  shows "\<exists>u e. kv_incr_floor R K key delta floor ttl w = (Inl (Precondition e), u) \<and>
    view (server u) = view (server w)"
  by (rule redis_server.incr_floor_refused_quiet [OF assms(1-4)]) (use assms(5) in \<open>auto simp: exact_def split: option.splits\<close>)

text \<open>
  C8. The guard of \<open>incr_floor\<close> does not keep it exact: with a counter at -2, a floor of \<open>2 ^ 53 - 1\<close>
  and no increment, all within the guard, the difference \<open>2 ^ 53 + 1\<close> is rounded before it reaches
  \<open>INCRBY\<close>: the counter is left at \<open>2 ^ 53 - 2\<close> and the caller is told so, both below the floor the
  counter was to be raised to.
\<close>

theorem incr_floor_rounds:
  assumes "redis_server R view" and "quiet w" and "kv_wf K (view (server w))"
    and "spec_counter (contents K (view (server w))) key = Some (-2, t)"
  shows "\<exists>u. kv_incr_floor R K key 0 (2 ^ 53 - 1) None w = (Inr (2 ^ 53 - 2), u) \<and>
    contents K (view (server u)) key = Some (dec (2 ^ 53 - 2), t)"
proof -
  have inc: "2 ^ 53 = dbl (dbl (max (-2) (2 ^ 53 - 1) - (-2)) + 0)"
    by (simp add: dbl_def dbl_nat_def Let_def excess_bits.simps)
  have r: "in_i64 (2 ^ 53)" "in_i64 (-2 + 2 ^ 53)" by (simp_all add: in_i64_def)
  have s: "\<bar>-2\<bar> < exact" "\<bar>2 ^ 53 - 1\<bar> < exact" "\<bar>0 :: int\<bar> < exact" by (simp_all add: exact_def)
  have "lua_reply R (2 ^ 53 - 2) = 2 ^ 53 - 2" by (rule redis_server.lua_reply_exact [OF assms(1)]) simp
  with redis_server.incr_floor_quiet [OF assms(1-3) _ assms(4) s inc r, of None]
  show ?thesis by (auto simp: ttl_arg_ok_def)
qed

subsection \<open>Witnesses\<close>

text \<open>The reference server with one counter stored under \<open>p:a\<close>.\<close>

definition counting :: "string \<Rightarrow> ref_state world" where
  "counting x = ref_world 1000 \<lparr>table = [(''p:a'', RStr x, None)], log = []\<rparr>"

lemma counting_facts:
  shows "quiet (counting x)"
    and "kv_wf (with_connection_manager ''p'') (ref_view (server (counting x)))"
    and "contents (with_connection_manager ''p'') (ref_view (server (counting x))) ''a'' = Some (x, None)"
proof -
  let ?K = "with_connection_manager ''p''"
  let ?v = "ref_view (server (counting x))"
  show "quiet (counting x)" by (simp add: counting_def)
  have o: "objs ?v = [''p:a'' \<mapsto> (RStr x, None)]" by (simp add: counting_def ref_view_def)
  then show "contents ?K ?v ''a'' = Some (x, None)"
    by (simp add: contents_def full_key_def with_connection_manager_def str_at_def)
  show "kv_wf ?K ?v"
    unfolding kv_wf_def using keys_apart_prefix [of "''p''"] o
    by (auto simp: zset_ok_def all_scores_def str_slot_def members_def zset_at_def with_connection_manager_def)
qed

lemma counting_counter:
  "in_i64 c \<Longrightarrow> spec_counter (contents (with_connection_manager ''p'') (ref_view (server (counting (dec c))))) ''a''
     = Some (c, None)"
  using counting_facts(3) [of "dec c"] by (simp add: spec_counter_def)

theorem incr_floor_exact_witness:
  "\<exists>u. kv_incr_floor ref_ops (with_connection_manager ''p'') ''a'' 3 100 None (counting (dec 7)) = (Inr 103, u)"
  using incr_floor_exact [OF ref.redis_server_axioms counting_facts(1,2) _ counting_counter [of 7], of None 100 3]
  by (auto simp: ttl_arg_ok_def in_i64_def)

theorem incr_floor_refuses_witness:
  "\<exists>u e. kv_incr_floor ref_ops (with_connection_manager ''p'') ''a'' 3 (2 ^ 53) None (counting ''x'') =
     (Inl (Precondition e), u) \<and> ref_view (server u) = ref_view (server (counting ''x''))"
proof -
  have "parse_i64 ''x'' = None" by code_simp
  then have "spec_counter (contents (with_connection_manager ''p'') (ref_view (server (counting ''x'')))) ''a'' = None"
    using counting_facts(3) [of "''x''"] by (simp add: spec_counter_def)
  with incr_floor_refuses [OF ref.redis_server_axioms counting_facts(1,2), of None]
  show ?thesis by (auto simp: ttl_arg_ok_def)
qed

theorem incr_floor_rounds_witness:
  "\<exists>u. kv_incr_floor ref_ops (with_connection_manager ''p'') ''a'' 0 (2 ^ 53 - 1) None (counting (dec (-2))) =
     (Inr (2 ^ 53 - 2), u)"
  using incr_floor_rounds [OF ref.redis_server_axioms counting_facts(1,2) counting_counter [of "-2"]]
  by (auto simp: in_i64_def)

end
