(* ===== verification/Kv_Fleet.thy ===== *)
theory Kv_Fleet
  imports Kv_Behaviour
begin

section \<open>The store under interference and failures\<close>

text \<open>
  What holds when other replicas act between any two executions and round trips fail: the index
  invariants survive every operation, and a claim by \<open>put_if_absent\<close> has one winner. The fleet as a
  whole is a step relation over the server: any replica runs any script, or time passes.
\<close>

definition kv_inv :: "redis_kv \<Rightarrow> keyspace \<Rightarrow> bool" where
  "kv_inv K v \<longleftrightarrow> kv_wf K v \<and> kv_complete K v \<and> kv_reclaim K v"

lemma reclaimer_inv: "index_reclaimer K step \<Longrightarrow> kv_inv K v \<Longrightarrow> kv_inv K (step v)"
  by (simp add: kv_inv_def index_reclaimer.keeps_reclaim index_keeper.keeps_wf index_keeper.keeps_complete
      index_reclaimer.axioms(1))

context redis_server
begin

lemma invoke_keeps:
  "sim view m n \<Longrightarrow> index_reclaimer K (\<lambda>v. snd (n v)) \<Longrightarrow> keeps (stable (kv_inv K \<circ> view)) (invoke R m)"
  using reclaimer_inv [of K "\<lambda>v. snd (n v)"]
  unfolding invoke_def by (intro keeps_intros) (simp add: sim_view)

lemma read_view [simp]:
  "view (snd (redis_get R k s)) = view s" "view (snd (redis_pttl R k s)) = view s"
  "view (snd (redis_exists R k s)) = view s"
  by (simp_all add: sim_view [OF get_sim] sim_view [OF pttl_sim] sim_view [OF exists_sim] read_commands)

lemma scripts_keep [keeps_intros]:
  "ttl_arg_ok ttl \<Longrightarrow> keeps (stable (kv_inv K \<circ> view))
     (invoke R (set_lua R (full_key K key) (index_key K) (expiry_key K) x ttl now nx))"
  "keeps (stable (kv_inv K \<circ> view)) (invoke R (del_lua R (full_key K key) (index_key K) (expiry_key K)))"
  "ttl_arg_ok ttl \<Longrightarrow> keeps (stable (kv_inv K \<circ> view))
     (invoke R (expire_lua R (full_key K key) (index_key K) (expiry_key K) ttl now))"
  "ttl_arg_ok ttl \<Longrightarrow> keeps (stable (kv_inv K \<circ> view))
     (invoke R (incr_lua R (full_key K key) (index_key K) (expiry_key K) delta ttl now))"
  "ttl_arg_ok ttl \<Longrightarrow> keeps (stable (kv_inv K \<circ> view))
     (invoke R (incr_floor_lua R (full_key K key) (index_key K) (expiry_key K) delta ttl now floor))"
  "keeps (stable (kv_inv K \<circ> view)) (invoke R (prune_lua R (index_key K) (expiry_key K) (map (full_key K) ks)))"
  "keeps (stable (kv_inv K \<circ> view)) (invoke R (sweep_lua R (index_key K) (expiry_key K) now (map (full_key K) ks)))"
  by (rule invoke_keeps [OF set_lua_sim set_script.index_reclaimer_axioms]
      invoke_keeps [OF del_lua_sim del_script.index_reclaimer_axioms]
      invoke_keeps [OF expire_lua_sim expire_script.index_reclaimer_axioms]
      invoke_keeps [OF incr_lua_sim incr_script.index_reclaimer_axioms]
      invoke_keeps [OF incr_floor_lua_sim incr_floor_script.index_reclaimer_axioms]
      invoke_keeps [OF prune_lua_sim prune_script.index_reclaimer_axioms]
      invoke_keeps [OF sweep_lua_sim sweep_script.index_reclaimer_axioms]; assumption)+

lemma get_keeps: "keeps (stable (kv_inv K \<circ> view)) (kv_get R K key)"
  unfolding kv_get_def Let_def
  by (intro keeps_intros) (auto intro!: keeps_intros split: option.splits)

lemma calls_keep:
  "ttl_arg_ok (ttl_ms ttl) \<Longrightarrow> keeps (stable (kv_inv K \<circ> view)) (kv_put R K key x ttl)"
  "ttl_arg_ok (ttl_ms ttl) \<Longrightarrow> keeps (stable (kv_inv K \<circ> view)) (kv_put_if_absent R K key x ttl)"
  "keeps (stable (kv_inv K \<circ> view)) (kv_delete R K key)"
  "ttl_arg_ok (ttl_ms ttl) \<Longrightarrow> keeps (stable (kv_inv K \<circ> view)) (kv_expire R K key ttl)"
  "ttl_arg_ok (ttl_ms ttl) \<Longrightarrow> keeps (stable (kv_inv K \<circ> view)) (kv_incr R K key delta ttl)"
  "ttl_arg_ok (ttl_ms ttl) \<Longrightarrow> keeps (stable (kv_inv K \<circ> view)) (kv_incr_floor R K key delta floor ttl)"
  unfolding kv_put_def kv_put_if_absent_def kv_delete_def kv_expire_def kv_incr_def kv_incr_floor_def
  by ((rule keeps_intros | assumption)+)

lemma data_keys_map: "(\<forall>k \<in> set ks. data_key K k) \<Longrightarrow> \<exists>js. ks = map (full_key K) js"
  by (simp add: ex_map_conv data_key_iff)

lemma prune_keeps:
  "(\<forall>k \<in> set ks. data_key K k) \<Longrightarrow>
   keeps (stable (kv_inv K \<circ> view)) (invoke R (prune_lua R (index_key K) (expiry_key K) ks))"
  using data_keys_map [of ks K] scripts_keep(6) by blast

lemma sweep_keeps_batch:
  "(\<forall>k \<in> set ks. data_key K k) \<Longrightarrow>
   keeps (stable (kv_inv K \<circ> view)) (invoke R (sweep_lua R (index_key K) (expiry_key K) now ks))"
  using data_keys_map [of ks K] scripts_keep(7) by blast

lemma sift_gone: "sift K now rs = (out, gone) \<Longrightarrow> set gone \<subseteq> fst ` set rs"
  by (induction rs arbitrary: out gone rule: sift.induct [of "\<lambda>K now. _"])
     (auto split: prod.splits option.splits)

lemma fetch_keeps:
  assumes "\<forall>k \<in> set ks. data_key K k"
  shows "keeps (stable (kv_inv K \<circ> view)) (fetch_entries R K ks prune)"
proof -
  have gone: "\<forall>k \<in> set gone. data_key K k" if "sift K now (zip ks rs) = (out, gone)" for now rs out gone
    using sift_gone [OF that] assms by (fastforce dest: set_zip_leftD)
  show ?thesis
    unfolding fetch_entries_def Let_def
    by (intro keeps_intros) (auto intro!: keeps_intros prune_keeps [OF gone] split: prod.splits)
qed

lemma lex_yields:
  assumes "n < 2 ^ 63"
  shows "yields (stable (kv_inv K \<circ> view)) (map_err f (cbind (invoke R (redis_zrangebylex R (index_key K) lo hi n))
    (as_strings R))) (\<lambda>ks. \<forall>k \<in> set ks. data_key K k)"
  unfolding invoke_def
proof (intro yields_map_err yields_filter yields_trip)
  fix s x
  assume s: "(kv_inv K \<circ> view) s"
  then have sc: "all_scores 0 (index_key K) (view s)" by (simp add: kv_inv_def kv_wf_def)
  note run = zrangebylex_sim [OF sc assms, of lo hi]
  from run show "(kv_inv K \<circ> view) (snd (redis_zrangebylex R (index_key K) lo hi n s))"
    using s by (metis comp_apply read_commands(4) snd_map_prod)
  assume "fst (redis_zrangebylex R (index_key K) lo hi n s) = Inr x"
  with run have "fst (ks_zrangebylex (index_key K) lo hi n (view s)) = Inr x"
    by (metis fst_map_prod id_apply)
  then have "set x \<subseteq> members (view s) (index_key K)" by (rule zrange_members)
  with s show "\<forall>k \<in> set x. data_key K k" by (auto simp: kv_inv_def kv_wf_def)
qed (auto simp: as_strings_def)

lemma index_page_keeps:
  assumes "limit < 2 ^ 63 - 1"
  shows "keeps (stable (kv_inv K \<circ> view)) (index_page R K pfx after limit)"
proof -
  have "limit + 1 < 2 ^ 63" using assms by unat_arith
  then have "unat (limit + 1) < 2 ^ 63" by (simp add: word_less_nat_alt)
  then show ?thesis
    unfolding index_page_def Let_def
    by (intro keeps_after [OF lex_yields] keeps_intros fetch_keeps) (auto dest: in_set_takeD)
qed

lemma due_yields:
  assumes "\<And>s. I s \<Longrightarrow> kv_wf K (view s)" and "\<And>s t. I s \<Longrightarrow> view t = view s \<Longrightarrow> I t"
  shows "yields (stable I) (map_err f (cbind (invoke R
      (redis_zrangebyscore R (expiry_key K) NegInf hi lim)) (as_strings R))) (\<lambda>ks. \<forall>k \<in> set ks. data_key K k)"
  unfolding invoke_def
proof (intro yields_map_err yields_filter yields_trip)
  fix s x
  assume s: "I s"
  note run = zrangebyscore_sim [of "expiry_key K" NegInf hi lim]
  from run show "I (snd (redis_zrangebyscore R (expiry_key K) NegInf hi lim s))"
    by (intro assms(2) [OF s]) (simp add: sim_view read_commands)
  assume "fst (redis_zrangebyscore R (expiry_key K) NegInf hi lim s) = Inr x"
  with run have "fst (ks_zrangebyscore (expiry_key K) NegInf (dbl_bound hi) lim (view s)) = Inr x"
    by (simp add: sim_reply)
  then have "set x \<subseteq> members (view s) (expiry_key K)" by (rule zrange_members)
  with assms(1) [OF s] show "\<forall>k \<in> set x. data_key K k" by (auto simp: kv_wf_def)
qed (auto simp: as_strings_def)

lemma sweep_keeps: "pkeeps (stable (kv_inv K \<circ> view)) (sweep R K)"
proof -
  have "yields (stable (kv_inv K \<circ> view)) (map_err f (cbind (invoke R
      (redis_zrangebyscore R (expiry_key K) NegInf hi lim)) (as_strings R))) (\<lambda>ks. \<forall>k \<in> set ks. data_key K k)" for f hi lim
    by (rule due_yields) (auto simp: kv_inv_def)
  then show ?thesis
    unfolding sweep_def sweep_turn_def Let_def by (intro keeps_intros keeps_after sweep_keeps_batch)
qed

end

subsection \<open>Properties\<close>

text \<open>
  C2. The index invariants survive everything. In any world where the other clients keep them,
  whatever they do between two executions and however the round trips fail (refused, or executed with
  the reply lost), each method of the store, each listing from the index and a whole sweep leave the
  indexes well-formed, the key index complete (a listing misses no live key) and every dead index
  entry within reach of a sweep.
\<close>

theorem kv_indexes_survive:
  assumes "redis_server R view" and "stable (kv_inv K \<circ> view) w"
    and "ttl_arg_ok (ttl_ms ttl)" and "limit < 2 ^ 63 - 1"
  shows "stable (kv_inv K \<circ> view) (snd (kv_get R K key w)) \<and>
    stable (kv_inv K \<circ> view) (snd (kv_put R K key x ttl w)) \<and>
    stable (kv_inv K \<circ> view) (snd (kv_put_if_absent R K key x ttl w)) \<and>
    stable (kv_inv K \<circ> view) (snd (kv_delete R K key w)) \<and>
    stable (kv_inv K \<circ> view) (snd (kv_expire R K key ttl w)) \<and>
    stable (kv_inv K \<circ> view) (snd (kv_incr R K key delta ttl w)) \<and>
    stable (kv_inv K \<circ> view) (snd (kv_incr_floor R K key delta floor ttl w)) \<and>
    stable (kv_inv K \<circ> view) (snd (index_page R K pfx after limit w)) \<and>
    (\<forall>r u. sweep R K w = Some (r, u) \<longrightarrow> stable (kv_inv K \<circ> view) u)"
proof -
  note calls = redis_server.calls_keep(1,2,4-6) [OF assms(1,3)] redis_server.calls_keep(3) [OF assms(1)]
  show ?thesis
    by (intro conjI allI impI calls [THEN keepsD, OF assms(2)]
        keepsD [OF redis_server.get_keeps [OF assms(1)] assms(2)]
        keepsD [OF redis_server.index_page_keeps [OF assms(1,4)] assms(2)]
        pkeepsD [OF redis_server.sweep_keeps [OF assms(1)] assms(2)])
qed

text \<open>The other client of the witness claims a key; the reply to this replica is lost.\<close>

definition rival :: "ref_state \<Rightarrow> ref_state" where
  "rival s = snd (set_lua ref_ops ''p:a'' ''p#kv-index'' ''p#kv-expiry'' ''theirs'' 5000 1000 ''1'' s)"

lemma rival_keeps: "kv_inv (with_connection_manager ''p'') (ref_view s) \<Longrightarrow>
  kv_inv (with_connection_manager ''p'') (ref_view (rival s))"
  using reclaimer_inv [OF set_script.index_reclaimer_axioms, of "with_connection_manager ''p''" "ref_view s"
      ref_ops "''a''" "''theirs''" 5000 1000 "''1''"]
    sim_view [OF redis_server.set_lua_sim [OF ref.redis_server_axioms, of 5000], of "''p:a''" "''p#kv-index''" "''p#kv-expiry''" "''theirs''" 1000 "''1''" s]
  by (simp add: rival_def full_key_def with_connection_manager_def ttl_arg_ok_def)

theorem kv_indexes_survive_witness:
  "kv_inv (with_connection_manager ''p'') (ref_view (server (snd (kv_put ref_ops (with_connection_manager ''p'')
     ''a'' ''mine'' (Some 7000000)
     ((ref_world 1000 ref_empty)\<lparr>env := [rival], links := [ReplyLost ''broken pipe'']\<rparr>)))))"
proof -
  have "kv_inv (with_connection_manager ''p'') (ref_view ref_empty)"
    by (simp add: kv_inv_def kv_empty keys_apart_prefix)
  then have "stable (kv_inv (with_connection_manager ''p'') \<circ> ref_view)
      ((ref_world 1000 ref_empty)\<lparr>env := [rival], links := [ReplyLost ''broken pipe'']\<rparr>)"
    using rival_keeps by (simp add: stable_def)
  from kv_indexes_survive [OF ref.redis_server_axioms this, of "Some 7000000" 10]
  show ?thesis by (simp add: stable_def ttl_arg_ok_def ttl_ms_def)
qed

end
