(* ===== verification/Kv_Traces.thy ===== *)
theory Kv_Traces
  imports Kv_Fleet
begin

section \<open>Interleavings of the whole fleet\<close>

text \<open>
  Every write of every replica is one script, and Redis runs scripts one after the other: what a
  fleet does to the store is a sequence of \<open>kv_event\<close>s. \<open>fleet\<close> is the step relation, \<open>fleet R K s es t\<close>
  the runs from \<open>s\<close> to \<open>t\<close> with the events \<open>es\<close>.
\<close>

datatype kv_event =
    ESet string string int int string
  | EDel string
  | EExpire string int int
  | EIncr string int int int
  | EIncrFloor string int int int int
  | EPrune "string list"
  | ESweep int "string list"
  | EBackfill int "string list"
  | EElapse nat

fun run_event :: "'s redis \<Rightarrow> redis_kv \<Rightarrow> kv_event \<Rightarrow> ('s, int) cmd" where
  "run_event R K (ESet key x ttl now nx) = set_lua R (full_key K key) (index_key K) (expiry_key K) x ttl now nx"
| "run_event R K (EDel key) = del_lua R (full_key K key) (index_key K) (expiry_key K)"
| "run_event R K (EExpire key ttl now) = expire_lua R (full_key K key) (index_key K) (expiry_key K) ttl now"
| "run_event R K (EIncr key delta ttl now) =
     incr_lua R (full_key K key) (index_key K) (expiry_key K) delta ttl now"
| "run_event R K (EIncrFloor key delta ttl now floor) =
     incr_floor_lua R (full_key K key) (index_key K) (expiry_key K) delta ttl now floor"
| "run_event R K (EPrune keys) = prune_lua R (index_key K) (expiry_key K) (map (full_key K) keys)"
| "run_event R K (ESweep now keys) = sweep_lua R (index_key K) (expiry_key K) now (map (full_key K) keys)"
| "run_event R K (EBackfill now keys) = backfill_lua R (index_key K) (expiry_key K) now (map (full_key K) keys)"
| "run_event R K (EElapse d) = (\<lambda>s. (Inr 0, elapse R d s))"

fun event_ok :: "kv_event \<Rightarrow> bool" where
  "event_ok (ESet key x ttl now nx) = ttl_arg_ok ttl"
| "event_ok (EExpire key ttl now) = ttl_arg_ok ttl"
| "event_ok (EIncr key delta ttl now) = ttl_arg_ok ttl"
| "event_ok (EIncrFloor key delta ttl now floor) = ttl_arg_ok ttl"
| "event_ok _ = True"

fun backfills :: "kv_event \<Rightarrow> bool" where
  "backfills (EBackfill now keys) = True"
| "backfills _ = False"

inductive fleet :: "'s redis \<Rightarrow> redis_kv \<Rightarrow> 's \<Rightarrow> kv_event list \<Rightarrow> 's \<Rightarrow> bool" for R K s where
  start: "fleet R K s [] s"
| step: "fleet R K s es t \<Longrightarrow> event_ok e \<Longrightarrow> fleet R K s (es @ [e]) (snd (run_event R K e t))"

inductive_cases fleet_emptyE: "fleet R K s [] t"

subsection \<open>Events keep the invariants\<close>

lemma ks_elapse_ops [simp]: "elapse (ks_ops R) = ks_elapse"
  by (simp add: ks_ops_def)

lemma event_keeper: "index_keeper K (\<lambda>v. snd (run_event (ks_ops R) K e v))"
  by (cases e)
     (simp_all add: set_script.index_keeper_axioms del_script.index_keeper_axioms
       expire_script.index_keeper_axioms incr_script.index_keeper_axioms incr_floor_script.index_keeper_axioms
       prune_script.index_keeper_axioms sweep_script.index_keeper_axioms backfill_script.index_keeper_axioms
       time_step.index_keeper_axioms)

lemma event_reclaimer: "\<not> backfills e \<Longrightarrow> index_reclaimer K (\<lambda>v. snd (run_event (ks_ops R) K e v))"
  by (cases e)
     (simp_all add: set_script.index_reclaimer_axioms del_script.index_reclaimer_axioms
       expire_script.index_reclaimer_axioms incr_script.index_reclaimer_axioms
       incr_floor_script.index_reclaimer_axioms prune_script.index_reclaimer_axioms
       sweep_script.index_reclaimer_axioms time_step.index_reclaimer_axioms)

context redis_server
begin

lemma event_sim: "event_ok e \<Longrightarrow> sim view (run_event R K e) (run_event (ks_ops R) K e)"
  by (cases e)
     (simp_all add: set_lua_sim del_lua_sim expire_lua_sim incr_lua_sim incr_floor_lua_sim prune_lua_sim
       sweep_lua_sim backfill_lua_sim, simp add: sim_def elapse_view)

lemma fleet_complete:
  assumes "fleet R K s es t" and "kv_wf K (view s)" and "kv_complete K (view s)"
  shows "kv_wf K (view t) \<and> kv_complete K (view t)"
  using assms
proof (induction rule: fleet.induct)
  case (step es t e)
  then show ?case
    using index_keeper.keeps_wf [OF event_keeper, of K "view t" R e]
      index_keeper.keeps_complete [OF event_keeper, of K "view t" R e]
      sim_view [OF event_sim [OF step.hyps(2)], of K t]
    by simp
qed simp

lemma fleet_inv:
  assumes "fleet R K s es t" and "kv_inv K (view s)" and "list_all (\<lambda>e. \<not> backfills e) es"
  shows "kv_inv K (view t)"
  using assms
proof (induction rule: fleet.induct)
  case (step es t e)
  then show ?case
    using reclaimer_inv [OF event_reclaimer [of e K R]] sim_view [OF event_sim [OF step.hyps(2)], of K t]
    by simp
qed simp

end

subsection \<open>Claims\<close>

text \<open>
  \<open>spares k T es\<close>: within the next \<open>T\<close> milliseconds nobody deletes, overwrites or re-times the data
  key \<open>k\<close> in \<open>es\<close>; claims of it (\<open>SET NX\<close>) are for at least that long. \<open>wins\<close> counts the claims of
  \<open>k\<close> that were granted.
\<close>

fun spares :: "string \<Rightarrow> nat \<Rightarrow> kv_event list \<Rightarrow> bool" where
  "spares k T [] = True"
| "spares k T (ESet key x ttl now nx # es) =
     ((key = k \<longrightarrow> nx = ''1'' \<and> (ttl = 0 \<or> int T \<le> ttl)) \<and> spares k T es)"
| "spares k T (EElapse d # es) = (d \<le> T \<and> spares k (T - d) es)"
| "spares k T (EDel key # es) = (key \<noteq> k \<and> spares k T es)"
| "spares k T (EExpire key ttl now # es) = (key \<noteq> k \<and> spares k T es)"
| "spares k T (EIncr key delta ttl now # es) = (key \<noteq> k \<and> spares k T es)"
| "spares k T (EIncrFloor key delta ttl now floor # es) = (key \<noteq> k \<and> spares k T es)"
| "spares k T (_ # es) = spares k T es"

fun claims :: "string \<Rightarrow> kv_event \<Rightarrow> bool" where
  "claims k (ESet key x ttl now nx) = (key = k \<and> nx = ''1'')"
| "claims k _ = False"

fun wins :: "'s redis \<Rightarrow> redis_kv \<Rightarrow> string \<Rightarrow> kv_event list \<Rightarrow> 's \<Rightarrow> nat" where
  "wins R K k [] s = 0"
| "wins R K k (e # es) s =
     (case run_event R K e s of (r, t) \<Rightarrow>
        (if claims k e \<and> r = Inr 1 then 1 else 0) + wins R K k es t)"

text \<open>An event changes a data key only when it names it, or by letting it expire.\<close>

fun event_on :: "string \<Rightarrow> kv_event \<Rightarrow> bool" where
  "event_on k (ESet key x ttl now nx) = (key = k)"
| "event_on k (EDel key) = (key = k)"
| "event_on k (EExpire key ttl now) = (key = k)"
| "event_on k (EIncr key delta ttl now) = (key = k)"
| "event_on k (EIncrFloor key delta ttl now floor) = (key = k)"
| "event_on k (EElapse d) = True"
| "event_on k _ = False"

lemma touch_other:
  "kv_wf K v \<Longrightarrow> key \<noteq> k \<Longrightarrow> objs (touch K (full_key K key) e ia xa v) (full_key K k) = objs v (full_key K k)"
  using touch_objs [of K v "full_key K key" "full_key K k"] data_key_not_index [of K v "full_key K k"]
  by (simp add: full_key_inj)

lemma touch_retouch:
  assumes "kv_wf K v" and "data_key K j"
  shows "objs (touch K j (objs v j) ia xa v) (full_key K k) = objs v (full_key K k)"
  using touch_objs [OF assms, of "full_key K k"] data_key_not_index [OF assms(1), of "full_key K k"] by simp

lemma loop_other:
  assumes "kv_wf K v"
    and "\<And>u j. kv_wf K u \<Longrightarrow> data_key K j \<Longrightarrow> kv_wf K (snd (body j u)) \<and> objs (snd (body j u)) (full_key K k) = objs u (full_key K k)"
  shows "objs (snd (for_count body (map (full_key K) keys) n v)) (full_key K k) = objs v (full_key K k)"
proof -
  let ?w = "snd (for_count body (map (full_key K) keys) n v)"
  have "kv_wf K ?w \<and> objs ?w (full_key K k) = objs v (full_key K k)"
    by (rule for_count_inv [where P = "\<lambda>u. kv_wf K u \<and> objs u (full_key K k) = objs v (full_key K k)"])
       (use assms in auto)
  then show ?thesis ..
qed

lemma upkeep_one_other:
  assumes "kv_wf K u" and "data_key K j"
  shows "objs (snd (prune_one (ks_ops R) (index_key K) (expiry_key K) j u)) (full_key K k) = objs u (full_key K k)"
    and "objs (snd (sweep_one (ks_ops R) (index_key K) (expiry_key K) now j u)) (full_key K k) = objs u (full_key K k)"
    and "objs (snd (backfill_one (ks_ops R) (index_key K) (expiry_key K) now j u)) (full_key K k) = objs u (full_key K k)"
  using touch_retouch [OF assms, of _ _ k]
  by (cases "objs u j"; auto simp: prune_one_ks [OF assms] sweep_one_ks [OF assms] backfill_one_ks [OF assms]
      live_def split: option.splits)+

lemma upkeep_one_wf:
  assumes "kv_wf K u" and "data_key K j"
  shows "kv_wf K (snd (prune_one (ks_ops R) (index_key K) (expiry_key K) j u))"
    and "kv_wf K (snd (sweep_one (ks_ops R) (index_key K) (expiry_key K) now j u))"
    and "kv_wf K (snd (backfill_one (ks_ops R) (index_key K) (expiry_key K) now j u))"
  using assms str_entry_data [OF assms]
  by (auto simp: prune_one_ks [OF assms] sweep_one_ks [OF assms] backfill_one_ks [OF assms]
      split: option.splits intro!: touch_wf)

lemma event_other:
  assumes "kv_wf K v" and "\<not> event_on k e"
  shows "objs (snd (run_event (ks_ops R) K e v)) (full_key K k) = objs v (full_key K k)"
proof (cases e)
  case (ESet key x ttl now nx)
  with assms show ?thesis by (simp add: set_lua_ks touch_other)
next
  case (EDel key)
  with assms show ?thesis by (simp add: del_lua_ks touch_other)
next
  case (EExpire key ttl now)
  with assms show ?thesis by (auto simp: expire_lua_ks touch_other split: option.splits)
next
  case (EIncr key delta ttl now)
  with assms incr_left [OF assms(1) data_key_full, of key ttl now R delta] show ?thesis
    by (auto simp: counter_left_def touch_other)
next
  case (EIncrFloor key delta ttl now floor)
  with assms incr_floor_left [OF assms(1) data_key_full, of key ttl now R delta floor] show ?thesis
    by (auto simp: counter_left_def touch_other)
next
  case (EPrune keys)
  then show ?thesis
    by (simp add: prune_lua_def loop_other [OF assms(1)] upkeep_one_other(1) upkeep_one_wf(1))
next
  case (ESweep now keys)
  then show ?thesis
    by (simp add: sweep_lua_def loop_other [OF assms(1)] upkeep_one_other(2) upkeep_one_wf(2))
next
  case (EBackfill now keys)
  then show ?thesis
    by (simp add: backfill_lua_def loop_other [OF assms(1)] upkeep_one_other(3) upkeep_one_wf(3))
qed (use assms in simp)

subsection \<open>One winner\<close>

text \<open>The key is held for \<open>T\<close> milliseconds more, at least.\<close>

definition held :: "redis_kv \<Rightarrow> string \<Rightarrow> nat \<Rightarrow> keyspace \<Rightarrow> bool" where
  "held K k T v \<longleftrightarrow> (\<exists>x t. objs v (full_key K k) = Some (x, t) \<and> (\<forall>r. t = Some r \<longrightarrow> T \<le> r))"

text \<open>The time left for \<open>k\<close> after an event.\<close>

fun left_after :: "nat \<Rightarrow> kv_event \<Rightarrow> nat" where
  "left_after T (EElapse d) = T - d"
| "left_after T e = T"

lemma spares_Cons: "spares k T (e # es) \<Longrightarrow> spares k (left_after T e) es"
  by (cases e) auto

lemma spares_on: "spares k T (e # es) \<Longrightarrow> event_on k e \<Longrightarrow>
   (\<exists>x ttl now. e = ESet k x ttl now ''1'' \<and> (ttl = 0 \<or> int T \<le> ttl)) \<or> (\<exists>d \<le> T. e = EElapse d)"
  by (cases e) auto

lemma held_step:
  assumes wf: "kv_wf K v" and sp: "spares k T (e # es)" and held: "held K k T v"
  shows "held K k (left_after T e) (snd (run_event (ks_ops R) K e v))"
    and "claims k e \<Longrightarrow> fst (run_event (ks_ops R) K e v) = Inr 0"
proof -
  have live: "live v (full_key K k)" using held by (auto simp: held_def live_def)
  show "claims k e \<Longrightarrow> fst (run_event (ks_ops R) K e v) = Inr 0"
    using live by (cases e) (auto simp: set_lua_ks [OF wf data_key_full])
  show "held K k (left_after T e) (snd (run_event (ks_ops R) K e v))"
  proof (cases "event_on k e")
    case False
    then have "left_after T e = T" by (cases e) auto
    with held event_other [OF wf False, of R] show ?thesis by (simp add: held_def)
  next
    case True
    from spares_on [OF sp True] show ?thesis
    proof (elim disjE exE conjE)
      fix d
      assume "d \<le> T" "e = EElapse d"
      with held show ?thesis
        by (fastforce simp: held_def ks_elapse_def split: option.splits)
    qed (use live held in \<open>auto simp: set_lua_ks [OF wf data_key_full]\<close>)
  qed
qed

lemma free_step:
  assumes wf: "kv_wf K v" and sp: "spares k T (e # es)" and free: "\<not> live v (full_key K k)"
    and "event_ok e"
  shows "if claims k e then fst (run_event (ks_ops R) K e v) = Inr 1 \<and> held K k T (snd (run_event (ks_ops R) K e v))
    else \<not> live (snd (run_event (ks_ops R) K e v)) (full_key K k)"
proof (cases "event_on k e")
  case False
  then have "\<not> claims k e" by (cases e) auto
  with free event_other [OF wf False, of R] show ?thesis by (simp add: live_def)
next
  case True
  from spares_on [OF sp True]
  consider d where "e = EElapse d" | (claim) x ttl now where "e = ESet k x ttl now ''1''" "ttl = 0 \<or> int T \<le> ttl"
    by blast
  then show ?thesis
  proof cases
    case 1
    with free show ?thesis using elapse_readers(2) by auto
  next
    case claim
    note apart = data_key_not_index [OF wf data_key_full [of K k]]
    show ?thesis
      using claim free assms(4) touch_objs [OF wf data_key_full apart]
      by (auto simp: set_lua_ks [OF wf data_key_full] held_def px_of_def)
  qed
qed

context redis_server
begin

lemma held_no_wins:
  "kv_wf K (view s) \<Longrightarrow> list_all event_ok es \<Longrightarrow> spares k T es \<Longrightarrow> held K k T (view s) \<Longrightarrow> wins R K k es s = 0"
proof (induction es arbitrary: s T)
  case (Cons e es)
  have sim: "sim view (run_event R K e) (run_event (ks_ops R) K e)" using Cons.prems(2) by (simp add: event_sim)
  obtain r t where run: "run_event R K e s = (r, t)" by fastforce
  with simD [OF sim] have ks: "run_event (ks_ops R) K e (view s) = (r, view t)" by simp
  have "kv_wf K (view t)" using index_keeper.keeps_wf [OF event_keeper Cons.prems(1), of R e] ks by simp
  with Cons.IH [OF this _ spares_Cons [OF Cons.prems(3)]] Cons.prems held_step [OF Cons.prems(1,3,4), of R] ks run
  show ?case by auto
qed simp

lemma one_winner:
  "kv_wf K (view s) \<Longrightarrow> list_all event_ok es \<Longrightarrow> spares k T es \<Longrightarrow> \<not> live (view s) (full_key K k) \<Longrightarrow>
   wins R K k es s = (if list_ex (claims k) es then 1 else 0)"
proof (induction es arbitrary: s T)
  case (Cons e es)
  have sim: "sim view (run_event R K e) (run_event (ks_ops R) K e)" using Cons.prems(2) by (simp add: event_sim)
  obtain r t where run: "run_event R K e s = (r, t)" by fastforce
  with simD [OF sim] have ks: "run_event (ks_ops R) K e (view s) = (r, view t)" by simp
  have wf: "kv_wf K (view t)" using index_keeper.keeps_wf [OF event_keeper Cons.prems(1), of R e] ks by simp
  note sp = spares_Cons [OF Cons.prems(3)]
  have free: "if claims k e then r = Inr 1 \<and> held K k T (view t) else \<not> live (view t) (full_key K k)"
    using free_step [OF Cons.prems(1,3,4), of R] Cons.prems(2) ks by (auto split: if_splits)
  show ?case
  proof (cases "claims k e")
    case True
    then have "left_after T e = T" by (cases e) auto
    with True free held_no_wins [OF wf _ sp] Cons.prems(2) run show ?thesis by simp
  next
    case False
    with free Cons.IH [OF wf _ sp] Cons.prems(2) run show ?thesis by simp
  qed
qed simp

end

subsection \<open>Properties\<close>

text \<open>
  C3. Completeness of the key index is an invariant of the fleet: on any interleaving of any
  replicas' scripts (sets, deletes, expiries, counters, prunes, sweeps and backfills, with any
  arguments) and the passage of time, a key index that held every live data key holds every live
  data key, so a listing from the index never misses one.
\<close>

theorem fleet_index_complete:
  assumes "redis_server R view" and "fleet R K s es t" and "kv_wf K (view s)" and "kv_complete K (view s)"
    and "live (view t) (full_key K key)"
  shows "full_key K key \<in> members (view t) (index_key K)"
  using redis_server.fleet_complete [OF assms(1-4)] assms(5) by (auto simp: kv_complete_def)

text \<open>
  C4. Nothing leaks: as long as no backfill runs, every entry of the key index on any such
  interleaving belongs to a live key or is in the expiry index, and a key with a lifetime is in the
  expiry index, so the sweep finds every entry it has to drop.
\<close>

theorem fleet_index_reclaimable:
  assumes "redis_server R view" and "fleet R K s es t" and "kv_inv K (view s)"
    and "list_all (\<lambda>e. \<not> backfills e) es"
  shows "(\<forall>m \<in> members (view t) (index_key K). live (view t) m \<or> m \<in> members (view t) (expiry_key K)) \<and>
    (\<forall>key x r. objs (view t) (full_key K key) = Some (x, Some r) \<longrightarrow>
       full_key K key \<in> members (view t) (expiry_key K))"
  using redis_server.fleet_inv [OF assms] by (auto simp: kv_inv_def kv_reclaim_def)

text \<open>
  C5. One winner: when a data key is free, then over any interleaving of the fleet in which nobody
  deletes, overwrites or re-times it and no more time passes than the claims ask for, exactly one of
  the claims of it (\<open>put_if_absent\<close>, by whatever replicas and with whatever values) is granted, if
  there is one at all.
\<close>

theorem fleet_one_winner:
  assumes "redis_server R view" and "kv_wf K (view s)" and "list_all event_ok es" and "spares k T es"
    and "\<not> live (view s) (full_key K k)"
  shows "wins R K k es s = (if list_ex (claims k) es then 1 else 0)"
  using redis_server.one_winner [OF assms] .

text \<open>Two replicas claim the key \<open>a\<close>, a third writes another key, time passes.\<close>

definition race :: "kv_event list" where
  "race = [ESet ''a'' ''first'' 5000 1000 ''1'', EElapse 2000, ESet ''b'' ''x'' 100 1001 ''0'',
     ESet ''a'' ''second'' 9000 1002 ''1'']"

lemma race_run: "fleet ref_ops K ref_empty race (foldl (\<lambda>s e. snd (run_event ref_ops K e s)) ref_empty race)"
proof -
  have "fleet ref_ops K ref_empty (ds @ es) (foldl (\<lambda>s e. snd (run_event ref_ops K e s)) s es)"
    if "fleet ref_ops K ref_empty ds s" "list_all event_ok es" for ds es s
    using that
  proof (induction es arbitrary: ds s)
    case (Cons e es)
    then show ?case using fleet.step [of ref_ops K ref_empty ds s e] by fastforce
  qed simp
  from this [OF fleet.start, of race] show ?thesis by (simp add: race_def ttl_arg_ok_def)
qed

theorem fleet_one_winner_witness:
  "wins ref_ops (with_connection_manager ''p'') ''a'' race ref_empty = 1"
  using fleet_one_winner [OF ref.redis_server_axioms, of "with_connection_manager ''p''" ref_empty race "''a''" 5000]
  by (simp add: race_def kv_empty keys_apart_prefix ttl_arg_ok_def live_def)

theorem fleet_index_complete_witness:
  "\<exists>t. fleet ref_ops (with_connection_manager ''p'') ref_empty [ESet ''a'' ''x'' 0 1000 ''0''] t \<and>
     full_key (with_connection_manager ''p'') ''a'' \<in> members (ref_view t) (index_key (with_connection_manager ''p''))"
proof -
  let ?K = "with_connection_manager ''p''"
  let ?t = "snd (run_event ref_ops ?K (ESet ''a'' ''x'' 0 1000 ''0'') ref_empty)"
  have wf: "kv_wf ?K (ref_view ref_empty)" and c: "kv_complete ?K (ref_view ref_empty)"
    by (simp_all add: kv_empty keys_apart_prefix)
  have run: "fleet ref_ops ?K ref_empty [ESet ''a'' ''x'' 0 1000 ''0''] ?t"
    using fleet.step [OF fleet.start, of "ESet ''a'' ''x'' 0 1000 ''0''" ref_ops ?K ref_empty]
    by (simp add: ttl_arg_ok_def)
  have "live (ref_view ?t) (full_key ?K ''a'')"
    using sim_view [OF redis_server.event_sim [OF ref.redis_server_axioms],
        of "ESet ''a'' ''x'' 0 1000 ''0''" ?K ref_empty]
    by (simp add: ttl_arg_ok_def set_lua_ks [OF wf data_key_full] touch_live [OF wf data_key_full data_key_full])
  from fleet_index_complete [OF ref.redis_server_axioms run wf c this] run show ?thesis by blast
qed

theorem fleet_index_reclaimable_witness:
  "\<exists>t. fleet ref_ops (with_connection_manager ''p'') ref_empty race t \<and>
     members (ref_view t) (index_key (with_connection_manager ''p'')) \<inter> {m. \<not> live (ref_view t) m} \<subseteq>
     members (ref_view t) (expiry_key (with_connection_manager ''p''))"
proof -
  let ?K = "with_connection_manager ''p''"
  have "kv_inv ?K (ref_view ref_empty)" by (simp add: kv_inv_def kv_empty keys_apart_prefix)
  from fleet_index_reclaimable [OF ref.redis_server_axioms race_run this] race_run [of ?K]
  show ?thesis by (auto simp: race_def)
qed

end
