(* ===== verification/Kv_Listing.thy ===== *)
theory Kv_Listing
  imports Kv_Traces
begin

section \<open>Listings from the key index\<close>

text \<open>
  A page is the next keys of the index in byte order, with the entries of the live ones; a pass
  follows the cursors. Its specification: the live keys under the prefix, each once, in byte order.
\<close>

subsection \<open>The range a page reads\<close>

definition under :: "redis_kv \<Rightarrow> keyspace \<Rightarrow> string \<Rightarrow> string option \<Rightarrow> string list" where
  "under K v pfx after =
     filter (\<lambda>m. prefix (full_key K pfx) m \<and> (case after of None \<Rightarrow> True | Some a \<Rightarrow> a < m))
       (sorted_list_of_set (members v (index_key K)))"

lemma sort_members: "zset_ok v z \<Longrightarrow> sort (map fst (zset_at v z)) = sorted_list_of_set (members v z)"
  using zset_ok_distinct [of v z] by (simp add: members_def sorted_list_of_set_sort_remdups distinct_remdups_id flip: set_map)

lemma finite_members [simp]: "finite (members v z)"
  by (simp add: members_def)

lemma zrange_under:
  assumes wf: "kv_wf K v" and utf: "\<And>m. m \<in> members v (index_key K) \<Longrightarrow> valid_utf8 m"
    and after: "\<And>a. after = Some a \<Longrightarrow> prefix (full_key K pfx) a"
  shows "ks_zrangebylex (index_key K)
      (case after of Some a \<Rightarrow> LexExcl a | None \<Rightarrow> LexIncl (full_key K pfx))
      (LexExcl (full_key K pfx @ [CHR 0xFF])) n v = (Inr (take n (under K v pfx after)), v)"
proof -
  let ?fp = "full_key K pfx"
  let ?lo = "case after of Some a \<Rightarrow> LexExcl a | None \<Rightarrow> LexIncl ?fp"
  have in_range: "above_lex ?lo m \<and> below_lex (LexExcl (?fp @ [CHR 0xFF])) m \<longleftrightarrow>
      prefix ?fp m \<and> (case after of None \<Rightarrow> True | Some a \<Rightarrow> a < m)"
    if "m \<in> members v (index_key K)" for m
  proof (cases after)
    case None
    then show ?thesis using prefix_range [OF valid_utf8_no_ff [OF utf [OF that]], of ?fp] by simp
  next
    case (Some a)
    have "?fp \<le> m" if "a < m" using prefix_above [OF after [OF Some]] that by simp
    then show ?thesis using prefix_range [OF valid_utf8_no_ff [OF utf [OF that]], of ?fp] Some by auto
  qed
  have "lex_range ?lo (LexExcl (?fp @ [CHR 0xFF])) (zset_at v (index_key K)) = under K v pfx after"
    unfolding lex_range_def under_def sort_members [OF kv_wfD(2) [OF wf]]
    by (rule filter_cong) (use in_range in auto)
  moreover have "zset_slot v (index_key K)" using kv_wfD(2) [OF wf] by simp
  ultimately show ?thesis
    by (auto simp: ks_zrangebylex_def zread_def zset_at_def zset_slot_def split: option.splits robj.splits)
qed

subsection \<open>Fetching the entries of a page\<close>

definition shown :: "int \<Rightarrow> keyspace \<Rightarrow> string \<Rightarrow> entry option" where
  "shown now v k = map_option (\<lambda>(x, t). \<lparr>bytes = x, expires_at = map_option (\<lambda>t. now + int t) t\<rparr>) (str_at v k)"

definition live_entries :: "int \<Rightarrow> redis_kv \<Rightarrow> keyspace \<Rightarrow> string list \<Rightarrow> (string \<times> entry) list" where
  "live_entries now K v ks = [(logical_key K k, e). k \<leftarrow> ks, e \<leftarrow> (case shown now v k of None \<Rightarrow> [] | Some e \<Rightarrow> [e])]"

definition pttl_at :: "keyspace \<Rightarrow> string \<Rightarrow> int" where
  "pttl_at v k = (case str_at v k of None \<Rightarrow> -2 | Some (x, None) \<Rightarrow> -1 | Some (x, Some t) \<Rightarrow> int t)"

lemma entry_of_shown: "entry_of now (map_option fst (str_at v k)) (pttl_at v k) = shown now v k"
  by (auto simp: entry_of_def shown_def pttl_at_def split: option.splits)

lemma pttl_str: "str_slot v k \<Longrightarrow> ks_pttl k v = (Inr (pttl_at v k), v)"
  by (auto simp: ks_pttl_def pttl_at_def str_at_def str_slot_def split: option.splits robj.splits)

lemma sift_found:
  "sift K now (zip ks (map (\<lambda>k. (map_option fst (str_at v k), pttl_at v k)) ks)) =
    (live_entries now K v ks, filter (\<lambda>k. str_at v k = None) ks)"
  by (induction ks) (auto simp: live_entries_def entry_of_shown shown_def split: option.splits)

subsection \<open>Pruning\<close>

lemma prune_ks:
  assumes "kv_wf K v" and "\<forall>k \<in> set ks. data_key K k"
  shows "\<exists>u. for_count (prune_one (ks_ops R) (index_key K) (expiry_key K)) ks n v =
      (Inr (n + int (length (filter (\<lambda>k. \<not> live v k) ks))), u) \<and> kv_wf K u \<and>
    (\<forall>j. data_key K j \<longrightarrow> objs u j = objs v j) \<and>
    members u (index_key K) = members v (index_key K) - {k \<in> set ks. \<not> live v k}"
  using assms
proof (induction ks arbitrary: n v)
  case Nil
  then show ?case by (simp add: ret_def)
next
  case (Cons k ks)
  then have dk: "data_key K k" by simp
  obtain d t where one: "prune_one (ks_ops R) (index_key K) (expiry_key K) k v = (Inr d, t)"
    and d: "d = (if live v k then 0 else 1)" and t: "t = (if live v k then v else touch K k None ZDel ZDel v)"
    using prune_one_ks [OF Cons.prems(1) dk, of R] by (auto split: if_splits)
  have wf: "kv_wf K t"
    using upkeep_one_wf(1) [OF Cons.prems(1) dk, of R] one by simp
  have same: "objs t j = objs v j" if "data_key K j" for j
    using that one upkeep_one_other(1) [OF Cons.prems(1) dk, of R] by (auto simp: data_key_iff)
  have mem: "members t (index_key K) = members v (index_key K) - (if live v k then {} else {k})"
    using t touch_members(1) [OF Cons.prems(1) dk] by auto
  from Cons.IH [OF wf, of "n + d"] Cons.prems(2) obtain u where
    "for_count (prune_one (ks_ops R) (index_key K) (expiry_key K)) ks (n + d) t =
      (Inr (n + d + int (length (filter (\<lambda>k. \<not> live t k) ks))), u)" "kv_wf K u"
    "\<forall>j. data_key K j \<longrightarrow> objs u j = objs t j"
    "members u (index_key K) = members t (index_key K) - {k \<in> set ks. \<not> live t k}"
    by auto
  moreover have "live t j = live v j" if "j \<in> set ks" for j
    using that same [of j] Cons.prems(2) by (simp add: live_def)
  then have "filter (\<lambda>k. \<not> live t k) ks = filter (\<lambda>k. \<not> live v k) ks" "{k \<in> set ks. \<not> live t k} = {k \<in> set ks. \<not> live v k}"
    by (auto intro: filter_cong)
  ultimately show ?case using one same d mem by (auto simp: cbind_def)
qed

text \<open>The listing drops the index entries of the gone keys it came across, and nothing else.\<close>

definition pruned :: "redis_kv \<Rightarrow> string set \<Rightarrow> keyspace \<Rightarrow> keyspace \<Rightarrow> bool" where
  "pruned K ks v u \<longleftrightarrow> kv_wf K u \<and> (\<forall>j. data_key K j \<longrightarrow> objs u j = objs v j) \<and>
     members u (index_key K) = members v (index_key K) - {k \<in> ks. \<not> live v k}"

subsection \<open>A page in a quiet world\<close>

context redis_server
begin

lemma pair_calm:
  assumes "env w = []" and "str_slot (view (server w)) k"
  shows "\<exists>s. pipe2 (exec (redis_get R k)) (exec (redis_pttl R k)) w =
    (Inr (map_option fst (str_at (view (server w)) k), pttl_at (view (server w)) k), w\<lparr>server := s\<rparr>) \<and>
    view s = view (server w)"
proof -
  let ?v = "view (server w)"
  obtain s where g: "redis_get R k (server w) = (Inr (map_option fst (str_at ?v k)), s)" and s: "view s = ?v"
    using sim_run [OF get_sim ks_get_str [OF assms(2)]] by blast
  obtain t where "redis_pttl R k s = (Inr (pttl_at ?v k), t)" and "view t = ?v"
    using sim_run [OF pttl_sim, of k s] pttl_str [OF assms(2)] s by metis
  with g assms(1) show ?thesis by (intro exI [of _ t]) (simp add: pipe2_def exec_calm)
qed

lemma pairs_calm:
  assumes "env w = []" and "\<forall>k \<in> set ks. str_slot (view (server w)) k"
  shows "\<exists>s. pipe_all (map (\<lambda>k. pipe2 (exec (redis_get R k)) (exec (redis_pttl R k))) ks) w =
    (Inr (map (\<lambda>k. (map_option fst (str_at (view (server w)) k), pttl_at (view (server w)) k)) ks), w\<lparr>server := s\<rparr>) \<and>
    view s = view (server w)"
  using assms
proof (induction ks arbitrary: w)
  case Nil
  then show ?case by (auto simp: ret_def intro!: exI [of _ "server w"])
next
  case (Cons k ks)
  then obtain s where "pipe2 (exec (redis_get R k)) (exec (redis_pttl R k)) w =
      (Inr (map_option fst (str_at (view (server w)) k), pttl_at (view (server w)) k), w\<lparr>server := s\<rparr>)"
    and s: "view s = view (server w)"
    using pair_calm [of w k] by auto
  moreover from Cons.IH [of "w\<lparr>server := s\<rparr>"] Cons.prems s obtain t where
    "pipe_all (map (\<lambda>k. pipe2 (exec (redis_get R k)) (exec (redis_pttl R k))) ks) (w\<lparr>server := s\<rparr>) =
      (Inr (map (\<lambda>k. (map_option fst (str_at (view (server w)) k), pttl_at (view (server w)) k)) ks), w\<lparr>server := t\<rparr>)"
    "view t = view (server w)"
    by auto
  ultimately show ?case by (auto simp: cbind_def pcall_def pipe2_def [of _ "pipe_all _"] ret_def)
qed

lemma fetch_quiet:
  assumes "quiet w" and wf: "kv_wf K (view (server w))" and dk: "\<forall>k \<in> set ks. data_key K k"
  shows "\<exists>u now. fetch_entries R K ks True w = (Inr (live_entries now K (view (server w)) ks), u) \<and>
    quiet u \<and> pruned K (set ks) (view (server w)) (view (server u))"
proof (cases "ks = []")
  case True
  with assms show ?thesis by (auto simp: fetch_entries_def ret_def live_entries_def pruned_def)
next
  case False
  let ?v = "view (server w)"
  let ?w = "w\<lparr>links := tl (links w)\<rparr>"
  let ?gone = "filter (\<lambda>k. str_at ?v k = None) ks"
  let ?prune = "prune_lua R (index_key K) (expiry_key K) ?gone"
  have slot: "\<forall>k \<in> set ks. str_slot ?v k" using kv_wfD(5) [OF wf] dk by blast
  have env: "env w = []" and up: "\<forall>l \<in> set (tl (links w)). l = Up"
    using assms(1) by (cases "links w"; auto simp: quiet_def)+
  obtain s where pipe: "pipe_all (map (\<lambda>k. pipe2 (exec (redis_get R k)) (exec (redis_pttl R k))) ks) ?w =
      (Inr (map (\<lambda>k. (map_option fst (str_at ?v k), pttl_at ?v k)) ks), ?w\<lparr>server := s\<rparr>)" and s: "view s = ?v"
    using pairs_calm [of ?w ks] env slot by auto
  define u where "u = pass_time (?w\<lparr>server := s\<rparr>)"
  have u: "quiet u" "view (server u) = ?v" using env up s by (simp_all add: u_def quiet_def)
  have run: "fetch_entries R K ks True w =
    (if ?gone \<noteq> [] then cbind (pcall (invoke R ?prune)) (\<lambda>_. ret (live_entries (wall u) K ?v ks)) u
     else (Inr (live_entries (wall u) K ?v ks), u))"
    using False pipe
    by (simp add: fetch_entries_def cbind_def [of "map_err _ _"] map_err_def round_trip_up [OF quiet_up [OF assms(1)]]
        reading_def sift_found ret_def flip: u_def)
  have dead: "live ?v k \<longleftrightarrow> str_at ?v k \<noteq> None" if "k \<in> set ks" for k using slot live_str_at that by blast
  show ?thesis
  proof (cases "?gone = []")
    case True
    then have "{k \<in> set ks. \<not> live ?v k} = {}" using dead by (auto simp: filter_empty_conv)
    with True run u wf show ?thesis by (auto simp: pruned_def)
  next
    case False
    obtain y where y: "prune_lua (ks_ops R) (index_key K) (expiry_key K) ?gone ?v =
        (Inr (int (length (filter (\<lambda>k. \<not> live ?v k) ?gone))), y)" "kv_wf K y" "\<forall>j. data_key K j \<longrightarrow> objs y j = objs ?v j"
      "members y (index_key K) = members ?v (index_key K) - {k \<in> set ?gone. \<not> live ?v k}"
      using prune_ks [OF wf, of ?gone R 0] dk unfolding prune_lua_def by auto
    obtain x where x: "invoke R ?prune u = (Inr (int (length (filter (\<lambda>k. \<not> live ?v k) ?gone))), x)" "view (server x) = y" "quiet x"
      using invoke_quiet [OF u(1) prune_lua_sim, of "index_key K" "expiry_key K" ?gone] u(2) y(1) by auto
    have "{k \<in> set ?gone. \<not> live ?v k} = {k \<in> set ks. \<not> live ?v k}"
      unfolding set_filter using dead by blast
    with False run x y show ?thesis
      by (auto simp: cbind_def pcall_def ret_def pruned_def)
  qed
qed

lemma index_page_quiet:
  assumes "quiet w" and wf: "kv_wf K (view (server w))"
    and utf: "\<And>m. m \<in> members (view (server w)) (index_key K) \<Longrightarrow> valid_utf8 m"
    and after: "\<And>a. after = Some a \<Longrightarrow> prefix (full_key K pfx) a" and lim: "limit < 2 ^ 63 - 1"
    and L: "L = under K (view (server w)) pfx after" and n: "n = unat limit" "0 < n"
  shows "\<exists>u now. index_page R K pfx after limit w = (Inr \<lparr>entries = live_entries now K (view (server w)) (take n L),
      next_page = (if n < length L then Some (CHR ''i'' # last (take n L)) else None)\<rparr>, u) \<and>
    quiet u \<and> pruned K (set (take n L)) (view (server w)) (view (server u))"
proof -
  let ?v = "view (server w)"
  let ?lo = "case after of Some a \<Rightarrow> LexExcl a | None \<Rightarrow> LexIncl (full_key K pfx)"
  let ?m = "redis_zrangebylex R (index_key K) ?lo (LexExcl (full_key K pfx @ [CHR 0xFF])) (Suc n)"
  have small: "Suc n < 2 ^ 63" and suc: "unat (limit + 1) = Suc n"
    using lim n(1) by (simp_all add: word_less_nat_alt unat_word_ariths)
  have LS: "set L \<subseteq> members ?v (index_key K)" by (auto simp: L under_def)
  obtain s where run: "?m (server w) = (Inr (take (Suc n) L), s)" and s: "view s = ?v"
    using zrangebylex_sim [OF kv_wfD(4) [OF wf] small, of ?lo "LexExcl (full_key K pfx @ [CHR 0xFF])"]
      zrange_under [of K ?v after pfx "Suc n", OF wf utf after]
    by (cases "?m (server w)") (auto simp: L)
  obtain u where u: "invoke R ?m w = (Inr (take (Suc n) L), u)" "quiet u" "view (server u) = ?v"
    using quiet_trip [where m = ?m, OF assms(1) run, of "show_error R"] s by (auto simp: invoke_def)
  have "list_all valid_utf8 (take (Suc n) L)"
    using utf LS by (auto simp: list_all_iff dest: in_set_takeD)
  then have keys: "map_err redis_err (cbind (invoke R ?m) (as_strings R)) w = (Inr (take (Suc n) L), u)"
    using u(1) by (simp add: map_err_def cbind_def as_strings_def ret_def)
  have "\<forall>k \<in> set (take n L). data_key K k"
    using LS kv_wfD(6) [OF wf] by (auto dest: in_set_takeD)
  from fetch_quiet [OF u(2) _ this] u(3) wf obtain x now where
    x: "fetch_entries R K (take n L) True u = (Inr (live_entries now K ?v (take n L)), x)" "quiet x"
    "pruned K (set (take n L)) ?v (view (server x))" by auto
  have "unat limit < length (take (Suc n) L) \<longleftrightarrow> n < length L" "take (unat limit) (take (Suc n) L) = take n L"
    "n < length L \<Longrightarrow> take n L \<noteq> []"
    using n by (auto simp: min_def)
  with x keys show ?thesis
    unfolding index_page_def Let_def suc
    by (auto simp: cbind_def [where m = "map_err _ _"] cbind_def [where m = "fetch_entries _ _ _ _"] ret_def
        intro!: exI [of _ x] exI [of _ now])
qed

end

subsection \<open>A whole pass\<close>

text \<open>Following the cursors of \<open>list_page\<close> from the first page to the last.\<close>

inductive listing_pass :: "'s redis \<Rightarrow> cursor_json \<Rightarrow> redis_kv \<Rightarrow> string \<Rightarrow> u64 \<Rightarrow>
    's world \<Rightarrow> string option \<Rightarrow> (string \<times> entry) list \<Rightarrow> 's world \<Rightarrow> bool" for R J K pfx lim where
  last_page: "kv_list_page R J K pfx cur lim w = Some (Inr pg, u) \<Longrightarrow> next_page pg = None \<Longrightarrow>
    listing_pass R J K pfx lim w cur (entries pg) u"
| more_pages: "kv_list_page R J K pfx cur lim w = Some (Inr pg, u) \<Longrightarrow> next_page pg = Some c \<Longrightarrow>
    listing_pass R J K pfx lim u (Some c) es v \<Longrightarrow> listing_pass R J K pfx lim w cur (entries pg @ es) v"

text \<open>The caller's keys and values among full keys.\<close>

definition listed :: "redis_kv \<Rightarrow> keyspace \<Rightarrow> string list \<Rightarrow> (string \<times> string) list" where
  "listed K v ks = concat (map (\<lambda>k. case str_at v k of None \<Rightarrow> [] | Some (x, t) \<Rightarrow> [(logical_key K k, x)]) ks)"

definition key_values :: "(string \<times> entry) list \<Rightarrow> (string \<times> string) list" where
  "key_values es = map (\<lambda>(k, e). (k, bytes e)) es"

lemma key_values_append [simp]: "key_values (es @ fs) = key_values es @ key_values fs"
  by (simp add: key_values_def)

lemma key_values_live: "key_values (live_entries now K v ks) = listed K v ks"
  by (induction ks) (auto simp: key_values_def live_entries_def listed_def shown_def split: option.splits)

lemma listed_append: "listed K v (ks @ js) = listed K v ks @ listed K v js"
  by (simp add: listed_def)

lemma listed_cong: "(\<And>k. k \<in> set ks \<Longrightarrow> objs u k = objs v k) \<Longrightarrow> listed K u ks = listed K v ks"
  unfolding listed_def by (intro arg_cong [of _ _ concat] map_cong) (simp_all add: str_at_def)

lemma after_page:
  "sorted xs \<Longrightarrow> distinct xs \<Longrightarrow> 0 < n \<Longrightarrow> n < length xs \<Longrightarrow> filter (\<lambda>m. last (take n xs) < m) xs = drop n xs"
proof -
  assume xs: "sorted xs" "distinct xs" and n: "0 < n" "n < length xs"
  let ?a = "last (take n xs)"
  have split: "xs = take n xs @ drop n xs" by simp
  have a: "?a \<in> set (take n xs)" using n by (intro last_in_set) auto
  have "x \<le> ?a" if "x \<in> set (take n xs)" for x
    using that sorted_wrt_take [OF xs(1), of n] by (cases "take n xs" rule: rev_cases) (auto simp: sorted_append)
  moreover have "?a < x" if "x \<in> set (drop n xs)" for x
  proof -
    have "?a \<le> x" using that a xs(1) split by (metis sorted_append)
    moreover have "?a \<noteq> x" using that a xs(2) set_take_disj_set_drop_if_distinct [of xs n n] by auto
    ultimately show ?thesis by simp
  qed
  ultimately have "filter (\<lambda>m. ?a < m) (take n xs) = []" "filter (\<lambda>m. ?a < m) (drop n xs) = drop n xs"
    by (auto simp: filter_empty_conv filter_id_conv not_less)
  then show ?thesis by (metis append_Nil filter_append split)
qed

lemma under_sorted: "sorted (under K v pfx after)" "distinct (under K v pfx after)"
  by (simp_all add: under_def sorted_wrt_filter)

lemma under_next:
  assumes pr: "pruned K (set (take n L)) v u" and L: "L = under K v pfx after" and n: "0 < n" "n < length L"
  shows "under K u pfx (Some (last (take n L))) = drop n L"
proof -
  let ?a = "last (take n L)"
  have page: "drop n L = filter (\<lambda>m. ?a < m) L"
    using after_page [OF under_sorted, of n K v pfx after] n by (simp add: L)
  have a: "?a \<in> set L" using n by (metis in_set_takeD last_in_set take_eq_Nil2 gr_implies_not0 less_nat_zero_code list.size(3))
  have above: "after = Some b \<Longrightarrow> b < ?a" for b using a by (auto simp: L under_def)
  have gone: "m \<notin> set (take n L)" if "?a < m" for m
    using that sorted_wrt_take [OF under_sorted(1) [of K v pfx after], of n] n
    by (cases "take n L" rule: rev_cases) (auto simp: L [symmetric] sorted_append)
  show ?thesis
  proof (rule sorted_distinct_set_unique)
    have L_set: "set L = {m \<in> members v (index_key K). prefix (full_key K pfx) m \<and>
        (case after of None \<Rightarrow> True | Some b \<Rightarrow> b < m)}"
      by (auto simp: L under_def)
    have u_set: "set (under K u pfx (Some ?a)) = {m \<in> members u (index_key K). prefix (full_key K pfx) m \<and> ?a < m}"
      by (auto simp: under_def)
    show "set (under K u pfx (Some ?a)) = set (drop n L)"
      unfolding page u_set set_filter L_set
      using pr gone above by (cases after) (fastforce simp: pruned_def)+
  qed (use under_sorted [of K u pfx] under_sorted [of K v pfx after] in \<open>auto simp: L [symmetric] sorted_wrt_drop\<close>)
qed

context redis_server
begin

lemma pass_quiet:
  assumes "quiet w" and "kv_wf K (view (server w))"
    and "\<forall>m \<in> members (view (server w)) (index_key K). valid_utf8 m"
    and "\<forall>a. after = Some a \<longrightarrow> prefix (full_key K pfx) a" and "lim < 2 ^ 63 - 1"
    and "index_ready K" and "cur = map_option (\<lambda>a. CHR ''i'' # a) after"
  shows "\<exists>es u. listing_pass R J K pfx lim w cur es u \<and>
    key_values es = listed K (view (server w)) (under K (view (server w)) pfx after)"
  using assms(1-4,7)
proof (induction "length (under K (view (server w)) pfx after)" arbitrary: w after cur rule: less_induct)
  case less
  let ?v = "view (server w)"
  let ?L = "under K ?v pfx after" and ?n = "unat (max lim 1)"
  have page: "kv_list_page R J K pfx cur lim w = Some (index_page R K pfx after (max lim 1) w)"
    using less.prems(5) assms(6) by (cases after) (simp_all add: kv_list_page_def Let_def pure_def)
  have n: "0 < ?n" and small: "max lim 1 < 2 ^ 63 - 1"
    using assms(5) by (auto simp: max_def unat_gt_0)
  obtain u now where pg: "index_page R K pfx after (max lim 1) w = (Inr \<lparr>entries = live_entries now K ?v (take ?n ?L),
      next_page = (if ?n < length ?L then Some (CHR ''i'' # last (take ?n ?L)) else None)\<rparr>, u)"
    and u: "quiet u" "pruned K (set (take ?n ?L)) ?v (view (server u))"
    using index_page_quiet [OF less.prems(1,2) _ _ small refl refl n, of after pfx] less.prems(3,4) by blast
  show ?case
  proof (cases "?n < length ?L")
    case False
    then have "listing_pass R J K pfx lim w cur (live_entries now K ?v ?L) u"
      using listing_pass.last_page [of R J K pfx cur lim w, OF page [unfolded pg]] by simp
    then show ?thesis using key_values_live by blast
  next
    case True
    let ?a = "last (take ?n ?L)" and ?u = "view (server u)"
    have rest: "under K ?u pfx (Some ?a) = drop ?n ?L" using under_next [OF u(2) refl n True] .
    have "?a \<in> set ?L" using n True by (metis in_set_takeD last_in_set take_eq_Nil2 gr_implies_not0 less_nat_zero_code list.size(3))
    then have pa: "prefix (full_key K pfx) ?a" by (simp add: under_def)
    have wf: "kv_wf K ?u" and utf: "\<forall>m \<in> members ?u (index_key K). valid_utf8 m"
      using u(2) less.prems(3) by (auto simp: pruned_def)
    have "length (under K ?u pfx (Some ?a)) < length ?L" unfolding rest using n True by (simp add: length_drop)
    from less.hyps [OF this u(1) wf utf _ refl] pa obtain es x where
      es: "listing_pass R J K pfx lim u (Some (CHR ''i'' # ?a)) es x" "key_values es = listed K ?u (drop ?n ?L)"
      unfolding rest by auto
    have "listed K ?u (drop ?n ?L) = listed K ?v (drop ?n ?L)"
    proof (rule listed_cong)
      fix k
      assume "k \<in> set (drop ?n ?L)"
      then have "k \<in> members ?v (index_key K)" by (auto simp: under_def dest!: in_set_dropD)
      with kv_wfD(6) [OF less.prems(2)] u(2) show "objs ?u k = objs ?v k" by (auto simp: pruned_def)
    qed
    moreover have "listing_pass R J K pfx lim w cur (live_entries now K ?v (take ?n ?L) @ es) x"
      using listing_pass.more_pages [of R J K pfx cur lim w, OF page [unfolded pg]] es(1) True by simp
    ultimately show ?thesis
      using es(2) listed_append [of K ?v "take ?n ?L" "drop ?n ?L"] key_values_live by (metis append_take_drop_id key_values_append)
  qed
qed

end

subsection \<open>Properties\<close>

text \<open>The live keys under a prefix, as the caller names them.\<close>

definition keys_under :: "redis_kv \<Rightarrow> keyspace \<Rightarrow> string \<Rightarrow> string set" where
  "keys_under K v pfx = {key. prefix pfx key \<and> contents K v key \<noteq> None}"

lemma listed_filter: "listed K v ks = map (\<lambda>k. (logical_key K k, fst (the (str_at v k)))) (filter (\<lambda>k. str_at v k \<noteq> None) ks)"
  by (induction ks) (auto simp: listed_def split: option.splits)

lemma live_under:
  assumes wf: "kv_wf K v" and c: "kv_complete K v"
  shows "filter (\<lambda>k. str_at v k \<noteq> None) (under K v pfx None) = map (full_key K) (sorted_list_of_set (keys_under K v pfx))"
proof (rule sorted_distinct_set_unique)
  have full: "full_key K ` keys_under K v pfx = {m \<in> members v (index_key K). prefix (full_key K pfx) m \<and> str_at v m \<noteq> None}"
  proof (intro equalityI subsetI)
    fix m
    assume "m \<in> full_key K ` keys_under K v pfx"
    then obtain key where "m = full_key K key" "prefix pfx key" "contents K v key \<noteq> None"
      by (auto simp: keys_under_def)
    with c contents_live [OF wf, of key] show "m \<in> {m \<in> members v (index_key K). prefix (full_key K pfx) m \<and> str_at v m \<noteq> None}"
      by (auto simp: kv_complete_def full_key_prefix_iff contents_def)
  next
    fix m
    assume m: "m \<in> {m \<in> members v (index_key K). prefix (full_key K pfx) m \<and> str_at v m \<noteq> None}"
    then obtain key where "m = full_key K key" using kv_wfD(6) [OF wf] by (auto simp: data_key_iff)
    with m show "m \<in> full_key K ` keys_under K v pfx"
      by (auto simp: keys_under_def contents_def full_key_prefix_iff)
  qed
  then have "finite (full_key K ` keys_under K v pfx)" by (metis (no_types, lifting) finite_members finite_subset mem_Collect_eq subsetI)
  then have fin: "finite (keys_under K v pfx)"
    by (rule finite_imageD) (auto simp: inj_on_def full_key_inj)
  show "set (filter (\<lambda>k. str_at v k \<noteq> None) (under K v pfx None)) = set (map (full_key K) (sorted_list_of_set (keys_under K v pfx)))"
    using full fin by (auto simp: under_def)
  show "sorted (map (full_key K) (sorted_list_of_set (keys_under K v pfx)))"
    by (simp add: sorted_wrt_map full_key_le)
  show "distinct (map (full_key K) (sorted_list_of_set (keys_under K v pfx)))"
    by (simp add: distinct_map inj_on_def full_key_inj)
qed (use under_sorted in \<open>simp_all add: sorted_wrt_filter\<close>)

text \<open>
  C9. A listing pass over a complete index returns, and returns exactly the live keys under the
  prefix with their values: each once, in byte order, whatever the page size. (In a quiet world, for
  a store whose listings read the index; the index holds text, as every writer's keys are.)
\<close>

theorem list_page_pass:
  assumes "redis_server R view" and "quiet w" and "kv_wf K (view (server w))" and "kv_complete K (view (server w))"
    and "\<forall>m \<in> members (view (server w)) (index_key K). valid_utf8 m"
    and "lim < 2 ^ 63 - 1" and "index_ready K"
  shows "\<exists>es u. listing_pass R J K pfx lim w None es u \<and>
    key_values es = map (\<lambda>key. (key, fst (the (contents K (view (server w)) key))))
      (sorted_list_of_set (keys_under K (view (server w)) pfx))"
proof -
  have "listed K (view (server w)) (under K (view (server w)) pfx None) =
    map (\<lambda>key. (key, fst (the (contents K (view (server w)) key)))) (sorted_list_of_set (keys_under K (view (server w)) pfx))"
    unfolding listed_filter live_under [OF assms(3,4)] by (simp add: contents_def)
  with redis_server.pass_quiet [OF assms(1-3,5) _ assms(6,7), of None pfx None J] show ?thesis by auto
qed

text \<open>
  The largest limit lists nothing: \<open>limit + 1\<close> wraps to 0 for \<open>usize::MAX\<close> (in a build without
  overflow checks), the server is asked for no key, and the caller gets an empty page without a
  cursor, as if the store held nothing under the prefix.
\<close>

theorem list_page_limit_wraps:
  assumes "redis_server R view" and "quiet w" and "kv_wf K (view (server w))" and "index_ready K"
  shows "\<exists>u. kv_list_page R J K pfx None (- 1) w = Some (Inr \<lparr>entries = [], next_page = None\<rparr>, u)"
proof -
  let ?m = "redis_zrangebylex R (index_key K) (LexIncl (full_key K pfx)) (LexExcl (full_key K pfx @ [CHR 0xFF])) 0"
  have "zset_slot (view (server w)) (index_key K)" using kv_wfD(2) [OF assms(3)] by simp
  then have "fst (?m (server w)) = Inr []"
    using redis_server.zrangebylex_sim [OF assms(1) kv_wfD(4) [OF assms(3)], of 0 "LexIncl (full_key K pfx)" "LexExcl (full_key K pfx @ [CHR 0xFF])"]
    by (cases "?m (server w)") (auto simp: ks_zrangebylex_def zread_def zset_slot_def split: option.splits robj.splits)
  then obtain s where "?m (server w) = (Inr [], s)" by (metis prod.collapse)
  from quiet_trip [where m = ?m, OF assms(2) this, of "show_error R"]
  obtain u where u: "invoke R ?m w = (Inr [], u)" by (auto simp: invoke_def)
  have "max (- 1) 1 = (- 1 :: u64)" by (simp add: max.absorb1)
  then show ?thesis
    using assms(4) u
    by (auto simp: kv_list_page_def pure_def index_page_def Let_def cbind_def map_err_def as_strings_def ret_def fetch_entries_def)
qed

subsection \<open>Witnesses\<close>

text \<open>Two keys, stored and indexed; a store that reads the index.\<close>

definition two_keys :: "ref_state world" where
  "two_keys = ref_world 1000 \<lparr>table = [(''p:b'', RStr ''2'', None), (''p:a'', RStr ''1'', None),
     (''p#kv-index'', RZset [(''p:a'', 0), (''p:b'', 0)], None)], log = []\<rparr>"

definition ready_store :: redis_kv where
  "ready_store = set_index_ready (with_connection_manager ''p'') True"

definition no_json :: cursor_json where
  "no_json = \<lparr>to_string = \<lambda>_. Inl ''none'', from_str = \<lambda>_. None\<rparr>"

lemma ready_store_simps [simp]:
  "key_prefix ready_store = ''p''" "index_key ready_store = ''p#kv-index''" "expiry_key ready_store = ''p#kv-expiry''"
  "complete_key ready_store = ''p#kv-index-complete''" "index_ready ready_store"
  by (simp_all add: ready_store_def set_index_ready_def with_connection_manager_def)

lemma two_keys_objs: "objs (ref_view (server two_keys)) = [''p:b'' \<mapsto> (RStr ''2'', None), ''p:a'' \<mapsto> (RStr ''1'', None),
    ''p#kv-index'' \<mapsto> (RZset [(''p:a'', 0), (''p:b'', 0)], None)]"
  by (auto simp: two_keys_def ref_view_def)

lemma two_keys_facts:
  shows "quiet two_keys" and "kv_wf ready_store (ref_view (server two_keys))"
    and "kv_complete ready_store (ref_view (server two_keys))"
    and "members (ref_view (server two_keys)) (index_key ready_store) = {''p:a'', ''p:b''}"
    and "contents ready_store (ref_view (server two_keys)) = [''a'' \<mapsto> (''1'', None), ''b'' \<mapsto> (''2'', None)]"
proof -
  note defs = two_keys_objs zset_ok_def all_scores_def str_slot_def members_def zset_at_def live_def data_key_def full_key_def
  show "quiet two_keys" by (simp add: two_keys_def)
  show "kv_wf ready_store (ref_view (server two_keys))"
    unfolding kv_wf_def by (auto simp: defs keys_apart_def)
  show "kv_complete ready_store (ref_view (server two_keys))"
    unfolding kv_complete_def by (auto simp: defs)
  show "members (ref_view (server two_keys)) (index_key ready_store) = {''p:a'', ''p:b''}"
    by (simp add: defs)
  show "contents ready_store (ref_view (server two_keys)) = [''a'' \<mapsto> (''1'', None), ''b'' \<mapsto> (''2'', None)]"
    by (rule ext) (auto simp: contents_def str_at_def defs)
qed

theorem list_page_pass_witness:
  "\<exists>es u. listing_pass ref_ops no_json ready_store [] 1 two_keys None es u \<and>
     key_values es = [(''a'', ''1''), (''b'', ''2'')]"
proof -
  have "\<forall>m \<in> members (ref_view (server two_keys)) (index_key ready_store). valid_utf8 m"
    unfolding two_keys_facts(4) by (simp add: valid_utf8_ascii byte_in_def)
  moreover have "keys_under ready_store (ref_view (server two_keys)) [] = {''a'', ''b''}"
    by (auto simp: keys_under_def two_keys_facts(5))
  ultimately show ?thesis
    using list_page_pass [OF ref.redis_server_axioms two_keys_facts(1-3), of 1 no_json "[]"]
    by (simp add: two_keys_facts(5))
qed

theorem list_page_limit_wraps_witness:
  "\<exists>u. kv_list_page ref_ops no_json ready_store [] None (- 1) two_keys = Some (Inr \<lparr>entries = [], next_page = None\<rparr>, u)"
  using list_page_limit_wraps [OF ref.redis_server_axioms two_keys_facts(1,2)] by simp

end
