(* ===== verification/Kv_Upkeep.thy ===== *)
theory Kv_Upkeep
  imports Kv_Listing
begin

section \<open>The sweep\<close>

text \<open>
  A sweep settles every key the expiry index says is due, a batch at a time: it drops the entries of
  the gone ones and moves the others out of the due range. It returns, keeps every live key and its
  entry, and reports how many were gone.
\<close>

definition due_keys :: "redis_kv \<Rightarrow> int \<Rightarrow> keyspace \<Rightarrow> string set" where
  "due_keys K now v = {m. \<exists>sc. map_of (zset_at v (expiry_key K)) m = Some sc \<and> sc \<le> now}"

lemma due_members: "due_keys K now v \<subseteq> members v (expiry_key K)"
  by (auto simp: due_keys_def members_def dest!: map_of_SomeD intro: rev_image_eqI)

lemma finite_due [simp]: "finite (due_keys K now v)"
  using due_members finite_members by (rule finite_subset)

subsection \<open>What the server reports as due\<close>

lemma score_range_distinct: "distinct (map fst l) \<Longrightarrow> distinct (score_range lo hi l)"
proof -
  assume "distinct (map fst l)"
  then have "distinct (map fst (sort_key snd (sort_key fst l)))"
    by (simp add: distinct_map)
  then show ?thesis unfolding score_range_def by (rule distinct_map_filter)
qed

lemma score_range_due:
  "zset_ok v (expiry_key K) \<Longrightarrow>
   set (score_range NegInf (ScoreIncl now) (zset_at v (expiry_key K))) = due_keys K now v"
  using zset_ok_distinct [of v "expiry_key K"]
  by (force simp: score_range_def due_keys_def image_iff)

lemma due_reply:
  assumes "kv_wf K v" and "dbl now = now"
  obtains ks where "ks_zrangebyscore (expiry_key K) NegInf (dbl_bound (ScoreIncl now)) (Some n) v = (Inr ks, v)"
    and "distinct ks" and "set ks \<subseteq> due_keys K now v" and "length ks < n \<Longrightarrow> set ks = due_keys K now v"
    and "length ks \<le> n"
proof
  let ?r = "score_range NegInf (ScoreIncl now) (zset_at v (expiry_key K))"
  have ok: "zset_ok v (expiry_key K)" and slot: "zset_slot v (expiry_key K)" using kv_wfD(3) [OF assms(1)] by simp_all
  note range = score_range_due [OF ok, of now]
  show "ks_zrangebyscore (expiry_key K) NegInf (dbl_bound (ScoreIncl now)) (Some n) v = (Inr (take n ?r), v)"
    using slot assms(2)
    by (auto simp: ks_zrangebyscore_def zread_def zset_at_def zset_slot_def split: option.splits robj.splits)
  show "distinct (take n ?r)" using score_range_distinct [OF zset_ok_distinct [OF ok]] by simp
  show "set (take n ?r) \<subseteq> due_keys K now v" using range by (auto dest: in_set_takeD)
  show "set (take n ?r) = due_keys K now v" if "length (take n ?r) < n" using that range by simp
qed simp

subsection \<open>One batch\<close>

lemma touch_expiry:
  assumes "kv_wf K v" and "data_key K k"
  shows "zset_at (touch K k e ia xa v) (expiry_key K) = (case xa of ZKeep \<Rightarrow> zset_at v (expiry_key K)
    | ZAdd sc \<Rightarrow> AList.update k sc (zset_at v (expiry_key K)) | ZDel \<Rightarrow> AList.delete k (zset_at v (expiry_key K)))"
proof -
  note ne = data_key_not_index [OF assms] and wf = kv_wfD [OF assms(1)]
  have at: "zset_at (ks_put k e v) (expiry_key K) = zset_at v (expiry_key K)"
    and slot: "zset_slot (ks_put k e v) (expiry_key K)"
    using ne wf by (simp_all add: zset_at_def ks_simps)
  have "zset_at (touch K k e ia xa v) (expiry_key K) = zset_at (zapply (expiry_key K) k xa (ks_put k e v)) (expiry_key K)"
    using wf(9) by (simp add: touch_def zset_at_def ks_simps)
  then show ?thesis using at slot by (cases xa) (simp_all add: zset_at_zput zset_at_zdel)
qed

lemma sweep_one_due:
  assumes "kv_wf K v" and "data_key K k" and "\<bar>now\<bar> < 2 ^ 53" and "0 \<le> now"
    and later: "\<And>x r. objs v k = Some (x, Some r) \<Longrightarrow> 0 < r"
  shows "due_keys K now (snd (sweep_one (ks_ops R) (index_key K) (expiry_key K) now k v)) = due_keys K now v - {k}"
proof -
  have "\<not> dbl (now + dbl (int r)) \<le> now" if "0 < r" for r
  proof -
    have "0 < dbl (int r)"
      using that dbl_exact [of "int r"] dbl_large [of "int r"] dbl_nonneg [of "int r"]
      by (cases "int r < 2 ^ 53") auto
    then show ?thesis
      using assms(3,4) dbl_exact [of "now + dbl (int r)"] dbl_large [of "now + dbl (int r)"]
        dbl_nonneg [of "now + dbl (int r)"]
      by (cases "now + dbl (int r) < 2 ^ 53") auto
  qed
  then show ?thesis
    using later
    by (auto simp: sweep_one_ks [OF assms(1,2)] due_keys_def touch_expiry [OF assms(1,2)] update_conv' delete_conv'
        split: option.splits if_splits)
qed

lemma sweep_ks:
  assumes "kv_wf K v" and "\<forall>k \<in> set ks. data_key K k" and "\<bar>now\<bar> < 2 ^ 53" and "0 \<le> now"
    and "\<forall>k x r. data_key K k \<and> objs v k = Some (x, Some r) \<longrightarrow> 0 < r"
  shows "\<exists>u. for_count (sweep_one (ks_ops R) (index_key K) (expiry_key K) now) ks n v =
      (Inr (n + int (length (filter (\<lambda>k. \<not> live v k) ks))), u) \<and> pruned K (set ks) v u \<and>
    due_keys K now u = due_keys K now v - set ks"
  using assms
proof (induction ks arbitrary: n v)
  case Nil
  then show ?case by (simp add: ret_def pruned_def)
next
  case (Cons k ks)
  then have dk: "data_key K k" by simp
  let ?t = "snd (sweep_one (ks_ops R) (index_key K) (expiry_key K) now k v)"
  have one: "sweep_one (ks_ops R) (index_key K) (expiry_key K) now k v = (Inr (if live v k then 0 else 1), ?t)"
    using sweep_one_ks [OF Cons.prems(1) dk, of R now] by (auto simp: live_def split: option.splits)
  have wf: "kv_wf K ?t" by (rule upkeep_one_wf(2) [OF Cons.prems(1) dk])
  have same: "objs ?t j = objs v j" if "data_key K j" for j
    using that upkeep_one_other(2) [OF Cons.prems(1) dk, of R] by (auto simp: data_key_iff)
  have mem: "members ?t (index_key K) = members v (index_key K) - (if live v k then {} else {k})"
    using sweep_one_ks [OF Cons.prems(1) dk, of R now] touch_members(1) [OF Cons.prems(1) dk]
    by (auto simp: live_def split: option.splits)
  have due: "due_keys K now ?t = due_keys K now v - {k}"
    using sweep_one_due [OF Cons.prems(1) dk Cons.prems(3,4)] Cons.prems(5) dk by blast
  have alive: "live ?t j = live v j" if "j \<in> set ks" for j
    using that same [of j] Cons.prems(2) by (simp add: live_def)
  then have eqs: "filter (\<lambda>k. \<not> live ?t k) ks = filter (\<lambda>k. \<not> live v k) ks"
    "{k \<in> set ks. \<not> live ?t k} = {k \<in> set ks. \<not> live v k}" by (auto intro: filter_cong)
  have later: "\<forall>k x r. data_key K k \<and> objs ?t k = Some (x, Some r) \<longrightarrow> 0 < r" using Cons.prems(5) same by metis
  from Cons.IH [OF wf _ Cons.prems(3,4) later, of "n + (if live v k then 0 else 1)"] Cons.prems(2) obtain u where
    u: "for_count (sweep_one (ks_ops R) (index_key K) (expiry_key K) now) ks (n + (if live v k then 0 else 1)) ?t =
      (Inr (n + (if live v k then 0 else 1) + int (length (filter (\<lambda>k. \<not> live ?t k) ks))), u)"
    "pruned K (set ks) ?t u" "due_keys K now u = due_keys K now ?t - set ks" by auto
  have "for_count (sweep_one (ks_ops R) (index_key K) (expiry_key K) now) (k # ks) n v =
      (Inr (n + int (length (filter (\<lambda>k. \<not> live v k) (k # ks)))), u)"
    using u(1) one by (simp add: cbind_step [where m = "sweep_one _ _ _ _ _" and s = v, OF one] eqs)
  moreover have "pruned K (set (k # ks)) v u"
    using u(2) same mem eqs by (auto simp: pruned_def)
  ultimately show ?case using u(3) due by auto
qed

subsection \<open>Turns of the loop\<close>

text \<open>A quiet world whose clock stands at \<open>now\<close>.\<close>

definition still :: "int \<Rightarrow> 's world \<Rightarrow> bool" where
  "still now w \<longleftrightarrow> quiet w \<and> ticks w = [] \<and> wall w = now"

text \<open>What the loop keeps: the data, the account of the gone keys, the index entries it may drop.\<close>

definition sweeping :: "('s \<Rightarrow> keyspace) \<Rightarrow> redis_kv \<Rightarrow> int \<Rightarrow> keyspace \<Rightarrow> nat \<Rightarrow> 's world \<Rightarrow> bool" where
  "sweeping view K now v gone w \<longleftrightarrow> still now w \<and> due_keys K now (view (server w)) \<subseteq> due_keys K now v \<and>
     pruned K (due_keys K now v - due_keys K now (view (server w))) v (view (server w)) \<and>
     gone + card {k \<in> due_keys K now (view (server w)). \<not> live v k} = card {k \<in> due_keys K now v. \<not> live v k}"

lemma card_minus_list:
  assumes "distinct ks" and "set ks \<subseteq> D" and "finite D"
  shows "length (filter P ks) + card {k \<in> D - set ks. P k} = card {k \<in> D. P k}"
proof -
  have "length (filter P ks) = card {k \<in> set ks. P k}"
    using assms(1) by (metis distinct_card distinct_filter set_filter)
  moreover have "{k \<in> D. P k} = {k \<in> set ks. P k} \<union> {k \<in> D - set ks. P k}" using assms(2) by auto
  ultimately show ?thesis using assms(3) by (simp add: card_Un_disjoint disjoint_iff)
qed

lemma pruned_trans:
  assumes "pruned K A v u" and "pruned K B u x" and "\<And>k. k \<in> B \<Longrightarrow> data_key K k"
  shows "pruned K (A \<union> B) v x"
proof -
  have "live u k = live v k" if "k \<in> B" for k using assms(1,3) that by (auto simp: pruned_def live_def)
  then show ?thesis using assms by (auto simp: pruned_def)
qed

context redis_server
begin

lemma invoke_still:
  assumes "still now w" and "sim view m n"
  shows "\<exists>u. invoke R m w = (map_sum (show_error R) id (fst (n (view (server w)))), u) \<and>
    view (server u) = snd (n (view (server w))) \<and> still now u"
proof -
  obtain q s where run: "m (server w) = (q, s)" by fastforce
  then have n: "n (view (server w)) = (q, view s)" by (rule simD [OF assms(2)])
  have w: "quiet w" "env w = []" "ticks w = []" "\<forall>l \<in> set (tl (links w)). l = Up"
    using assms(1) by (cases "links w"; auto simp: still_def quiet_def)+
  let ?u = "w\<lparr>links := tl (links w), server := s\<rparr>"
  have "invoke R m w = (map_sum (show_error R) id q, ?u)"
    using w run by (simp add: invoke_def round_trip_up [OF quiet_up [OF w(1)]] exec_calm pass_time_def)
  with n w assms(1) show ?thesis by (auto simp: still_def quiet_def)
qed

text \<open>Reading the due keys.\<close>

lemma due_read:
  assumes st: "still now w" and now: "0 \<le> now" "now < 2 ^ 53" and wf: "kv_wf K (view (server w))"
    and utf: "\<forall>m \<in> due_keys K now (view (server w)). valid_utf8 m"
  obtains ks x where "map_err redis_err (cbind (invoke R
      (redis_zrangebyscore R (expiry_key K) NegInf (ScoreIncl now) (Some SWEEP_BATCH))) (as_strings R)) w = (Inr ks, x)"
    and "view (server x) = view (server w)" and "still now x" and "distinct ks"
    and "set ks \<subseteq> due_keys K now (view (server w))"
    and "length ks < SWEEP_BATCH \<Longrightarrow> set ks = due_keys K now (view (server w))"
proof -
  have dbl: "dbl now = now" using now by simp
  obtain ks where ks: "ks_zrangebyscore (expiry_key K) NegInf (dbl_bound (ScoreIncl now)) (Some SWEEP_BATCH) (view (server w)) =
      (Inr ks, view (server w))" "distinct ks" "set ks \<subseteq> due_keys K now (view (server w))"
    "length ks < SWEEP_BATCH \<Longrightarrow> set ks = due_keys K now (view (server w))"
    by (rule due_reply [OF wf dbl, of SWEEP_BATCH]) (rule that; simp)
  obtain x where x: "invoke R (redis_zrangebyscore R (expiry_key K) NegInf (ScoreIncl now) (Some SWEEP_BATCH)) w = (Inr ks, x)"
    "view (server x) = view (server w)" "still now x"
    using invoke_still [OF st zrangebyscore_sim, of "expiry_key K" NegInf "ScoreIncl now" "Some SWEEP_BATCH"] ks(1) by auto
  have "list_all valid_utf8 ks" using ks(3) utf by (auto simp: list_all_iff)
  with x(1) have "map_err redis_err (cbind (invoke R
      (redis_zrangebyscore R (expiry_key K) NegInf (ScoreIncl now) (Some SWEEP_BATCH))) (as_strings R)) w = (Inr ks, x)"
    by (simp add: map_err_def cbind_def as_strings_def ret_def)
  from that [OF this x(2,3) ks(2-4)] show thesis .
qed

text \<open>Settling a batch of due keys.\<close>

lemma batch_settled:
  assumes sw: "sweeping view K now v gone w" and now: "0 \<le> now" "now < 2 ^ 53" and wf: "kv_wf K v"
    and later: "\<forall>k x r. data_key K k \<and> objs v k = Some (x, Some r) \<longrightarrow> 0 < r"
    and ks: "distinct ks" "set ks \<subseteq> due_keys K now (view (server w))"
  obtains z where "invoke R (sweep_lua R (index_key K) (expiry_key K) now ks) w =
      (Inr (int (length (filter (\<lambda>k. \<not> live v k) ks))), z)"
    and "sweeping view K now v (gone + length (filter (\<lambda>k. \<not> live v k) ks)) z"
    and "due_keys K now (view (server z)) = due_keys K now (view (server w)) - set ks"
proof -
  let ?y = "view (server w)"
  have st: "still now w" and sub: "due_keys K now ?y \<subseteq> due_keys K now v"
    and pr: "pruned K (due_keys K now v - due_keys K now ?y) v ?y"
    and acc: "gone + card {k \<in> due_keys K now ?y. \<not> live v k} = card {k \<in> due_keys K now v. \<not> live v k}"
    using sw by (simp_all add: sweeping_def)
  have wfy: "kv_wf K ?y" and samey: "\<And>j. data_key K j \<Longrightarrow> objs ?y j = objs v j" using pr by (auto simp: pruned_def)
  have dk: "\<forall>k \<in> set ks. data_key K k" using ks(2) due_members kv_wfD(7) [OF wfy] by blast
  have latery: "\<forall>k z r. data_key K k \<and> objs ?y k = Some (z, Some r) \<longrightarrow> 0 < r" using later samey by metis
  have dead: "filter (\<lambda>k. \<not> live ?y k) ks = filter (\<lambda>k. \<not> live v k) ks"
    using samey dk by (intro filter_cong) (auto simp: live_def)
  obtain u where u: "sweep_lua (ks_ops R) (index_key K) (expiry_key K) now ks ?y =
      (Inr (int (length (filter (\<lambda>k. \<not> live v k) ks))), u)" "pruned K (set ks) ?y u"
    "due_keys K now u = due_keys K now ?y - set ks"
    using sweep_ks [OF wfy dk _ now(1) latery, of R 0] now unfolding sweep_lua_def by (auto simp: dead)
  obtain z where z: "invoke R (sweep_lua R (index_key K) (expiry_key K) now ks) w =
      (Inr (int (length (filter (\<lambda>k. \<not> live v k) ks))), z)" "view (server z) = u" "still now z"
    using invoke_still [OF st sweep_lua_sim, of "index_key K" "expiry_key K" now ks] u(1) by auto
  have split: "due_keys K now v - (due_keys K now ?y - set ks) = (due_keys K now v - due_keys K now ?y) \<union> set ks"
    using sub ks(2) by auto
  have "sweeping view K now v (gone + length (filter (\<lambda>k. \<not> live v k) ks)) z"
    using z(2,3) u(3) sub acc card_minus_list [OF ks finite_due, of "\<lambda>k. \<not> live v k"] pruned_trans [OF pr u(2)] dk
    by (auto simp: sweeping_def split)
  from that [OF z(1) this] z(2) u(3) show thesis by simp
qed

text \<open>One turn: it settles a batch and goes on, or it ends with nothing due.\<close>

lemma sweep_turn_still:
  assumes sw: "sweeping view K now v gone w" and now: "0 \<le> now" "now < 2 ^ 53"
    and wf: "kv_wf K v" and utf: "\<forall>m \<in> due_keys K now v. valid_utf8 m"
    and later: "\<forall>k x r. data_key K k \<and> objs v k = Some (x, Some r) \<longrightarrow> 0 < r"
  shows "\<exists>r u gone'. sweep_turn R K gone w = (Inr r, u) \<and> sweeping view K now v gone' u \<and>
    (r = Inl gone' \<and> due_keys K now (view (server u)) = {} \<or>
     r = Inr gone' \<and> card (due_keys K now (view (server u))) < card (due_keys K now (view (server w))))"
proof -
  have st: "still now w" and wfw: "kv_wf K (view (server w))"
    and utfw: "\<forall>m \<in> due_keys K now (view (server w)). valid_utf8 m"
    using sw utf by (auto simp: sweeping_def pruned_def)
  have now_w: "now_ms w = now" using st now by (simp add: still_def now_ms_def)
  obtain ks x where read: "map_err redis_err (cbind (invoke R
      (redis_zrangebyscore R (expiry_key K) NegInf (ScoreIncl now) (Some SWEEP_BATCH))) (as_strings R)) w = (Inr ks, x)"
    and x: "view (server x) = view (server w)" "still now x" and ks: "distinct ks" "set ks \<subseteq> due_keys K now (view (server x))"
    and all: "length ks < SWEEP_BATCH \<Longrightarrow> set ks = due_keys K now (view (server x))"
    by (rule due_read [OF st now wfw utfw]) auto
  have swx: "sweeping view K now v gone x" using sw x by (simp add: sweeping_def)
  let ?gone = "gone + length (filter (\<lambda>k. \<not> live v k) ks)"
  obtain z where z: "invoke R (sweep_lua R (index_key K) (expiry_key K) now ks) x =
      (Inr (int (length (filter (\<lambda>k. \<not> live v k) ks))), z)" "sweeping view K now v ?gone z"
    "due_keys K now (view (server z)) = due_keys K now (view (server x)) - set ks"
    by (rule batch_settled [OF swx now wf later ks])
  have turn: "sweep_turn R K gone w = (if ks = [] then (Inr (Inl gone), x)
      else if length ks < SWEEP_BATCH then (Inr (Inl ?gone), z) else (Inr (Inr ?gone), z))"
    using read z(1)
    by (simp add: sweep_turn_def reading_def now_w cbind_def [where m = "map_err redis_err (cbind _ _)"]
        cbind_def [where m = "map_err redis_err (invoke _ _)"] map_err_def [where m = "invoke _ _"] ret_def Let_def)
  have smaller: "card (due_keys K now (view (server z))) < card (due_keys K now (view (server w)))" if "ks \<noteq> []"
    using that ks(2) z(3) x(1) by (cases ks) (auto intro!: psubset_card_mono)
  show ?thesis
    using turn swx z(2,3) smaller all
    by (cases "ks = []"; cases "length ks < SWEEP_BATCH") (auto simp: SWEEP_BATCH_def)
qed

lemma sweep_still:
  assumes st: "still now w" and now: "0 \<le> now" "now < 2 ^ 53"
    and wf: "kv_wf K (view (server w))" and utf: "\<forall>m \<in> due_keys K now (view (server w)). valid_utf8 m"
    and later: "\<forall>k x r. data_key K k \<and> objs (view (server w)) k = Some (x, Some r) \<longrightarrow> 0 < r"
  shows "\<exists>r u. sweep R K w = Some (r, u) \<and> (\<exists>n. r = Inr n \<and> sweeping view K now (view (server w)) n u \<and>
    due_keys K now (view (server u)) = {})"
proof -
  let ?v = "view (server w)"
  note turn = sweep_turn_still [OF _ now wf utf later]
  show ?thesis
    unfolding sweep_def
  proof (rule loop_returns [where P = "sweeping view K now ?v" and f = "\<lambda>gone w. card (due_keys K now (view (server w)))"])
    show "sweeping view K now ?v 0 w" using st wf by (simp add: sweeping_def pruned_def)
    fix gone x
    assume sw: "sweeping view K now ?v gone x"
    show "sweeping view K now ?v c u \<and> card (due_keys K now (view (server u))) < card (due_keys K now (view (server x)))"
      if "sweep_turn R K gone x = (Inr (Inr c), u)" for c u using turn [OF sw] that by auto
    show "\<exists>n. Inr b = Inr n \<and> sweeping view K now ?v n u \<and> due_keys K now (view (server u)) = {}"
      if "sweep_turn R K gone x = (Inr (Inl b), u)" for b u using turn [OF sw] that by auto
    show "\<exists>n. Inl e = Inr n \<and> sweeping view K now ?v n u \<and> due_keys K now (view (server u)) = {}"
      if "sweep_turn R K gone x = (Inl e, u)" for e u using turn [OF sw] that by auto
  qed
qed

end

subsection \<open>Properties\<close>

text \<open>
  C11. The sweep returns and does its job. In a quiet world whose clock stands, with the store's
  indexes well-formed and no key within its last millisecond, the loop ends, whatever the number of
  due keys; it reports exactly the due keys that were gone, drops their index entries and no other,
  leaves every data key as it was, and nothing is due any more.
\<close>

theorem sweep_settles:
  assumes "redis_server R view" and "still now w" and "0 \<le> now" and "now < 2 ^ 53"
    and "kv_wf K (view (server w))" and "\<forall>m \<in> due_keys K now (view (server w)). valid_utf8 m"
    and "\<forall>k x r. data_key K k \<and> objs (view (server w)) k = Some (x, Some r) \<longrightarrow> 0 < r"
  shows "\<exists>u. sweep R K w = Some (Inr (card {k \<in> due_keys K now (view (server w)). \<not> live (view (server w)) k}), u) \<and>
    members (view (server u)) (index_key K) =
      members (view (server w)) (index_key K) - {k \<in> due_keys K now (view (server w)). \<not> live (view (server w)) k} \<and>
    contents K (view (server u)) = contents K (view (server w)) \<and> due_keys K now (view (server u)) = {}"
proof -
  let ?v = "view (server w)"
  obtain n u where run: "sweep R K w = Some (Inr n, u)" "sweeping view K now ?v n u" "due_keys K now (view (server u)) = {}"
    using redis_server.sweep_still [OF assms] by blast
  then have "n = card {k \<in> due_keys K now ?v. \<not> live ?v k}" and pr: "pruned K (due_keys K now ?v) ?v (view (server u))"
    by (simp_all add: sweeping_def)
  moreover from pr have "contents K (view (server u)) = contents K ?v"
    by (auto simp: pruned_def contents_def str_at_def)
  ultimately show ?thesis using run by (auto simp: pruned_def)
qed

text \<open>A dead entry, due and gone, beside a live one.\<close>

definition stale :: "ref_state world" where
  "stale = ref_world 1000 \<lparr>table = [(''p:a'', RStr ''1'', Some 7),
     (''p#kv-index'', RZset [(''p:a'', 0), (''p:b'', 0)], None),
     (''p#kv-expiry'', RZset [(''p:a'', 1007), (''p:b'', 900)], None)], log = []\<rparr>"

lemma stale_facts:
  shows "still 1000 stale" and "kv_wf ready_store (ref_view (server stale))"
    and "due_keys ready_store 1000 (ref_view (server stale)) = {''p:b''}"
    and "members (ref_view (server stale)) (index_key ready_store) = {''p:a'', ''p:b''}"
    and "\<not> live (ref_view (server stale)) ''p:b''"
    and "data_key ready_store k \<and> objs (ref_view (server stale)) k = Some (x, Some r) \<Longrightarrow> 0 < r"
proof -
  have o: "objs (ref_view (server stale)) = [''p:a'' \<mapsto> (RStr ''1'', Some 7),
     ''p#kv-index'' \<mapsto> (RZset [(''p:a'', 0), (''p:b'', 0)], None),
     ''p#kv-expiry'' \<mapsto> (RZset [(''p:a'', 1007), (''p:b'', 900)], None)]"
    by (auto simp: stale_def ref_view_def)
  note defs = o zset_ok_def all_scores_def str_slot_def members_def zset_at_def live_def data_key_def full_key_def
  show "still 1000 stale" by (simp add: still_def stale_def)
  show "kv_wf ready_store (ref_view (server stale))"
    unfolding kv_wf_def by (auto simp: defs keys_apart_def)
  show "due_keys ready_store 1000 (ref_view (server stale)) = {''p:b''}"
    by (auto simp: due_keys_def defs split: if_splits)
  show "members (ref_view (server stale)) (index_key ready_store) = {''p:a'', ''p:b''}" "\<not> live (ref_view (server stale)) ''p:b''"
    by (simp_all add: defs)
  show "data_key ready_store k \<and> objs (ref_view (server stale)) k = Some (x, Some r) \<Longrightarrow> 0 < r"
    by (auto simp: defs split: if_splits)
qed

theorem sweep_settles_witness:
  "\<exists>u. sweep ref_ops ready_store stale = Some (Inr 1, u) \<and>
     members (ref_view (server u)) (index_key ready_store) = {''p:a''}"
proof -
  have "\<forall>m \<in> due_keys ready_store 1000 (ref_view (server stale)). valid_utf8 m"
    unfolding stale_facts(3) by (simp add: valid_utf8_ascii byte_in_def)
  then have "\<exists>u. sweep ref_ops ready_store stale =
      Some (Inr (card {k \<in> {''p:b''}. \<not> live (ref_view (server stale)) k}), u) \<and>
    members (ref_view (server u)) (index_key ready_store) =
      {''p:a'', ''p:b''} - {k \<in> {''p:b''}. \<not> live (ref_view (server stale)) k}"
    using sweep_settles [OF ref.redis_server_axioms stale_facts(1) _ _ stale_facts(2)] stale_facts(6)
    unfolding stale_facts(3,4) by auto
  with stale_facts(5) show ?thesis by (simp add: insert_Diff_if cong: conj_cong)
qed

text \<open>
  A backfill can leave an index entry no sweep finds: a key that predates the indexes and is in
  its last millisecond (\<open>PTTL\<close> 0) is entered in the key index but not in the expiry index, since the
  script asks for a positive \<open>PTTL\<close>; once it expires, its entry is neither live nor in the expiry
  index.
\<close>

theorem backfill_leaks_last_millisecond:
  assumes "redis_server R view" and wf: "kv_wf K (view s)"
    and o: "objs (view s) (full_key K key) = Some (x, Some 0)"
    and out: "full_key K key \<notin> members (view s) (expiry_key K)"
  shows "\<exists>t. fleet R K s [EBackfill now [key], EElapse 1] t \<and> full_key K key \<in> members (view t) (index_key K) \<and>
    \<not> live (view t) (full_key K key) \<and> full_key K key \<notin> members (view t) (expiry_key K)"
proof -
  let ?k = "full_key K key"
  let ?b = "snd (run_event R K (EBackfill now [key]) s)"
  let ?t = "snd (run_event R K (EElapse 1) ?b)"
  have run: "fleet R K s [EBackfill now [key], EElapse 1] ?t"
    using fleet.step [OF fleet.step [OF fleet.start, of "EBackfill now [key]" R K s], of "EElapse 1"] by simp
  have "view ?b = snd (backfill_lua (ks_ops R) (index_key K) (expiry_key K) now [?k] (view s))"
    using sim_view [OF redis_server.event_sim [OF assms(1), of "EBackfill now [key]" K], of s] by simp
  also have "\<dots> = touched K ?k (objs (view s) ?k) ZKeep (view s)"
    by (simp add: backfill_lua_def cbind_def ret_def backfill_one_ks [OF wf data_key_full] o)
  finally have b: "view ?b = touched K ?k (objs (view s) ?k) ZKeep (view s)" .
  note mem = touch_members [OF wf data_key_full, of key "objs (view s) ?k" "ZAdd 0" ZKeep]
  have wfb: "kv_wf K (view ?b)"
    unfolding b using str_entry_data [OF wf data_key_full] by (intro touch_wf [OF wf]) auto
  have at: "objs (view ?b) ?k = Some (x, Some 0)"
    unfolding b using touch_objs [OF wf data_key_full data_key_not_index [OF wf data_key_full]] o by simp
  have "view ?t = ks_elapse 1 (view ?b)" using redis_server.elapse_view [OF assms(1)] by simp
  then have "\<not> live (view ?t) ?k" "members (view ?t) (index_key K) = members (view ?b) (index_key K)"
    "members (view ?t) (expiry_key K) = members (view ?b) (expiry_key K)"
    using at kv_wfD(2,3) [OF wfb] by (simp_all add: live_def elapse_zset) (simp add: ks_elapse_def)
  then show ?thesis using run mem out b by (intro exI [of _ ?t]) simp
qed

text \<open>A key from before the indexes, about to expire.\<close>

definition last_moment :: ref_state where
  "last_moment = \<lparr>table = [(''p:a'', RStr ''1'', Some 0)], log = []\<rparr>"

theorem backfill_leaks_witness:
  "\<exists>t. fleet ref_ops ready_store last_moment [EBackfill 1000 [''a''], EElapse 1] t \<and>
     ''p:a'' \<in> members (ref_view t) (index_key ready_store) \<and> \<not> live (ref_view t) ''p:a'' \<and>
     ''p:a'' \<notin> members (ref_view t) (expiry_key ready_store)"
proof -
  have o: "objs (ref_view last_moment) = [''p:a'' \<mapsto> (RStr ''1'', Some 0)]" by (simp add: last_moment_def ref_view_def)
  note defs = o zset_ok_def all_scores_def str_slot_def members_def zset_at_def data_key_def full_key_def
  have "kv_wf ready_store (ref_view last_moment)" unfolding kv_wf_def by (auto simp: defs keys_apart_def)
  then show ?thesis
    using backfill_leaks_last_millisecond [OF ref.redis_server_axioms, of ready_store last_moment "''a''" "RStr ''1''" 1000]
    by (simp add: defs)
qed

end
