(* ===== verification/Lease.thy ===== *)
theory Lease
  imports Kv_Behaviour
begin

section \<open>Leases\<close>

text \<open>
  \<open>lease.rs\<close> and the key names of \<open>lease_keys\<close> (\<open>lib.rs\<close>): the three scripts, the lifecycle of a
  handle (\<open>LeaseState\<close>), and the pacing of its renewal task. The task itself is its turn
  (\<open>renewal_turn\<close>), run every \<open>renewal_sleep\<close>; \<open>renewing\<close> says whether it is still there. The text of
  an expiry is made by \<open>chrono\<close>, a parameter \<open>rfc3339\<close> from Unix milliseconds.
\<close>

record lease_state =
  lease_key :: string
  holder :: string
  fence_token :: u64
  lease_ttl_ms :: int
  expires_text :: string
  released :: bool
  renewing :: bool

definition lease_keys :: "string \<Rightarrow> string \<Rightarrow> string \<Rightarrow> string \<times> string" where
  "lease_keys pfx kind name =
     (pfx @ kind @ ''/'' @ name, pfx @ kind @ ''/'' @ name @ '':fence'')"

subsection \<open>Scripts\<close>

definition acquire_script :: "'s redis \<Rightarrow> string \<Rightarrow> string \<Rightarrow> string \<Rightarrow> int \<Rightarrow> ('s, int option) cmd" where
  "acquire_script R lk fk h ttl =
     cbind (redis_get R lk) (\<lambda>cur. case cur of
         None \<Rightarrow> cbind (redis_set R lk h False (Some ttl))
                   (\<lambda>_. cbind (redis_incrby R fk (dec 1)) (\<lambda>fence. ret (Some (lua_reply R fence))))
       | Some _ \<Rightarrow> ret None)"

definition renew_script :: "'s redis \<Rightarrow> string \<Rightarrow> string \<Rightarrow> int \<Rightarrow> ('s, int) cmd" where
  "renew_script R lk h ttl =
     cbind (redis_get R lk) (\<lambda>cur. if cur = Some h then redis_pexpire R lk ttl else ret 0)"

definition release_script :: "'s redis \<Rightarrow> string \<Rightarrow> string \<Rightarrow> ('s, int) cmd" where
  "release_script R lk h =
     cbind (redis_get R lk) (\<lambda>cur. if cur = Some h then redis_del R lk else ret 0)"

subsection \<open>Handles\<close>

text \<open>\<open>chrono::Duration::from_std\<close> fails past i64 milliseconds, and the default is zero.\<close>

definition rfc3339_after :: "(int \<Rightarrow> string) \<Rightarrow> int \<Rightarrow> int \<Rightarrow> string" where
  "rfc3339_after rfc3339 now ttl = rfc3339 (now + (if ttl < 2 ^ 63 then ttl else 0))"

definition try_acquire_async ::
  "'s redis \<Rightarrow> (int \<Rightarrow> string) \<Rightarrow> string \<Rightarrow> string \<Rightarrow> string \<Rightarrow> string \<Rightarrow> nat \<Rightarrow> ('s, lease_state option) op" where
  "try_acquire_async R rfc3339 name lk fk h ttl =
     (if blank name then raise (InvalidReference ''lease name must not be empty'')
      else let ms = ttl_ms (Some ttl) in
        cbind (map_err (\<lambda>e. BackendUnavailable (''lease acquire `'' @ name @ ''`: '' @ e))
                (invoke R (acquire_script R lk fk h ms)))
          (\<lambda>fence. case fence of
              None \<Rightarrow> ret None
            | Some token \<Rightarrow> reading wall (\<lambda>now.
                ret (Some \<lparr>lease_key = lk, holder = h, fence_token = word_of_int token,
                           lease_ttl_ms = ms, expires_text = rfc3339_after rfc3339 now ms,
                           released = False, renewing = True\<rparr>))))"

text \<open>How long the renewal task sleeps, in nanoseconds; a \<open>Duration\<close> holds a u64 of seconds.\<close>

definition duration_max :: nat where
  "duration_max = (2 ^ 64 - 1) * 1000000000 + 999999999"

definition renewal_sleep :: "u32 \<Rightarrow> int \<Rightarrow> nat" where
  "renewal_sleep renew_before_expiry_percent ms =
     (let pct = max 1 (min (unat renew_before_expiry_percent) 99);
          sleep_for = min (nat ms * 1000000 * (100 - pct)) duration_max div 100
      in if sleep_for = 0 then 100 * 1000000 else sleep_for)"

text \<open>The \<open>loop\<close> of \<open>acquire_async\<close>; its state is the delay (ms) before the next attempt.\<close>

definition acquire_turn ::
  "'s redis \<Rightarrow> (int \<Rightarrow> string) \<Rightarrow> string \<Rightarrow> string \<Rightarrow> string \<Rightarrow> string \<Rightarrow> nat \<Rightarrow> nat \<Rightarrow> ('s, lease_state + nat) op" where
  "acquire_turn R rfc3339 name lk fk h ttl delay =
     cbind (try_acquire_async R rfc3339 name lk fk h ttl)
       (\<lambda>got. case got of Some st \<Rightarrow> ret (Inl st) | None \<Rightarrow> ret (Inr (min (delay * 2) 800)))"

definition acquire_async ::
  "'s redis \<Rightarrow> (int \<Rightarrow> string) \<Rightarrow> string \<Rightarrow> string \<Rightarrow> string \<Rightarrow> string \<Rightarrow> nat \<Rightarrow>
     (cluster_error, 's world, lease_state) peff" where
  "acquire_async R rfc3339 name lk fk h ttl = loop (acquire_turn R rfc3339 name lk fk h ttl) 200"

type_synonym 's lease_op = "lease_state \<Rightarrow> 's world \<Rightarrow> (cluster_error + unit) \<times> lease_state \<times> 's world"

definition renew_state :: "'s redis \<Rightarrow> (int \<Rightarrow> string) \<Rightarrow> 's lease_op" where
  "renew_state R rfc3339 st w =
     (if released st then (Inl LeaseExpired, st, w)
      else case invoke R (renew_script R (lease_key st) (holder st) (lease_ttl_ms st)) w of
        (Inl e, u) \<Rightarrow> (Inl (BackendUnavailable (''lease renew `'' @ lease_key st @ ''`: '' @ e)), st, u)
      | (Inr updated, u) \<Rightarrow>
          if updated = 0 then (Inl LeaseExpired, st\<lparr>released := True\<rparr>, u)
          else (Inr (), st\<lparr>expires_text := rfc3339_after rfc3339 (wall u) (lease_ttl_ms st)\<rparr>, u))"

definition release_state :: "'s redis \<Rightarrow> 's lease_op" where
  "release_state R st w =
     (if released st then (Inr (), st, w)
      else (Inr (), st\<lparr>released := True, renewing := False\<rparr>,
            snd (invoke R (release_script R (lease_key st) (holder st)) w)))"

text \<open>One turn of the renewal task after its sleep; it ends on a release and on any error.\<close>

definition renewal_turn :: "'s redis \<Rightarrow> (int \<Rightarrow> string) \<Rightarrow> lease_state \<Rightarrow> 's world \<Rightarrow> lease_state \<times> 's world" where
  "renewal_turn R rfc3339 st w =
     (if \<not> renewing st then (st, w)
      else if released st then (st\<lparr>renewing := False\<rparr>, w)
      else case renew_state R rfc3339 st w of
        (Inl e, st', u) \<Rightarrow> (st'\<lparr>renewing := False\<rparr>, u)
      | (Inr x, st', u) \<Rightarrow> (st', u))"

text \<open>The FFI wrappers: a handle is a pointer to the state, or null.\<close>

definition acquire_sync ::
  "'s redis \<Rightarrow> (int \<Rightarrow> string) \<Rightarrow> string \<Rightarrow> string \<Rightarrow> string \<Rightarrow> string \<Rightarrow> nat \<Rightarrow>
     (cluster_error, 's world, lease_state \<times> u64 \<times> string) peff" where
  "acquire_sync R rfc3339 name lk fk h ms =
     pbind (acquire_async R rfc3339 name lk fk h (max ms 1 * 1000000))
       (\<lambda>st. pure (ret (st, fence_token st, expires_text st)))"

definition try_acquire_sync ::
  "'s redis \<Rightarrow> (int \<Rightarrow> string) \<Rightarrow> string \<Rightarrow> string \<Rightarrow> string \<Rightarrow> string \<Rightarrow> nat \<Rightarrow>
     ('s, (lease_state \<times> u64 \<times> string) option) op" where
  "try_acquire_sync R rfc3339 name lk fk h ms =
     cbind (try_acquire_async R rfc3339 name lk fk h (max ms 1 * 1000000))
       (\<lambda>got. ret (map_option (\<lambda>st. (st, fence_token st, expires_text st)) got))"

definition renew_sync :: "'s redis \<Rightarrow> (int \<Rightarrow> string) \<Rightarrow> lease_state option \<Rightarrow> 's world \<Rightarrow>
    (cluster_error + string) \<times> lease_state option \<times> 's world" where
  "renew_sync R rfc3339 hnd w =
     (case hnd of None \<Rightarrow> (Inl LeaseExpired, None, w)
      | Some st \<Rightarrow> (case renew_state R rfc3339 st w of
          (Inl e, st', u) \<Rightarrow> (Inl e, Some st', u)
        | (Inr x, st', u) \<Rightarrow> (Inr (expires_text st'), Some st', u)))"

definition release_sync :: "'s redis \<Rightarrow> lease_state option \<Rightarrow> 's world \<Rightarrow>
    (cluster_error + unit) \<times> lease_state option \<times> 's world" where
  "release_sync R hnd w =
     (case hnd of None \<Rightarrow> (Inr (), None, w)
      | Some st \<Rightarrow> (case release_state R st w of (r, st', u) \<Rightarrow> (r, Some st', u)))"

lemma released_ops [simp]:
  "released st \<Longrightarrow> release_state R st w = (Inr (), st, w)"
  "released st \<Longrightarrow> renew_state R rfc3339 st w = (Inl LeaseExpired, st, w)"
  by (simp_all add: release_state_def renew_state_def)

subsection \<open>Scripts on keyspaces\<close>

text \<open>Who holds the lease key.\<close>

definition held_by :: "keyspace \<Rightarrow> string \<Rightarrow> string option" where
  "held_by v lk = map_option fst (str_at v lk)"

lemma acquire_ks:
  assumes "str_slot v lk" and "str_slot v fk" and "lk \<noteq> fk" and "counter_at v fk = Some (c, t)" and "in_i64 (c + 1)"
  shows "acquire_script (ks_ops R) lk fk h ttl v =
    (if live v lk then (Inr None, v)
     else (Inr (Some (lua_reply R (c + 1))), ks_put fk (Some (RStr (dec (c + 1)), t)) (ks_put lk (Some (RStr h, Some (nat ttl))) v)))"
proof -
  let ?u = "ks_put lk (Some (RStr h, Some (nat ttl))) v"
  have "str_slot ?u fk" "counter_at ?u fk = Some (c, t)"
    using assms by (simp_all add: ks_simps counter_at_def)
  then have "ks_incrby fk (dec 1) ?u = (Inr (c + 1), ks_put fk (Some (RStr (dec (c + 1)), t)) ?u)"
    using incrby_ks [of ?u fk 1] assms(5) by (simp add: in_i64_def)
  then show ?thesis
    using ks_get_str [OF assms(1)] live_str_at [OF assms(1)]
    by (cases "str_at v lk") (auto simp: acquire_script_def cbind_def ks_set_def ret_def)
qed

lemma renew_ks:
  assumes "str_slot v lk"
  shows "renew_script (ks_ops R) lk h ttl v =
    (if held_by v lk = Some h then (Inr 1, ks_put lk (Some (RStr h, Some (nat ttl))) v) else (Inr 0, v))"
  using ks_get_str [OF assms]
  by (auto simp: renew_script_def cbind_def held_by_def ret_def ks_pexpire_def str_at_def split: option.splits robj.splits)

lemma release_ks:
  assumes "str_slot v lk"
  shows "release_script (ks_ops R) lk h v =
    (if held_by v lk = Some h then (Inr 1, ks_put lk None v) else (Inr 0, v))"
  using ks_get_str [OF assms]
  by (auto simp: release_script_def cbind_def held_by_def ret_def ks_del_def str_at_def split: option.splits robj.splits)

context redis_server
begin

lemma acquire_sim: "px_ok ttl \<Longrightarrow> sim view (acquire_script R lk fk h ttl) (acquire_script (ks_ops R) lk fk h ttl)"
  unfolding acquire_script_def ks_ops_simps lua_reply_ks by (intro sim_intros) (simp add: px_opt_ok_def)

lemma renew_sim: "px_ok ttl \<Longrightarrow> sim view (renew_script R lk h ttl) (renew_script (ks_ops R) lk h ttl)"
  unfolding renew_script_def ks_ops_simps by (intro sim_intros)

lemma release_sim: "sim view (release_script R lk h) (release_script (ks_ops R) lk h)"
  unfolding release_script_def ks_ops_simps by (intro sim_intros)

end

subsection \<open>One lock, everybody's events\<close>

text \<open>
  What happens to one lock: attempts, renewals and releases by whatever holder identities, and time.
  \<open>grants\<close> lists the fence tokens handed out, in order.
\<close>

datatype lease_event = LAcquire string int | LRenew string int | LRelease string | LElapse nat

fun lease_run :: "'s redis \<Rightarrow> string \<Rightarrow> string \<Rightarrow> lease_event \<Rightarrow> ('s, int option) cmd" where
  "lease_run R lk fk (LAcquire h ttl) = acquire_script R lk fk h ttl"
| "lease_run R lk fk (LRenew h ttl) = cbind (renew_script R lk h ttl) (\<lambda>n. ret None)"
| "lease_run R lk fk (LRelease h) = cbind (release_script R lk h) (\<lambda>n. ret None)"
| "lease_run R lk fk (LElapse d) = (\<lambda>s. (Inr None, elapse R d s))"

fun lease_event_ok :: "lease_event \<Rightarrow> bool" where
  "lease_event_ok (LAcquire h ttl) = px_ok ttl"
| "lease_event_ok (LRenew h ttl) = px_ok ttl"
| "lease_event_ok _ = True"

fun grants :: "'s redis \<Rightarrow> string \<Rightarrow> string \<Rightarrow> lease_event list \<Rightarrow> 's \<Rightarrow> int list" where
  "grants R lk fk [] s = []"
| "grants R lk fk (e # es) s =
     (case lease_run R lk fk e s of (r, t) \<Rightarrow>
        (case r of Inr (Some token) \<Rightarrow> [token] | _ \<Rightarrow> []) @ grants R lk fk es t)"

text \<open>The lock's two keys as the scripts keep them: text, and a counter that never expires.\<close>

definition lease_wf :: "string \<Rightarrow> string \<Rightarrow> int \<Rightarrow> keyspace \<Rightarrow> bool" where
  "lease_wf lk fk c v \<longleftrightarrow> lk \<noteq> fk \<and> str_slot v lk \<and> counter_at v fk = Some (c, None)"

lemma counter_slot: "counter_at v k = Some (c, t) \<Longrightarrow> str_slot v k"
  by (auto simp: counter_at_def str_slot_def split: option.splits robj.splits)

lemma counter_put_other [simp]: "k \<noteq> j \<Longrightarrow> counter_at (ks_put j e v) k = counter_at v k"
  by (simp add: counter_at_def ks_simps)

lemma counter_put [simp]: "in_i64 c \<Longrightarrow> counter_at (ks_put k (Some (RStr (dec c), t)) v) k = Some (c, t)"
  by (simp add: counter_at_def ks_simps)

lemma counter_elapse: "counter_at v k = Some (c, None) \<Longrightarrow> counter_at (ks_elapse d v) k = Some (c, None)"
  by (auto simp: counter_at_def ks_elapse_def split: option.splits robj.splits)

lemma slot_put: "str_slot (ks_put k (Some (RStr x, t)) v) k" "str_slot (ks_put k None v) k"
  by (simp_all add: str_slot_def ks_simps)

lemma lease_step_wf:
  assumes "lease_wf lk fk c v" and "in_i64 (c + 1)"
  shows "(\<exists>h ttl. e = LAcquire h ttl \<and> \<not> live v lk \<and> lease_run (ks_ops R) lk fk e v = (Inr (Some (lua_reply R (c + 1))),
      snd (lease_run (ks_ops R) lk fk e v)) \<and> lease_wf lk fk (c + 1) (snd (lease_run (ks_ops R) lk fk e v))) \<or>
    lease_run (ks_ops R) lk fk e v = (Inr None, snd (lease_run (ks_ops R) lk fk e v)) \<and>
    lease_wf lk fk c (snd (lease_run (ks_ops R) lk fk e v))"
proof (cases e)
  case (LAcquire h ttl)
  have "str_slot v fk" using assms(1) by (auto simp: lease_wf_def intro: counter_slot)
  with acquire_ks [of v lk fk c None R h ttl] LAcquire assms slot_put show ?thesis
    by (auto simp: lease_wf_def ks_simps)
next
  case (LRenew h ttl)
  then show ?thesis
    using assms renew_ks [of v lk R h ttl] slot_put by (auto simp: lease_wf_def cbind_def ret_def)
next
  case (LRelease h)
  then show ?thesis
    using assms release_ks [of v lk R h] slot_put by (auto simp: lease_wf_def cbind_def ret_def)
next
  case (LElapse d)
  then show ?thesis
    using assms by (auto simp: lease_wf_def counter_elapse elapse_readers(1) ks_ops_def)
qed

context redis_server
begin

lemma lease_event_sim: "lease_event_ok e \<Longrightarrow> sim view (lease_run R lk fk e) (lease_run (ks_ops R) lk fk e)"
proof (cases e)
  case (LElapse d)
  then show ?thesis by (simp add: sim_def elapse_view ks_ops_def)
qed (auto intro!: acquire_sim renew_sim release_sim sim_intros)

lemma fence_tokens:
  "lease_wf lk fk c (view s) \<Longrightarrow> list_all lease_event_ok es \<Longrightarrow> 0 \<le> c \<Longrightarrow> c + int (length es) \<le> 2 ^ 53 \<Longrightarrow>
   sorted_wrt (<) (grants R lk fk es s) \<and> (\<forall>x \<in> set (grants R lk fk es s). c < x)"
proof (induction es arbitrary: s c)
  case (Cons e es)
  have sim: "sim view (lease_run R lk fk e) (lease_run (ks_ops R) lk fk e)"
    using Cons.prems(2) by (simp add: lease_event_sim)
  obtain r t where run: "lease_run R lk fk e s = (r, t)" by fastforce
  with simD [OF sim] have ks: "lease_run (ks_ops R) lk fk e (view s) = (r, view t)" by simp
  have i64: "in_i64 (c + 1)" using Cons.prems(3,4) by (simp add: in_i64_def)
  have token: "lua_reply R (c + 1) = c + 1" using Cons.prems(3,4) by (intro lua_reply_exact) simp
  from lease_step_wf [OF Cons.prems(1) i64, of e R] ks token
  consider "r = Inr (Some (c + 1))" "lease_wf lk fk (c + 1) (view t)" | "r = Inr None" "lease_wf lk fk c (view t)"
    by auto
  then show ?case
  proof cases
    case 1
    from Cons.IH [OF 1(2)] Cons.prems(2-4)
    have "sorted_wrt (<) (grants R lk fk es t) \<and> (\<forall>x \<in> set (grants R lk fk es t). c + 1 < x)" by simp
    with 1 run show ?thesis by auto
  next
    case 2
    from Cons.IH [OF 2(2)] Cons.prems(2-4)
    have "sorted_wrt (<) (grants R lk fk es t) \<and> (\<forall>x \<in> set (grants R lk fk es t). c < x)" by simp
    with 2 run show ?thesis by auto
  qed
qed simp

end

subsection \<open>Mutual exclusion\<close>

text \<open>
  \<open>leased v lk h T\<close>: the key is held by \<open>h\<close> for \<open>T\<close> milliseconds more, at least. \<open>undisturbed h T es\<close>:
  nobody releases in the name of \<open>h\<close>, and no more time passes than is left since the last renewal.
\<close>

definition leased :: "keyspace \<Rightarrow> string \<Rightarrow> string \<Rightarrow> nat \<Rightarrow> bool" where
  "leased v lk h T \<longleftrightarrow> (\<exists>r \<ge> T. str_at v lk = Some (h, Some r))"

fun undisturbed :: "string \<Rightarrow> nat \<Rightarrow> lease_event list \<Rightarrow> bool" where
  "undisturbed h T [] = True"
| "undisturbed h T (LAcquire g ttl # es) = undisturbed h T es"
| "undisturbed h T (LRenew g ttl # es) = undisturbed h (if g = h then nat ttl else T) es"
| "undisturbed h T (LRelease g # es) = (g \<noteq> h \<and> undisturbed h T es)"
| "undisturbed h T (LElapse d # es) = (d \<le> T \<and> undisturbed h (T - d) es)"

fun lease_runs :: "'s redis \<Rightarrow> string \<Rightarrow> string \<Rightarrow> lease_event list \<Rightarrow> 's \<Rightarrow> 's" where
  "lease_runs R lk fk [] s = s"
| "lease_runs R lk fk (e # es) s = lease_runs R lk fk es (snd (lease_run R lk fk e s))"

lemma leased_facts: "leased v lk h T \<Longrightarrow> str_slot v lk \<and> live v lk \<and> held_by v lk = Some h"
  by (auto simp: leased_def str_at_def str_slot_def live_def held_by_def split: option.splits robj.splits)

lemma leased_elapse:
  assumes "leased v lk h T" and "d \<le> T"
  shows "leased (ks_elapse d v) lk h (T - d)"
proof -
  from assms(1) obtain r where "T \<le> r" "objs v lk = Some (RStr h, Some r)"
    by (auto simp: leased_def str_at_live)
  with assms(2) show ?thesis by (auto simp: leased_def str_at_def ks_elapse_def)
qed

lemma leased_step:
  assumes "leased v lk h T" and "undisturbed h T (e # es)"
  shows "\<exists>T'. leased (snd (lease_run (ks_ops R) lk fk e v)) lk h T' \<and> undisturbed h T' es \<and>
    fst (lease_run (ks_ops R) lk fk e v) = Inr None"
proof (cases e)
  case (LAcquire g ttl)
  obtain x t where "ks_get lk v = (Inr (Some x), v)"
    using ks_get_str [of v lk] leased_facts [OF assms(1)] by (auto simp: held_by_def)
  with LAcquire assms show ?thesis by (auto simp: acquire_script_def cbind_def ret_def)
next
  case (LRenew g ttl)
  with assms leased_facts [OF assms(1)] renew_ks [of v lk R g ttl] show ?thesis
    by (auto simp: cbind_def ret_def leased_def str_at_def ks_simps)
next
  case (LRelease g)
  with assms leased_facts [OF assms(1)] release_ks [of v lk R g] show ?thesis
    by (auto simp: cbind_def ret_def)
next
  case (LElapse d)
  with assms leased_elapse [OF assms(1), of d] show ?thesis by (auto simp: ks_ops_def)
qed

context redis_server
begin

lemma leased_run:
  "leased (view s) lk h T \<Longrightarrow> list_all lease_event_ok es \<Longrightarrow> undisturbed h T es \<Longrightarrow>
   grants R lk fk es s = [] \<and> held_by (view (lease_runs R lk fk es s)) lk = Some h"
proof (induction es arbitrary: s T)
  case Nil
  then show ?case using leased_facts by simp
next
  case (Cons e es)
  have sim: "sim view (lease_run R lk fk e) (lease_run (ks_ops R) lk fk e)"
    using Cons.prems(2) by (simp add: lease_event_sim)
  obtain r t where run: "lease_run R lk fk e s = (r, t)" by fastforce
  with simD [OF sim] have "lease_run (ks_ops R) lk fk e (view s) = (r, view t)" by simp
  with leased_step [OF Cons.prems(1,3), of R fk] obtain T' where
    "leased (view t) lk h T'" "undisturbed h T' es" "r = Inr None" by auto
  with Cons.IH [of t T'] Cons.prems(2) run show ?case by simp
qed

subsection \<open>Handles in a quiet world\<close>

lemma try_acquire_quiet:
  assumes "quiet w" and "\<not> blank name" and "ttl_arg_ok (ttl_ms (Some ttl))"
    and wf: "lease_wf lk fk c (view (server w))" and "in_i64 (c + 1)"
  shows "\<exists>u. try_acquire_async R rfc name lk fk h ttl w = (Inr (if live (view (server w)) lk then None
      else Some \<lparr>lease_key = lk, holder = h, fence_token = word_of_int (lua_reply R (c + 1)), lease_ttl_ms = ttl_ms (Some ttl),
        expires_text = rfc3339_after rfc (wall u) (ttl_ms (Some ttl)), released = False, renewing = True\<rparr>), u) \<and>
    quiet u \<and> view (server u) = (if live (view (server w)) lk then view (server w)
      else ks_put fk (Some (RStr (dec (c + 1)), None))
        (ks_put lk (Some (RStr h, Some (nat (ttl_ms (Some ttl))))) (view (server w))))"
proof -
  have px: "px_ok (ttl_ms (Some ttl))" using assms(3) ttl_arg_px ttl_ms_pos by blast
  have "str_slot (view (server w)) lk" "lk \<noteq> fk" "counter_at (view (server w)) fk = Some (c, None)"
    using wf by (auto simp: lease_wf_def)
  note ks = acquire_ks [OF this(1) counter_slot [OF this(3)] this(2,3) assms(5), of R h "ttl_ms (Some ttl)"]
  from invoke_quiet [OF assms(1) acquire_sim [OF px, of lk fk h]]
  show ?thesis
    using assms(2) by (auto simp: ks try_acquire_async_def Let_def cbind_def map_err_def ret_def reading_def)
qed

lemma renew_quiet:
  assumes "quiet w" and "\<not> released st" and "px_ok (lease_ttl_ms st)" and "str_slot (view (server w)) (lease_key st)"
  shows "\<exists>u. renew_state R rfc st w =
      (if held_by (view (server w)) (lease_key st) = Some (holder st)
       then (Inr (), st\<lparr>expires_text := rfc3339_after rfc (wall u) (lease_ttl_ms st)\<rparr>, u)
       else (Inl LeaseExpired, st\<lparr>released := True\<rparr>, u)) \<and>
    quiet u \<and> view (server u) = (if held_by (view (server w)) (lease_key st) = Some (holder st)
      then ks_put (lease_key st) (Some (RStr (holder st), Some (nat (lease_ttl_ms st)))) (view (server w))
      else view (server w))"
  using invoke_quiet [OF assms(1) renew_sim [OF assms(3), of "lease_key st" "holder st"]] assms(2)
  by (auto simp: renew_ks [OF assms(4)] renew_state_def)

lemma release_quiet:
  assumes "quiet w" and "\<not> released st" and "str_slot (view (server w)) (lease_key st)"
  shows "\<exists>u. release_state R st w = (Inr (), st\<lparr>released := True, renewing := False\<rparr>, u) \<and>
    quiet u \<and> view (server u) = (if held_by (view (server w)) (lease_key st) = Some (holder st)
      then ks_put (lease_key st) None (view (server w)) else view (server w))"
  using invoke_quiet [OF assms(1) release_sim [of "lease_key st" "holder st"]] assms(2)
  by (auto simp: release_ks [OF assms(3)] release_state_def)

end

end
