(* ===== verification/Lease_Properties.thy ===== *)
theory Lease_Properties
  imports Lease
begin

section \<open>What a lease guarantees\<close>

text \<open>
  The properties of the lease protocol: mutual exclusion and fencing over all interleavings, the
  lifecycle of a handle, the pacing of renewals, that a waiting acquisition gets the lease once it is
  free; and the two ways in which the names the plugin chooses break them.
\<close>

text \<open>
  C13. Mutual exclusion: while the lease key is held by \<open>h\<close> and is renewed in time, on any interleaving
  of acquisition attempts, renewals and releases by any other identity, no attempt is granted (not even
  one of \<open>h\<close> itself) and \<open>h\<close> keeps the lease.
\<close>

theorem lease_mutual_exclusion:
  assumes "redis_server R view" and "leased (view s) lk h T" and "list_all lease_event_ok es" and "undisturbed h T es"
  shows "grants R lk fk es s = [] \<and> held_by (view (lease_runs R lk fk es s)) lk = Some h"
  using redis_server.leased_run [OF assms] .

text \<open>
  C14. Fencing: over any interleaving of events on a lock, with leases expiring, being released and
  taken over any number of times, the fence tokens granted are strictly increasing, and larger than
  any granted before: a resource that remembers the largest token it saw refuses every stale holder.
  This holds for the first \<open>2 ^ 53\<close> grants of a lock: the counter passes through a Lua number.
\<close>

theorem fence_tokens_increase:
  assumes "redis_server R view" and "lease_wf lk fk c (view s)" and "list_all lease_event_ok es"
    and "0 \<le> c" and "c + int (length es) \<le> 2 ^ 53"
  shows "sorted_wrt (<) (grants R lk fk es s) \<and> (\<forall>token \<in> set (grants R lk fk es s). c < token)"
  using redis_server.fence_tokens [OF assms] .

text \<open>
  C15. The life of a handle: a free lock is granted with the next fence token (exact up to \<open>2 ^ 53\<close>)
  and held for the TTL;
  renewing succeeds; releasing frees the lock, is idempotent and does not touch the server again; a
  released handle cannot be renewed.
\<close>

theorem lease_lifecycle:
  assumes "redis_server R view" and "quiet w" and "\<not> blank name" and "ttl_arg_ok (ttl_ms (Some ttl))"
    and "lease_wf lk fk c (view (server w))" and "in_i64 (c + 1)" and "\<not> live (view (server w)) lk"
  shows "\<exists>st u st' x. try_acquire_async R rfc name lk fk h ttl w = (Inr (Some st), u) \<and>
    (\<bar>c + 1\<bar> \<le> 2 ^ 53 \<longrightarrow> fence_token st = word_of_int (c + 1)) \<and> leased (view (server u)) lk h (nat (ttl_ms (Some ttl))) \<and>
    fst (renew_state R rfc st u) = Inr () \<and> release_state R st u = (Inr (), st', x) \<and>
    \<not> live (view (server x)) lk \<and> release_state R st' x = (Inr (), st', x) \<and>
    renew_state R rfc st' x = (Inl LeaseExpired, st', x)"
proof -
  let ?ms = "ttl_ms (Some ttl)"
  have px: "px_ok ?ms" using assms(4) ttl_arg_px ttl_ms_pos by blast
  have lk: "lk \<noteq> fk" using assms(5) by (simp add: lease_wf_def)
  obtain u where u: "try_acquire_async R rfc name lk fk h ttl w = (Inr (Some \<lparr>lease_key = lk, holder = h,
      fence_token = word_of_int (lua_reply R (c + 1)), lease_ttl_ms = ?ms, expires_text = rfc3339_after rfc (wall u) ?ms,
      released = False, renewing = True\<rparr>), u)" "quiet u"
    "view (server u) = ks_put fk (Some (RStr (dec (c + 1)), None)) (ks_put lk (Some (RStr h, Some (nat ?ms))) (view (server w)))"
    using redis_server.try_acquire_quiet [OF assms(1-6), of rfc h] assms(7) by auto
  let ?st = "\<lparr>lease_key = lk, holder = h, fence_token = word_of_int (lua_reply R (c + 1)), lease_ttl_ms = ?ms,
      expires_text = rfc3339_after rfc (wall u) ?ms, released = False, renewing = True\<rparr>"
  have held: "leased (view (server u)) lk h (nat ?ms)" using lk u(3) by (simp add: leased_def str_at_def ks_simps)
  note facts = leased_facts [OF held]
  from redis_server.renew_quiet [OF assms(1) u(2), of ?st rfc] px facts
  have "fst (renew_state R rfc ?st u) = Inr ()" by auto
  moreover from redis_server.release_quiet [OF assms(1) u(2), of ?st] facts obtain x where
    "release_state R ?st u = (Inr (), ?st\<lparr>released := True, renewing := False\<rparr>, x)"
    "view (server x) = ks_put lk None (view (server u))" by auto
  ultimately show ?thesis
    using u(1) held redis_server.lua_reply_exact [OF assms(1), of "c + 1"]
    by (intro exI [of _ ?st] exI [of _ u] exI [of _ "?st\<lparr>released := True, renewing := False\<rparr>"] exI [of _ x])
       (simp add: ks_simps)
qed

text \<open>
  C16. A lost lease does no harm: when the key is gone or another identity holds it, renewing reports
  \<open>LeaseExpired\<close> and marks the handle, and releasing succeeds; neither changes anything on the server.
\<close>

theorem lost_lease_harmless:
  assumes "redis_server R view" and "quiet w" and "\<not> released st" and "px_ok (lease_ttl_ms st)"
    and "str_slot (view (server w)) (lease_key st)" and "held_by (view (server w)) (lease_key st) \<noteq> Some (holder st)"
  shows "(\<exists>u. renew_state R rfc st w = (Inl LeaseExpired, st\<lparr>released := True\<rparr>, u) \<and> view (server u) = view (server w)) \<and>
    (\<exists>u. release_state R st w = (Inr (), st\<lparr>released := True, renewing := False\<rparr>, u) \<and> view (server u) = view (server w))"
  using redis_server.renew_quiet [OF assms(1-5), of rfc] redis_server.release_quiet [OF assms(1-3,5)] assms(6) by auto

text \<open>
  C17. The renewal task wakes in time: for every TTL and every configured percentage it sleeps a
  positive time that leaves at least that share of the TTL (clamped to 1 to 99 percent), so the
  fallback for a zero sleep is never taken and nothing saturates.
\<close>

theorem renewal_in_time:
  assumes "1 \<le> ms" and "ms < 2 ^ 64"
  shows "0 < renewal_sleep pct ms \<and>
    renewal_sleep pct ms = nat ms * 1000000 * (100 - max 1 (min (unat pct) 99)) div 100 \<and>
    renewal_sleep pct ms * 100 \<le> nat ms * 1000000 * (100 - max 1 (min (unat pct) 99)) \<and>
    renewal_sleep pct ms < nat ms * 1000000"
proof -
  define q where "q = 100 - max 1 (min (unat pct) 99)"
  define n where "n = nat ms * 1000000"
  have q: "1 \<le> q" "q \<le> 99" by (auto simp: q_def)
  have n: "1000000 \<le> n" "n < 2 ^ 64 * 1000000" using assms by (auto simp: n_def)
  have q99: "n * q \<le> n * 99" using q by simp
  also have "n * 99 \<le> duration_max" using n by (simp add: duration_max_def)
  finally have small: "n * q \<le> duration_max" .
  have "n * 1 \<le> n * q" using q by (intro mult_le_mono2) simp
  then have "100 \<le> n * q" using n by linarith
  then have pos: "0 < n * q div 100" by (simp add: div_greater_zero_iff)
  have "n * q div 100 * 100 \<le> n * q" by simp
  moreover from this q99 n have "n * q div 100 < n" by linarith
  moreover have "renewal_sleep pct ms = n * q div 100"
    unfolding renewal_sleep_def Let_def q_def [symmetric] n_def [symmetric] using small pos by (simp add: min_absorb1)
  ultimately show ?thesis unfolding q_def [symmetric] n_def [symmetric] using pos by simp
qed

subsection \<open>Waiting for a lease\<close>

context redis_server
begin

text \<open>One attempt with somebody else's action before it, every link up.\<close>

lemma attempt_between:
  assumes "env w = f # fs" and up: "\<forall>l \<in> set (links w). l = Up" and "\<not> blank name"
    and "ttl_arg_ok (ttl_ms (Some ttl))" and wf: "lease_wf lk fk c (view (f (server w)))" and "in_i64 (c + 1)"
  shows "\<exists>r u. try_acquire_async R rfc name lk fk h ttl w = (Inr r, u) \<and> env u = fs \<and>
    (\<forall>l \<in> set (links u). l = Up) \<and>
    (if live (view (f (server w))) lk then r = None \<and> view (server u) = view (f (server w))
     else \<exists>st. r = Some st \<and> holder st = h \<and> lease_key st = lk \<and> fence_token st = word_of_int (lua_reply R (c + 1)))"
proof -
  have px: "px_ok (ttl_ms (Some ttl))" using assms(4) ttl_arg_px ttl_ms_pos by blast
  let ?m = "acquire_script R lk fk h (ttl_ms (Some ttl))" and ?s = "f (server w)"
  have lk: "str_slot (view ?s) lk" "lk \<noteq> fk" "counter_at (view ?s) fk = Some (c, None)"
    using wf by (auto simp: lease_wf_def)
  note ks = acquire_ks [OF lk(1) counter_slot [OF lk(3)] lk(2,3) assms(6), of R h "ttl_ms (Some ttl)"]
  obtain s where run: "?m ?s = (Inr (if live (view ?s) lk then None else Some (lua_reply R (c + 1))), s)"
    and s: "live (view ?s) lk \<Longrightarrow> view s = view ?s"
    using sim_reply [OF acquire_sim [OF px, of lk fk h], of ?s] sim_view [OF acquire_sim [OF px, of lk fk h], of ?s] ks
    by (cases "?m ?s") auto
  let ?u = "pass_time (w\<lparr>links := tl (links w), server := s, env := fs\<rparr>)"
  have hd: "links w = [] \<or> hd (links w) = Up" using up by (cases "links w") auto
  have tl: "\<forall>l \<in> set (tl (links w)). l = Up" using up by (cases "links w") auto
  have "invoke R ?m w = (Inr (if live (view ?s) lk then None else Some (lua_reply R (c + 1))), ?u)"
    using assms(1) run by (simp add: invoke_def round_trip_up [OF hd] exec_def)
  then show ?thesis
    using assms(3) s tl
    by (auto simp: try_acquire_async_def Let_def cbind_def map_err_def reading_def ret_def)
qed

lemma acquire_waits_loop:
  assumes "env w = replicate n id @ [f]" and "\<forall>l \<in> set (links w). l = Up" and "\<not> blank name"
    and "ttl_arg_ok (ttl_ms (Some ttl))" and "lease_wf lk fk c (view (server w))" and "in_i64 (c + 1)"
    and "live (view (server w)) lk"
    and f: "\<And>s. view s = view (server w) \<Longrightarrow> lease_wf lk fk c (view (f s)) \<and> \<not> live (view (f s)) lk"
  shows "\<exists>st u. loop (acquire_turn R rfc name lk fk h ttl) delay w = Some (Inr st, u) \<and>
    holder st = h \<and> lease_key st = lk \<and> fence_token st = word_of_int (lua_reply R (c + 1))"
  using assms(1,2,5,7) f
proof (induction n arbitrary: w delay)
  case 0
  from attempt_between [of w f "[]" name ttl lk fk c rfc h] 0 assms(3,4,6) obtain st u where
    "try_acquire_async R rfc name lk fk h ttl w = (Inr (Some st), u)" "holder st = h" "lease_key st = lk"
    "fence_token st = word_of_int (lua_reply R (c + 1))" by fastforce
  then show ?case by (simp add: loop.simps [of _ delay w] acquire_turn_def cbind_def ret_def)
next
  case (Suc n)
  from attempt_between [of w id "replicate n id @ [f]" name ttl lk fk c rfc h] Suc.prems assms(3,4,6) obtain u where
    u: "try_acquire_async R rfc name lk fk h ttl w = (Inr None, u)" "env u = replicate n id @ [f]"
    "\<forall>l \<in> set (links u). l = Up" "view (server u) = view (server w)" by fastforce
  then have turn: "acquire_turn R rfc name lk fk h ttl delay w = (Inr (Inr (min (delay * 2) 800)), u)"
    by (simp add: acquire_turn_def cbind_def ret_def)
  have "\<exists>st x. loop (acquire_turn R rfc name lk fk h ttl) (min (delay * 2) 800) u = Some (Inr st, x) \<and>
      holder st = h \<and> lease_key st = lk \<and> fence_token st = word_of_int (lua_reply R (c + 1))"
    by (rule Suc.IH [OF u(2,3)]) (use u(4) Suc.prems(3-5) in auto)
  then show ?case by (simp add: loop.simps [of _ delay w] turn)
qed

end

text \<open>
  C18. A blocking acquisition gets the lease: when the key is held, however many attempts find it held
  and whoever frees it (a release, or its expiry), the loop of \<open>acquire_async\<close> returns the lease to the
  caller at the first attempt after that, with the next fence token (exact up to \<open>2 ^ 53\<close>).
\<close>

theorem acquire_waits:
  assumes "redis_server R view" and "env w = replicate n id @ [f]" and "\<forall>l \<in> set (links w). l = Up"
    and "\<not> blank name" and "ttl_arg_ok (ttl_ms (Some ttl))" and "lease_wf lk fk c (view (server w))" and "in_i64 (c + 1)"
    and "live (view (server w)) lk"
    and "\<And>s. view s = view (server w) \<Longrightarrow> lease_wf lk fk c (view (f s)) \<and> \<not> live (view (f s)) lk"
  shows "\<exists>st u. acquire_async R rfc name lk fk h ttl w = Some (Inr st, u) \<and>
    holder st = h \<and> lease_key st = lk \<and> (\<bar>c + 1\<bar> \<le> 2 ^ 53 \<longrightarrow> fence_token st = word_of_int (c + 1))"
  using redis_server.acquire_waits_loop [OF assms, of rfc h 200] redis_server.lua_reply_exact [OF assms(1), of "c + 1"]
  unfolding acquire_async_def by metis

subsection \<open>Where the names break it\<close>

text \<open>
  C19. A fence counter can stand in the way of another lock: the fence key of the lock \<open>x\<close> is the lease
  key of the lock \<open>x:fence\<close>. Once \<open>x\<close> has been granted, an attempt at \<open>x:fence\<close> finds its key taken,
  at any later time, although nobody ever held it: the counter has no TTL.
\<close>

theorem fence_key_blocks_lock:
  assumes "redis_server R view" and "quiet w" and "\<not> blank name" and "ttl_arg_ok (ttl_ms (Some ttl))"
    and "lease_keys pfx kind x = (lk, fk)" and "lease_wf lk fk c (view (server w))" and "in_i64 (c + 1)"
    and "\<not> live (view (server w)) lk"
    and "lease_keys pfx kind (x @ '':fence'') = (lk', fk')"
  shows "\<exists>st u. try_acquire_async R rfc name lk fk h ttl w = (Inr (Some st), u) \<and>
    (\<forall>d name' g. \<not> blank name' \<longrightarrow>
      fst (try_acquire_async R rfc name' lk' fk' g ttl (u\<lparr>server := elapse R d (server u)\<rparr>)) = Inr None)"
proof -
  have same: "lk' = fk" using assms(5,9) by (simp add: lease_keys_def)
  obtain st u where u: "try_acquire_async R rfc name lk fk h ttl w = (Inr (Some st), u)" "quiet u"
    "view (server u) = ks_put fk (Some (RStr (dec (c + 1)), None)) (ks_put lk (Some (RStr h, Some (nat (ttl_ms (Some ttl))))) (view (server w)))"
    using redis_server.try_acquire_quiet [OF assms(1-4,6,7), of rfc h] assms(8) by auto
  have px: "px_ok (ttl_ms (Some ttl))" using assms(4) ttl_arg_px ttl_ms_pos by blast
  have "fst (try_acquire_async R rfc name' lk' fk' g ttl (u\<lparr>server := elapse R d (server u)\<rparr>)) = Inr None"
    if "\<not> blank name'" for d name' g
  proof -
    let ?y = "u\<lparr>server := elapse R d (server u)\<rparr>"
    have y: "quiet ?y" "view (server ?y) = ks_elapse d (view (server u))"
      using u(2) redis_server.elapse_view [OF assms(1)] by (simp_all add: quiet_def)
    then have "ks_get lk' (view (server ?y)) = (Inr (Some (dec (c + 1))), view (server ?y))"
      using u(3) same by (simp add: ks_get_def ks_elapse_def ks_put_objs)
    then have "acquire_script (ks_ops R) lk' fk' g (ttl_ms (Some ttl)) (view (server ?y)) = (Inr None, view (server ?y))"
      by (simp add: acquire_script_def cbind_def ret_def)
    with redis_server.invoke_quiet [OF assms(1) y(1) redis_server.acquire_sim [OF assms(1) px, of lk' fk' g]] that
    show ?thesis by (auto simp: try_acquire_async_def Let_def cbind_def map_err_def ret_def)
  qed
  with u(1) show ?thesis by blast
qed

subsection \<open>Witnesses\<close>

text \<open>The lock \<open>x\<close> on the reference server: free, or held by node \<open>n1\<close> for 500 ms.\<close>

definition held_lock :: ref_state where
  "held_lock = \<lparr>table = [(''plocks/x'', RStr ''n1'', Some 500), (''plocks/x:fence'', RStr ''4'', None)], log = []\<rparr>"

definition old_handle :: lease_state where
  "old_handle = \<lparr>lease_key = ''plocks/x'', holder = ''n1'', fence_token = 3, lease_ttl_ms = 500,
     expires_text = [], released = False, renewing = True\<rparr>"

lemma held_objs: "objs (ref_view held_lock) = [''plocks/x'' \<mapsto> (RStr ''n1'', Some 500), ''plocks/x:fence'' \<mapsto> (RStr ''4'', None)]"
  by (auto simp: held_lock_def ref_view_def)

lemma held_facts:
  "leased (ref_view held_lock) ''plocks/x'' ''n1'' 500"
  "lease_wf ''plocks/x'' ''plocks/x:fence'' 4 (ref_view held_lock)"
proof -
  have "parse_i64 ''4'' = Some 4" by code_simp
  then show "leased (ref_view held_lock) ''plocks/x'' ''n1'' 500"
    "lease_wf ''plocks/x'' ''plocks/x:fence'' 4 (ref_view held_lock)"
    by (simp_all add: leased_def lease_wf_def str_at_def held_objs str_slot_def counter_at_def)
qed

lemma free_facts:
  "lease_wf ''plocks/x'' ''plocks/x:fence'' 0 (ref_view ref_empty)" "\<not> live (ref_view ref_empty) ''plocks/x''"
  by (simp_all add: lease_wf_def str_slot_def counter_at_def live_def)

lemma lock_x_named: "\<not> blank ''mcpg-lock-x''"
  by (rule not_blank_ascii) (simp add: byte_in_def)

definition contention :: "lease_event list" where
  "contention = [LAcquire ''n2'' 100, LElapse 300, LRenew ''n1'' 500, LRelease ''n2'', LElapse 400, LAcquire ''n1'' 50]"

theorem lease_mutual_exclusion_witness:
  "grants ref_ops ''plocks/x'' ''plocks/x:fence'' contention held_lock = []"
  using lease_mutual_exclusion [OF ref.redis_server_axioms held_facts(1), of contention]
  by (simp add: contention_def px_ok_def)

definition takeover :: "lease_event list" where
  "takeover = [LElapse 501, LAcquire ''n2'' 100, LRelease ''n2'', LAcquire ''n3'' 100]"

lemma takeover_grants: "grants ref_ops ''plocks/x'' ''plocks/x:fence'' takeover held_lock = [5, 6]"
  by code_simp

theorem fence_tokens_increase_witness:
  "grants ref_ops ''plocks/x'' ''plocks/x:fence'' takeover held_lock = [5, 6] \<and>
   sorted_wrt (<) (grants ref_ops ''plocks/x'' ''plocks/x:fence'' takeover held_lock)"
proof (rule conjI [OF takeover_grants])
  have "list_all lease_event_ok takeover" "4 + int (length takeover) \<le> 2 ^ 53"
    by (simp_all add: takeover_def px_ok_def)
  from fence_tokens_increase [OF ref.redis_server_axioms held_facts(2) this(1) _ this(2)]
  show "sorted_wrt (<) (grants ref_ops ''plocks/x'' ''plocks/x:fence'' takeover held_lock)" by simp
qed

theorem lease_lifecycle_witness:
  "\<exists>st u. try_acquire_async ref_ops dec ''mcpg-lock-x'' ''plocks/x'' ''plocks/x:fence'' ''n1'' 500000000
     (ref_world 1000 ref_empty) = (Inr (Some st), u) \<and> fence_token st = 1"
  using lease_lifecycle [OF ref.redis_server_axioms _ lock_x_named, of "ref_world 1000 ref_empty" 500000000
      "''plocks/x''" "''plocks/x:fence''" 0 dec "''n1''"] free_facts
  by (auto simp: ttl_arg_ok_def ttl_ms_def in_i64_def)

theorem lost_lease_harmless_witness:
  "\<exists>u. release_state ref_ops (old_handle\<lparr>holder := ''n2''\<rparr>) (ref_world 1000 held_lock) =
     (Inr (), old_handle\<lparr>holder := ''n2'', released := True, renewing := False\<rparr>, u) \<and>
     ref_view (server u) = ref_view held_lock"
  using lost_lease_harmless [OF ref.redis_server_axioms, of "ref_world 1000 held_lock" "old_handle\<lparr>holder := ''n2''\<rparr>" dec]
    leased_facts [OF held_facts(1)]
  by (auto simp: old_handle_def px_ok_def)

theorem renewal_in_time_witness: "renewal_sleep 30 10000 = 7000000000"
  using renewal_in_time [of 10000 30] by simp

theorem acquire_waits_witness:
  "\<exists>st u. acquire_async ref_ops dec ''mcpg-lock-x'' ''plocks/x'' ''plocks/x:fence'' ''n2'' 500000000
     ((ref_world 1000 held_lock)\<lparr>env := [id, id, \<lambda>s. elapse ref_ops 501 s]\<rparr>) = Some (Inr st, u) \<and> fence_token st = 5"
proof -
  have gone: "\<not> live (ks_elapse 501 (ref_view held_lock)) ''plocks/x''"
    by (simp add: live_def ks_elapse_def held_objs)
  have "lease_wf ''plocks/x'' ''plocks/x:fence'' 4 (ref_view (elapse ref_ops 501 s)) \<and> \<not> live (ref_view (elapse ref_ops 501 s)) ''plocks/x''"
    if "ref_view s = ref_view held_lock" for s
    using held_facts(2) gone that
    by (auto simp: ref.elapse_view lease_wf_def counter_elapse elapse_readers(1))
  then show ?thesis
    using acquire_waits [OF ref.redis_server_axioms, of "(ref_world 1000 held_lock)\<lparr>env := [id, id, \<lambda>s. elapse ref_ops 501 s]\<rparr>"
        2 "\<lambda>s. elapse ref_ops 501 s" "''mcpg-lock-x''" 500000000 "''plocks/x''" "''plocks/x:fence''" 4 dec "''n2''"]
      held_facts(2) leased_facts [OF held_facts(1)] lock_x_named
    by (auto simp: numeral_2_eq_2 ttl_arg_ok_def ttl_ms_def in_i64_def)
qed

theorem fence_key_blocks_lock_witness:
  "\<exists>st u. try_acquire_async ref_ops dec ''mcpg-lock-x'' ''plocks/x'' ''plocks/x:fence'' ''n1'' 500000000
     (ref_world 1000 ref_empty) = (Inr (Some st), u) \<and>
     fst (try_acquire_async ref_ops dec ''mcpg-lock-x:fence'' ''plocks/x:fence'' ''plocks/x:fence:fence'' ''n2'' 500000000
       (u\<lparr>server := elapse ref_ops 1000000 (server u)\<rparr>)) = Inr None"
proof -
  have "\<not> blank ''mcpg-lock-x:fence''" by (rule not_blank_ascii) (simp add: byte_in_def)
  then show ?thesis
    using fence_key_blocks_lock [OF ref.redis_server_axioms _ lock_x_named, of "ref_world 1000 ref_empty" 500000000
        "''p''" "''locks''" "''x''" "''plocks/x''" "''plocks/x:fence''" 0 "''plocks/x:fence''" "''plocks/x:fence:fence''" dec "''n1''"]
      free_facts
    by (auto simp: ttl_arg_ok_def ttl_ms_def in_i64_def lease_keys_def)
qed

end
