(* ===== verification/Kv_Backfill.thy ===== *)
theory Kv_Backfill
  imports Kv_Upkeep
begin

section \<open>SCAN and the backfill of the key index\<close>

text \<open>
  What Redis documents of \<open>SCAN\<close>, as an interface \<open>scan_server\<close> that extends \<open>redis_server\<close>, and the
  backfill of \<open>state/kv.rs\<close> on it: whatever the index-writing replicas, the locks and the peer
  registrations do meanwhile, a backfill that reports success has left no live key out of the index.
\<close>

subsection \<open>Steps of everybody else\<close>

definition store_key :: "redis_kv \<Rightarrow> string \<Rightarrow> bool" where
  "store_key K k \<longleftrightarrow> data_key K k \<or> k = index_key K \<or> k = expiry_key K"

text \<open>
  One atomic execution by anybody: a script of the store, time, or a command of another component
  (leases, peers, the bus) on a key outside the store, or a read.
\<close>

inductive server_step :: "'s redis \<Rightarrow> redis_kv \<Rightarrow> 's \<Rightarrow> 's \<Rightarrow> bool" for R K s where
  store: "event_ok e \<Longrightarrow> server_step R K s (snd (run_event R K e s))"
| other_set: "\<not> store_key K k \<Longrightarrow> px_opt_ok px \<Longrightarrow> server_step R K s (snd (redis_set R k x nx px s))"
| other_del: "\<not> store_key K k \<Longrightarrow> server_step R K s (snd (redis_del R k s))"
| other_pexpire: "\<not> store_key K k \<Longrightarrow> px_ok ms \<Longrightarrow> server_step R K s (snd (redis_pexpire R k ms s))"
| other_incrby: "\<not> store_key K k \<Longrightarrow> server_step R K s (snd (redis_incrby R k d s))"
| other_zadd: "\<not> store_key K k \<Longrightarrow> server_step R K s (snd (redis_zadd R k sc m s))"
| other_zrem: "\<not> store_key K k \<Longrightarrow> server_step R K s (snd (redis_zrem R k m s))"
| other_zremrangebyscore:
    "\<not> store_key K k \<Longrightarrow> server_step R K s (snd (redis_zremrangebyscore R k lo hi s))"
| other_publish: "server_step R K s (snd (redis_publish R c p s))"
| read_get: "server_step R K s (snd (redis_get R k s))"
| read_pttl: "server_step R K s (snd (redis_pttl R k s))"
| read_exists: "server_step R K s (snd (redis_exists R k s))"
| read_mget: "server_step R K s (snd (redis_mget R ks s))"

text \<open>
  \<open>scan_miss ... k c s\<close>: a \<open>SCAN\<close> iteration has come to the cursor \<open>c\<close> in the state \<open>s\<close>, and the key
  \<open>k\<close> was there after every execution since its start without having been returned.
\<close>

inductive scan_miss ::
  "'s redis \<Rightarrow> ('s \<Rightarrow> keyspace) \<Rightarrow> redis_kv \<Rightarrow> string \<Rightarrow> nat \<Rightarrow> string \<Rightarrow> nat \<Rightarrow> 's \<Rightarrow> bool"
  for R view K pat cnt k where
  opened: "live (view s) k \<Longrightarrow> scan_miss R view K pat cnt k 0 s"
| meanwhile: "scan_miss R view K pat cnt k c s \<Longrightarrow> server_step R K s t \<Longrightarrow> live (view t) k \<Longrightarrow>
    scan_miss R view K pat cnt k c t"
| passed_by: "scan_miss R view K pat cnt k c s \<Longrightarrow> redis_scan R c pat cnt s = (Inr (c', batch), t) \<Longrightarrow>
    c' \<noteq> 0 \<Longrightarrow> k \<notin> set batch \<Longrightarrow> scan_miss R view K pat cnt k c' t"

text \<open>Everybody else in the world takes such steps, any number between two executions.\<close>

definition others_ok :: "'s redis \<Rightarrow> redis_kv \<Rightarrow> 's world \<Rightarrow> bool" where
  "others_ok R K w \<longleftrightarrow> (\<forall>e \<in> set (env w). \<forall>s. (server_step R K)\<^sup>*\<^sup>* s (e s))"

subsection \<open>The pattern of the backfill and what it leaves alone\<close>

definition backfill_pattern :: "redis_kv \<Rightarrow> string" where
  "backfill_pattern K = (if key_prefix K = [] then ''*'' else glob_escape (key_prefix K) @ '':*'')"

lemma glob_escape_append: "glob_escape (a @ b) = glob_escape a @ glob_escape b"
  by (induction a) auto

lemma data_keys_only:
  assumes "keys_apart K" and "\<forall>k \<in> set ks. data_key K k"
  shows "filter (\<lambda>k. k \<noteq> index_key K \<and> k \<noteq> expiry_key K \<and> k \<noteq> complete_key K) ks = ks"
    and "map (full_key K) (map (logical_key K) ks) = ks"
  using assms by (auto simp: filter_id_conv keys_apart_def data_key_iff intro!: map_idI)

lemma store_same:
  assumes "\<And>j. store_key K j \<Longrightarrow> objs u j = objs v j"
  shows "unlisted K u = unlisted K v" and "kv_wf K u = kv_wf K v"
proof -
  have eq: "objs u k = objs v k" if "data_key K k" for k using that assms by (simp add: store_key_def)
  have ix: "objs u (index_key K) = objs v (index_key K)" "objs u (expiry_key K) = objs v (expiry_key K)"
    using assms by (simp_all add: store_key_def)
  show "unlisted K u = unlisted K v"
    using eq ix by (auto simp: unlisted_def live_def members_def zset_at_def)
  show "kv_wf K u = kv_wf K v"
    using eq ix by (auto simp: kv_wf_def zset_ok_def all_scores_def str_slot_def members_def zset_at_def)
qed

definition beside :: "redis_kv \<Rightarrow> keyspace \<Rightarrow> keyspace \<Rightarrow> bool" where
  "beside K v u \<longleftrightarrow> kv_wf K u \<and> (\<forall>j. j \<noteq> index_key K \<longrightarrow> j \<noteq> expiry_key K \<longrightarrow> objs u j = objs v j)"

lemma beside_live: "keys_apart K \<Longrightarrow> beside K v u \<Longrightarrow> data_key K k \<Longrightarrow> live u k = live v k"
  by (metis beside_def keys_apart_def live_def)

lemma beside_bounded:
  assumes "beside K v u" and "finite (dom (objs v))"
  shows "finite (dom (objs u)) \<and> card (dom (objs u)) \<le> card (dom (objs v)) + 2"
proof -
  let ?D = "dom (objs v) \<union> {index_key K, expiry_key K}"
  have sub: "dom (objs u) \<subseteq> ?D" using assms(1) by (auto simp: beside_def dom_def)
  have fin: "finite ?D" using assms(2) by simp
  have "card (dom (objs u)) \<le> card ?D" by (rule card_mono [OF fin sub])
  also have "\<dots> \<le> card (dom (objs v)) + card {index_key K, expiry_key K}" by (rule card_Un_le)
  also have "\<dots> \<le> card (dom (objs v)) + 2" by (simp add: card_insert_if)
  finally show ?thesis using finite_subset [OF sub fin] by simp
qed

subsection \<open>The interface\<close>

text \<open>
  \<open>matches\<close> is Redis' glob matching. An iteration that ends has returned every matching key that was
  there all along; it ends when the number of keys stays bounded.
\<close>

locale scan_server = redis_server R view for R :: "'s redis" and view +
  fixes matches :: "string \<Rightarrow> string \<Rightarrow> bool"
  assumes scan_replies: "\<exists>c' batch t. redis_scan R c pat cnt s = (Inr (c', batch), t) \<and> view t = view s"
    and scan_found: "redis_scan R c pat cnt s = (Inr (c', batch), t) \<Longrightarrow> k \<in> set batch \<Longrightarrow>
      live (view s) k \<and> matches pat k"
    and scan_full: "scan_miss R view K pat cnt k c s \<Longrightarrow> matches pat k \<Longrightarrow>
      redis_scan R c pat cnt s = (Inr (0, batch), t) \<Longrightarrow> k \<in> set batch"
    and scan_ends: "(\<And>i. redis_scan R (cs i) pat cnt (ss i) = (Inr (cs (Suc i), bs i), ts i)) \<Longrightarrow>
      (\<And>i. (server_step R K)\<^sup>*\<^sup>* (ts i) (ss (Suc i))) \<Longrightarrow> cs 0 = 0 \<Longrightarrow>
      (\<And>i. finite (dom (objs (view (ss i)))) \<and> card (dom (objs (view (ss i)))) \<le> N) \<Longrightarrow> \<exists>i. cs (Suc i) = 0"
    and matches_prefix: "matches (glob_escape p @ ''*'') k \<longleftrightarrow> prefix p k"
begin

lemma scan_view: "redis_scan R c pat cnt s = (r, t) \<Longrightarrow> view t = view s"
  using scan_replies [of c pat cnt s] by auto

text \<open>Steps on foreign keys do not show in the store.\<close>

lemma foreign_step:
  assumes "sim view m n" and "only_key k n" and "\<not> store_key K k" and "store_key K j"
  shows "objs (view (snd (m s))) j = objs (view s) j"
proof -
  have "j \<noteq> k" using assms(3,4) by blast
  have "snd (n (view s)) = ks_put k (objs (snd (n (view s))) k) (view s)"
    using assms(2) unfolding only_key_def by blast
  then have "objs (snd (n (view s))) j = objs (view s) j"
    using \<open>j \<noteq> k\<close> by (metis ks_put_objs)
  then show ?thesis by (simp add: sim_view [OF assms(1)])
qed

lemma step_cases:
  assumes "server_step R K s t"
  obtains (store) e where "event_ok e" and "t = snd (run_event R K e s)"
  | (foreign) "\<And>j. store_key K j \<Longrightarrow> objs (view t) j = objs (view s) j"
  using assms
proof cases
  case (other_set k px x nx)
  with foreign foreign_step [OF set_sim one_key_commands(1)] show ?thesis by blast
next
  case (other_del k)
  with foreign foreign_step [OF del_sim one_key_commands(2)] show ?thesis by blast
next
  case (other_pexpire k ms)
  with foreign foreign_step [OF pexpire_sim one_key_commands(3)] show ?thesis by blast
next
  case (other_incrby k d)
  with foreign foreign_step [OF incrby_sim one_key_commands(5)] show ?thesis by blast
next
  case (other_zadd k sc m)
  with foreign foreign_step [OF zadd_sim one_key_commands(6)] show ?thesis by blast
next
  case (other_zrem k m)
  with foreign foreign_step [OF zrem_sim one_key_commands(7)] show ?thesis by blast
next
  case (other_zremrangebyscore k lo hi)
  with foreign foreign_step [OF zremrangebyscore_sim one_key_commands(8)] show ?thesis by blast
next
  case (other_publish c p)
  then have "objs (view t) j = objs (view s) j" for j
    using publish_replies [of c p s] publish_feed [of c p s] by auto
  then show ?thesis by (rule foreign)
next
  case (read_get k)
  with foreign sim_view [OF get_sim, of k s] show ?thesis by (simp add: ks_get_def split: option.splits robj.splits)
next
  case (read_pttl k)
  with foreign sim_view [OF pttl_sim, of k s] show ?thesis by (simp add: ks_pttl_def split: option.splits)
next
  case (read_exists k)
  with foreign sim_view [OF exists_sim, of k s] show ?thesis by (simp add: ks_exists_def)
next
  case (read_mget ks)
  with foreign sim_view [OF mget_sim, of ks s] show ?thesis by (simp add: ks_mget_def)
qed (rule store)


subsection \<open>What a pass still owes\<close>

text \<open>
  \<open>owed K pat D fin c s\<close>: every live key missing from the index is in \<open>D\<close> (returned, still to be
  indexed) or the iteration, which has not ended, is yet to return it.
\<close>

definition owed :: "redis_kv \<Rightarrow> string \<Rightarrow> nat \<Rightarrow> string set \<Rightarrow> bool \<Rightarrow> nat \<Rightarrow> 's \<Rightarrow> bool" where
  "owed K pat cnt D fin c s \<longleftrightarrow> kv_wf K (view s) \<and>
     (\<forall>k \<in> unlisted K (view s). k \<in> D \<or> \<not> fin \<and> scan_miss R view K pat cnt k c s)"

lemma step_store:
  assumes "server_step R K s t" and "kv_wf K (view s)"
  shows "kv_wf K (view t)" and "unlisted K (view t) \<subseteq> unlisted K (view s)"
proof -
  have "kv_wf K (view t) \<and> unlisted K (view t) \<subseteq> unlisted K (view s)"
  proof (rule step_cases [OF assms(1)])
    fix e
    assume "event_ok e" "t = snd (run_event R K e s)"
    then show ?thesis
      using sim_view [OF event_sim, of e K s] index_keeper.keeps_wf [OF event_keeper assms(2), of R e]
        index_keeper.keeps_unlisted [OF event_keeper assms(2), of R e] by simp
  qed (use assms(2) store_same [of K "view t" "view s"] in auto)
  then show "kv_wf K (view t)" and "unlisted K (view t) \<subseteq> unlisted K (view s)" by simp_all
qed

lemma owed_step:
  assumes "server_step R K s t" and "owed K pat cnt D fin c s"
  shows "owed K pat cnt D fin c t"
proof -
  have wf: "kv_wf K (view s)" using assms(2) by (simp add: owed_def)
  have "scan_miss R view K pat cnt k c t" if "scan_miss R view K pat cnt k c s" "k \<in> unlisted K (view t)" for k
    by (rule scan_miss.meanwhile [OF that(1) assms(1)]) (use that(2) in \<open>simp add: unlisted_def\<close>)
  then show ?thesis
    using assms(2) step_store [OF assms(1) wf] unfolding owed_def by blast
qed

lemma owed_steps: "(server_step R K)\<^sup>*\<^sup>* s t \<Longrightarrow> owed K pat cnt D fin c s \<Longrightarrow> owed K pat cnt D fin c t"
  by (induction rule: rtranclp_induct) (auto intro: owed_step)

lemma owed_open: "kv_wf K (view s) \<Longrightarrow> owed K pat cnt {} False 0 s"
  by (auto simp: owed_def unlisted_def intro: scan_miss.opened)

lemma owed_scan:
  assumes "owed K pat cnt {} False c s" and "redis_scan R c pat cnt s = (Inr (c', batch), t)"
    and "\<And>k. data_key K k \<Longrightarrow> matches pat k"
  shows "owed K pat cnt (set batch) (c' = 0) c' t"
proof -
  have v: "view t = view s" using scan_view [OF assms(2)] .
  have "k \<in> set batch \<or> c' \<noteq> 0 \<and> scan_miss R view K pat cnt k c' t"
    if "scan_miss R view K pat cnt k c s" and "matches pat k" for k
    using that assms(2) scan_full [of K pat cnt k c s batch t] scan_miss.passed_by [of R view K pat cnt k c s c' batch t]
    by auto
  then show ?thesis using assms(1,3) by (auto simp: owed_def v unlisted_def)
qed

subsection \<open>Indexing a batch\<close>

lemma backfill_lists:
  assumes "kv_wf K v" and "\<forall>k \<in> set ks. data_key K k"
  shows "\<exists>u m. for_count (backfill_one (ks_ops R) (index_key K) (expiry_key K) now) ks n v = (Inr m, u) \<and>
    n \<le> m \<and> kv_wf K u \<and> unlisted K u \<subseteq> unlisted K v - set ks \<and>
    (\<forall>j. j \<noteq> index_key K \<longrightarrow> j \<noteq> expiry_key K \<longrightarrow> objs u j = objs v j)"
  using assms
proof (induction ks arbitrary: n v)
  case Nil
  then show ?case by (simp add: ret_def)
next
  case (Cons k ks)
  then have dk: "data_key K k" by simp
  let ?t = "snd (backfill_one (ks_ops R) (index_key K) (expiry_key K) now k v)"
  have one: "backfill_one (ks_ops R) (index_key K) (expiry_key K) now k v = (Inr (if live v k then 1 else 0), ?t)"
    using backfill_one_ks [OF Cons.prems(1) dk, of R now] by (auto simp: live_def split: option.splits)
  have wf: "kv_wf K ?t" by (rule upkeep_one_wf(3) [OF Cons.prems(1) dk])
  have kept: "kept K v ?t"
    using backfill_one_ks [OF Cons.prems(1) dk, of R now] Cons.prems(1) dk
    by (auto intro!: kept.intros str_entry_retime split: option.splits)
  have "k \<notin> unlisted K ?t"
    using backfill_one_ks [OF Cons.prems(1) dk, of R now] touch_members(1) [OF Cons.prems(1) dk]
    by (auto simp: unlisted_def live_def split: option.splits)
  then have un: "unlisted K ?t \<subseteq> unlisted K v - {k}" using kept_unlisted [OF kept Cons.prems(1)] by blast
  have same: "objs ?t j = objs v j" if "j \<noteq> index_key K" "j \<noteq> expiry_key K" for j
    using backfill_one_ks [OF Cons.prems(1) dk, of R now] touch_objs [OF Cons.prems(1) dk that]
    by (auto split: option.splits)
  from Cons.IH [OF wf, of "n + (if live v k then 1 else 0)"] Cons.prems(2) obtain u m where
    "for_count (backfill_one (ks_ops R) (index_key K) (expiry_key K) now) ks (n + (if live v k then 1 else 0)) ?t = (Inr m, u)"
    "n + (if live v k then 1 else 0) \<le> m" "kv_wf K u" "unlisted K u \<subseteq> unlisted K ?t - set ks"
    "\<forall>j. j \<noteq> index_key K \<longrightarrow> j \<noteq> expiry_key K \<longrightarrow> objs u j = objs ?t j" by auto
  with un same show ?case
    by (intro exI [of _ u] exI [of _ m]) (auto simp: cbind_step [where m = "backfill_one _ _ _ _ _" and s = v, OF one] split: if_splits)
qed

subsection \<open>The pass among the others\<close>

lemma invoke_among:
  assumes "others_ok R K w" and "invoke R m w = (Inr x, u)"
  obtains s where "(server_step R K)\<^sup>*\<^sup>* (server w) s" and "m s = (Inr x, server u)" and "others_ok R K u"
proof -
  let ?s = "case env w of [] \<Rightarrow> server w | e # _ \<Rightarrow> e (server w)"
  have "(server_step R K)\<^sup>*\<^sup>* (server w) ?s" using assms(1) by (auto simp: others_ok_def split: list.splits)
  moreover have "m ?s = (Inr x, server u)" "env u = tl (env w)"
    using assms(2)
    by (auto simp: invoke_def round_trip_def exec_def Let_def split: list.splits link.splits prod.splits)
  moreover have "others_ok R K u"
    using assms(1) \<open>env u = tl (env w)\<close> by (cases "env w") (auto simp: others_ok_def)
  ultimately show thesis using that by blast
qed

lemma scan_keys_among:
  assumes "others_ok R K w" and "scan_keys R c pat w = (Inr (c', found), u)"
  obtains s where "(server_step R K)\<^sup>*\<^sup>* (server w) s"
    and "redis_scan R c pat SCAN_COUNT s = (Inr (c', found), server u)" and "others_ok R K u"
proof -
  have "invoke R (redis_scan R c pat SCAN_COUNT) w = (Inr (c', found), u)"
    using assms(2)
    by (auto simp: scan_keys_def map_err_def cbind_def as_strings_def ret_def raise_def split: prod.splits sum.splits if_splits)
  from invoke_among [OF assms(1) this] that show thesis by blast
qed

lemma backfill_matches:
  "matches (backfill_pattern K) k \<longleftrightarrow> data_key K k"
  using matches_prefix [of "full_key K []" k]
  by (cases "key_prefix K = []") (simp_all add: backfill_pattern_def data_key_def full_key_def glob_escape_append)

text \<open>Indexing what was found settles it.\<close>

lemma owed_backfill:
  assumes "owed K pat cnt (set ks) fin c s" and "\<forall>k \<in> set ks. data_key K k"
    and "backfill_lua R (index_key K) (expiry_key K) now ks s = (Inr n, t)"
  shows "owed K pat cnt {} fin c t"
proof -
  have wf: "kv_wf K (view s)" using assms(1) by (simp add: owed_def)
  let ?e = "EBackfill now (map (logical_key K) ks)"
  have "snd (run_event R K ?e s) = t"
    using assms(3) data_keys_only(2) [OF kv_wfD(1) [OF wf] assms(2)] by simp
  then have "server_step R K s t" using server_step.store [of ?e R K s] by simp
  from owed_step [OF this assms(1)] have owed: "owed K pat cnt (set ks) fin c t" .
  have "backfill_lua (ks_ops R) (index_key K) (expiry_key K) now ks (view s) = (Inr n, view t)"
    by (rule simD [OF backfill_lua_sim assms(3)])
  then have "unlisted K (view t) \<inter> set ks = {}"
    using backfill_lists [OF wf assms(2), of "dbl now" 0] unfolding backfill_lua_def by auto
  with owed show ?thesis by (auto simp: owed_def)
qed

lemma backfill_turn_owed:
  assumes ok: "others_ok R K w" and owed: "owed K (backfill_pattern K) SCAN_COUNT {} False c (server w)"
    and turn: "backfill_turn R K (backfill_pattern K) (c, n) w = (Inr r, u)"
  shows "others_ok R K u \<and> (case r of
      Inl m \<Rightarrow> owed K (backfill_pattern K) SCAN_COUNT {} True 0 (server u)
    | Inr (c', m) \<Rightarrow> owed K (backfill_pattern K) SCAN_COUNT {} False c' (server u))"
proof -
  let ?pat = "backfill_pattern K"
  obtain c' found x where sk: "scan_keys R c ?pat w = (Inr (c', found), x)"
    using turn by (auto simp: backfill_turn_def cbind_def split: prod.splits sum.splits)
  obtain s where s: "(server_step R K)\<^sup>*\<^sup>* (server w) s" "redis_scan R c ?pat SCAN_COUNT s = (Inr (c', found), server x)"
    and okx: "others_ok R K x"
    using scan_keys_among [OF ok sk] by blast
  have owedx: "owed K ?pat SCAN_COUNT (set found) (c' = 0) c' (server x)"
    by (rule owed_scan [OF owed_steps [OF s(1) owed] s(2)]) (simp add: backfill_matches)
  then have apart: "keys_apart K" by (auto simp: owed_def kv_wf_def)
  have dk: "\<forall>k \<in> set found. data_key K k" using scan_found [OF s(2)] by (auto simp: backfill_matches)
  note found = data_keys_only(1) [OF apart dk]
  have weaken: "owed K ?pat SCAN_COUNT {} (c' = 0) c' t \<Longrightarrow> c' \<noteq> 0 \<Longrightarrow> owed K ?pat SCAN_COUNT {} False c' t"
    "owed K ?pat SCAN_COUNT {} (c' = 0) c' t \<Longrightarrow> c' = 0 \<Longrightarrow> owed K ?pat SCAN_COUNT {} True 0 t" for t by auto
  show ?thesis
  proof (cases "found = []")
    case True
    then have "u = x" "r = (if c' = 0 then Inl n else Inr (c', n))"
      using turn sk by (auto simp: backfill_turn_def cbind_def ret_def split: if_splits)
    with True owedx okx weaken show ?thesis by auto
  next
    case False
    then obtain m where inv: "invoke R (backfill_lua R (index_key K) (expiry_key K) (now_ms x) found) x = (Inr m, u)"
      and r: "r = (if c' = 0 then Inl (n + nat m) else Inr (c', n + nat m))"
      using turn sk found
      by (auto simp: backfill_turn_def cbind_def ret_def reading_def map_err_def split: if_splits prod.splits sum.splits)
    from invoke_among [OF okx inv] obtain s' where "(server_step R K)\<^sup>*\<^sup>* (server x) s'" and oku: "others_ok R K u"
      and "backfill_lua R (index_key K) (expiry_key K) (now_ms x) found s' = (Inr m, server u)" by blast
    then have "owed K ?pat SCAN_COUNT {} (c' = 0) c' (server u)"
      using owed_backfill [OF owed_steps [OF _ owedx] dk] by blast
    with oku r weaken show ?thesis by auto
  qed
qed

lemma backfill_complete:
  assumes "others_ok R K w" and "kv_wf K (view (server w))" and "backfill_index R K w = Some (Inr n, u)"
  shows "kv_wf K (view (server u)) \<and> kv_complete K (view (server u)) \<and> others_ok R K u"
proof -
  let ?pat = "backfill_pattern K"
  have "loop (backfill_turn R K ?pat) (0, 0) w = Some (Inr n, u)"
    using assms(3) by (simp add: backfill_index_def backfill_pattern_def)
  then have "others_ok R K u \<and> owed K ?pat SCAN_COUNT {} True 0 (server u)"
  proof (rule loop_rule [where I = "\<lambda>a w. others_ok R K w \<and> owed K ?pat SCAN_COUNT {} False (fst a) (server w)"])
    show "others_ok R K w \<and> owed K ?pat SCAN_COUNT {} False (fst (0, 0)) (server w)"
      using assms(1) owed_open [OF assms(2)] by simp
  qed (use backfill_turn_owed in \<open>fastforce+\<close>)
  then show ?thesis by (auto simp: owed_def kv_complete_unlisted)
qed

subsection \<open>The pass ends\<close>

text \<open>
  Left alone, on a server with finitely many keys: no turn fails, the keyspace outside the two indexes
  stays as it is, so the number of keys stays bounded and the iteration ends.
\<close>

lemma backfill_turn_quiet:
  assumes "quiet w" and wf: "kv_wf K v" and bes: "beside K v (view (server w))"
    and utf: "\<forall>k. data_key K k \<and> live v k \<longrightarrow> valid_utf8 k"
  shows "\<exists>c' batch t m u. redis_scan R c (backfill_pattern K) SCAN_COUNT (server w) = (Inr (c', batch), t) \<and>
    backfill_turn R K (backfill_pattern K) (c, n) w = (Inr (if c' = 0 then Inl m else Inr (c', m)), u) \<and>
    (server_step R K)\<^sup>*\<^sup>* t (server u) \<and> quiet u \<and> beside K v (view (server u))"
proof -
  let ?pat = "backfill_pattern K"
  have apart: "keys_apart K" using kv_wfD(1) [OF wf] .
  obtain c' found t where sc: "redis_scan R c ?pat SCAN_COUNT (server w) = (Inr (c', found), t)" "view t = view (server w)"
    using scan_replies by blast
  have dk: "\<forall>k \<in> set found. data_key K k" using scan_found [OF sc(1)] by (auto simp: backfill_matches)
  have "list_all valid_utf8 found"
    using scan_found [OF sc(1)] dk utf beside_live [OF apart bes] by (auto simp: list_all_iff)
  moreover obtain x where x: "invoke R (redis_scan R c ?pat SCAN_COUNT) w = (Inr (c', found), x)" "server x = t" "quiet x"
    using quiet_trip [where m = "redis_scan R c ?pat SCAN_COUNT", OF assms(1) sc(1), of "show_error R"]
    by (auto simp: invoke_def)
  ultimately have sk: "scan_keys R c ?pat w = (Inr (c', found), x)"
    by (simp add: scan_keys_def map_err_def cbind_def as_strings_def ret_def)
  note found = data_keys_only(1) [OF apart dk]
  show ?thesis
  proof (cases "found = []")
    case True
    then have "backfill_turn R K ?pat (c, n) w = (Inr (if c' = 0 then Inl n else Inr (c', n)), x)"
      using sk by (simp add: backfill_turn_def cbind_def ret_def)
    with sc x bes show ?thesis
      by (intro exI [of _ c'] exI [of _ found] exI [of _ t] exI [of _ n] exI [of _ x]) auto
  next
    case False
    let ?lua = "backfill_lua R (index_key K) (expiry_key K) (now_ms x) found"
    have wft: "kv_wf K (view t)" using bes sc(2) by (simp add: beside_def)
    obtain y m where y: "backfill_lua (ks_ops R) (index_key K) (expiry_key K) (now_ms x) found (view t) = (Inr m, y)"
      "beside K v y"
      using backfill_lists [OF wft dk, of "dbl (now_ms x)" 0] bes sc(2) unfolding backfill_lua_def beside_def by auto
    obtain u where u: "invoke R ?lua x = (Inr m, u)" "view (server u) = y" "quiet u"
      using invoke_quiet [OF x(3) backfill_lua_sim, of "index_key K" "expiry_key K" "now_ms x" found] y(1) x(2) by auto
    have "others_ok R K x" using x(3) by (simp add: others_ok_def quiet_def)
    have step: "?lua t = (Inr m, server u)"
      using u(1) x(2,3)
      by (auto simp: invoke_def round_trip_up [OF quiet_up [OF x(3)]] exec_calm quiet_def split: prod.splits)
    let ?e = "EBackfill (now_ms x) (map (logical_key K) found)"
    have "server_step R K t (server u)"
      using server_step.store [of ?e R K t] step data_keys_only(2) [OF apart dk] by simp
    moreover have "backfill_turn R K ?pat (c, n) w = (Inr (if c' = 0 then Inl (n + nat m) else Inr (c', n + nat m)), u)"
      using sk False found u(1)
      by (simp add: backfill_turn_def cbind_def ret_def reading_def map_err_def)
    ultimately show ?thesis using sc(1) u y(2)
      by (intro exI [of _ c'] exI [of _ found] exI [of _ t] exI [of _ "n + nat m"] exI [of _ u]) auto
  qed
qed

lemma backfill_ends:
  assumes "quiet w" and wf: "kv_wf K (view (server w))" and fin: "finite (dom (objs (view (server w))))"
    and utf: "\<forall>k. data_key K k \<and> live (view (server w)) k \<longrightarrow> valid_utf8 k"
  shows "\<exists>n u. backfill_index R K w = Some (Inr n, u)"
proof (rule ccontr)
  let ?pat = "backfill_pattern K" and ?v = "view (server w)"
  let ?f = "unroll (backfill_turn R K ?pat) ((0, 0), w)"
  let ?I = "\<lambda>w. quiet w \<and> beside K ?v (view (server w))"
  assume none: "\<not> ?thesis"
  have start: "?I w" using assms(1) wf by (simp add: beside_def)
  note turn = backfill_turn_quiet [OF _ wf _ utf]
  have "loop (backfill_turn R K ?pat) (0, 0) w = None"
  proof (rule ccontr)
    assume "\<not> ?thesis"
    then obtain r u where run: "loop (backfill_turn R K ?pat) (0, 0) w = Some (r, u)" by auto
    moreover have "\<exists>b. r = Inr b"
      by (rule loop_result [where I = "\<lambda>a w. ?I w", OF run start]) (use turn in \<open>fastforce split: if_splits\<close>)+
    ultimately show False using none by (auto simp: backfill_index_def backfill_pattern_def)
  qed
  note on = loop_forever [OF this]
  have inv: "?I (snd (?f i))" for i
  proof (induction i)
    case (Suc i)
    with turn [of "snd (?f i)" "fst (fst (?f i))" "snd (fst (?f i))"] goes_onE [OF on [of i]] show ?case by auto
  qed (use start in simp)
  define cs where "cs i = fst (fst (?f i))" for i
  have "\<exists>batch t. redis_scan R (cs i) ?pat SCAN_COUNT (server (snd (?f i))) = (Inr (cs (Suc i), batch), t) \<and>
      cs (Suc i) \<noteq> 0 \<and> (server_step R K)\<^sup>*\<^sup>* t (server (snd (?f (Suc i))))" for i
    using turn [of "snd (?f i)" "fst (fst (?f i))" "snd (fst (?f i))"] inv [of i] goes_onE [OF on [of i]]
    by (auto simp: cs_def split: if_splits)
  then obtain bs ts where seq: "\<And>i. redis_scan R (cs i) ?pat SCAN_COUNT (server (snd (?f i))) = (Inr (cs (Suc i), bs i), ts i)"
    "\<And>i. (server_step R K)\<^sup>*\<^sup>* (ts i) (server (snd (?f (Suc i))))" "\<And>i. cs (Suc i) \<noteq> 0"
    by metis
  have "\<exists>i. cs (Suc i) = 0"
    by (rule scan_ends [where ss = "\<lambda>i. server (snd (?f i))", OF seq(1,2)])
       (use inv beside_bounded fin in \<open>auto simp: cs_def\<close>)
  with seq(3) show False by blast
qed

lemma backfill_beside:
  assumes "quiet w" and wf: "kv_wf K (view (server w))"
    and utf: "\<forall>k. data_key K k \<and> live (view (server w)) k \<longrightarrow> valid_utf8 k"
    and run: "backfill_index R K w = Some (Inr n, u)"
  shows "beside K (view (server w)) (view (server u))"
proof -
  let ?pat = "backfill_pattern K" and ?I = "\<lambda>x. quiet x \<and> beside K (view (server w)) (view (server x))"
  note turn = backfill_turn_quiet [OF _ wf _ utf]
  have "loop (backfill_turn R K ?pat) (0, 0) w = Some (Inr n, u)"
    using run by (simp add: backfill_index_def backfill_pattern_def)
  then show ?thesis
  proof (rule loop_rule [where I = "\<lambda>a. ?I"])
    show "?I w" using assms(1) wf by (simp add: beside_def)
    show "?I y" if "?I x" "backfill_turn R K ?pat a x = (Inr (Inr c), y)" for a x c y
      using that turn [of x "fst a" "snd a"] by auto
    show "beside K (view (server w)) (view (server y))"
      if "?I x" "backfill_turn R K ?pat a x = (Inr (Inl b), y)" for a x b y
      using that turn [of x "fst a" "snd a"] by auto
  qed
qed

end

subsection \<open>The reference server meets the interface\<close>

lemma glob_star: "glob ''*'' k"
  by (induction k) (simp_all add: glob.simps)

lemma glob_literal:
  "glob (glob_escape [c] @ p) k \<longleftrightarrow> (case k of [] \<Rightarrow> False | x # ks \<Rightarrow> x = c \<and> glob p ks)"
  by (auto simp: glob.simps(2) split: list.splits)

lemma glob_prefix: "glob (glob_escape p @ ''*'') k \<longleftrightarrow> prefix p k"
proof (induction p arbitrary: k)
  case Nil
  then show ?case by (simp add: glob_star)
next
  case (Cons c p)
  have "glob_escape (c # p) = glob_escape [c] @ glob_escape p" by simp
  then show ?case using Cons.IH glob_literal [of c "glob_escape p @ ''*''" k] by (auto split: list.splits)
qed

lemma ref_scan: "redis_scan ref_ops c pat cnt s = (Inr (0, filter (glob pat) (remdups (map fst (table s)))), s)"
  by (simp add: ref_ops_def)

lemma ref_live: "live (ref_view s) k \<longleftrightarrow> k \<in> fst ` set (table s)"
  by (simp add: live_def ref_view_def map_of_eq_None_iff)

lemma ref_miss_live: "scan_miss ref_ops ref_view K pat cnt k c s \<Longrightarrow> live (ref_view s) k"
  by (induction rule: scan_miss.induct) (auto simp: ref_scan)

interpretation refscan: scan_server ref_ops ref_view glob
proof (unfold_locales, goal_cases)
  case (2 c pat cnt s c' batch t k)
  then show ?case by (auto simp: ref_scan ref_live)
next
  case (3 K pat cnt k c s batch t)
  then show ?case using ref_miss_live [of K pat cnt k c s] by (simp add: ref_scan ref_live) force
qed (auto simp: ref_scan glob_prefix)

subsection \<open>Properties\<close>

text \<open>
  C30. A backfill completes the key index among a running fleet: whatever the index-writing replicas
  (any scripts of the store, in any interleaving with the batches), the other components and time do
  between its commands, a \<open>backfill_index\<close> that reports success leaves every live key in the key index,
  however incomplete the index was before.
\<close>

theorem backfill_completes:
  assumes "scan_server R view matches" and "kv_wf K (view (server w))"
    and "others_ok R K w" and "backfill_index R K w = Some (Inr n, u)" and "live (view (server u)) (full_key K key)"
  shows "full_key K key \<in> members (view (server u)) (index_key K)"
  using scan_server.backfill_complete [OF assms(1,3,2,4)] assms(5)
  by (auto simp: kv_complete_def)

text \<open>
  C31. A backfill left alone ends and succeeds, on every server with finitely many keys whose names are
  UTF-8; it touches no key but the two indexes.
\<close>

theorem backfill_returns:
  assumes "scan_server R view matches" and "quiet w" and "kv_wf K (view (server w))"
    and "finite (dom (objs (view (server w))))"
    and "\<forall>k. data_key K k \<and> live (view (server w)) k \<longrightarrow> valid_utf8 k"
  shows "\<exists>n u. backfill_index R K w = Some (Inr n, u) \<and>
    (\<forall>k. k \<noteq> index_key K \<longrightarrow> k \<noteq> expiry_key K \<longrightarrow> objs (view (server u)) k = objs (view (server w)) k)"
  using scan_server.backfill_ends [OF assms] scan_server.backfill_beside [OF assms(1-3,5)]
  by (auto simp: beside_def)

text \<open>A key from before the index.\<close>

definition old_key :: ref_state where
  "old_key = \<lparr>table = [(''p:a'', RStr ''1'', None)], log = []\<rparr>"

lemma old_key_facts:
  "objs (ref_view old_key) = [''p:a'' \<mapsto> (RStr ''1'', None)]"
  "kv_wf (with_connection_manager ''p'') (ref_view old_key)"
  "live (ref_view old_key) k \<Longrightarrow> valid_utf8 k"
proof -
  show o: "objs (ref_view old_key) = [''p:a'' \<mapsto> (RStr ''1'', None)]" by (simp add: old_key_def ref_view_def)
  show "kv_wf (with_connection_manager ''p'') (ref_view old_key)"
    unfolding kv_wf_def using keys_apart_prefix [of "''p''"]
    by (auto simp: o with_connection_manager_def zset_ok_def all_scores_def str_slot_def
        members_def zset_at_def data_key_def full_key_def)
  show "live (ref_view old_key) k \<Longrightarrow> valid_utf8 k"
    by (auto simp: o live_def valid_utf8_ascii byte_in_def split: if_splits)
qed

theorem backfill_returns_witness:
  "\<exists>n u. backfill_index ref_ops (with_connection_manager ''p'') (ref_world 1000 old_key) = Some (Inr n, u) \<and>
     objs (ref_view (server u)) ''p:a'' = Some (RStr ''1'', None)"
proof -
  have "finite (dom (objs (ref_view old_key)))" by (simp add: old_key_facts(1))
  then show ?thesis
    using backfill_returns [OF refscan.scan_server_axioms, of "ref_world 1000 old_key" "with_connection_manager ''p''"]
      old_key_facts(2,3)
    by (fastforce simp: old_key_facts(1) with_connection_manager_def)
qed

theorem backfill_completes_witness:
  "\<exists>n u. backfill_index ref_ops (with_connection_manager ''p'') (ref_world 1000 old_key) = Some (Inr n, u) \<and>
     ''p:a'' \<in> members (ref_view (server u)) ''p#kv-index''"
proof -
  let ?K = "with_connection_manager ''p''" and ?w = "ref_world 1000 old_key"
  have fin: "finite (dom (objs (ref_view old_key)))" by (simp add: old_key_facts(1))
  obtain n u where run: "backfill_index ref_ops ?K ?w = Some (Inr n, u)"
    using refscan.backfill_ends [of ?w ?K] old_key_facts(2,3) fin by auto
  have "beside ?K (ref_view old_key) (ref_view (server u))"
    using refscan.backfill_beside [OF _ _ _ run] old_key_facts(2,3) by simp
  then have "live (ref_view (server u)) (full_key ?K ''a'')"
    using beside_live [OF kv_wfD(1) [OF old_key_facts(2)] _ data_key_full, of _ _ "''a''"]
    by (simp add: old_key_facts(1) live_def) (simp add: full_key_def with_connection_manager_def)
  from backfill_completes [OF refscan.scan_server_axioms _ _ run this] old_key_facts(2) run show ?thesis
    by (auto simp: others_ok_def full_key_def with_connection_manager_def)
qed

end
