(* ===== verification/Peer.thy ===== *)
theory Peer
  imports Kv_Backfill
begin

section \<open>The peer registry\<close>

text \<open>
  \<open>peer.rs\<close>: every instance keeps a registration key with a lifetime and its node id in the sorted set
  of peers, scored by when the registration expires; a listing reads the set and, for builds that
  predate it, a scan of the registration keys that is cached for a while. The JSON text of a
  registration is what \<open>serde_json\<close> makes of it, a parameter \<open>J\<close>; the text of a date is \<open>chrono\<close>'s, a
  parameter \<open>rfc3339\<close> from Unix milliseconds. \<open>Instant\<close>s are nanoseconds of the monotonic clock.
\<close>

record peer_registration =
  reg_address :: string
  reg_last_seen :: string
  reg_roles :: "string list"
  reg_kv_index :: bool

record registration_json =
  reg_to_string :: "peer_registration \<Rightarrow> string + string"
  reg_from_str :: "string \<Rightarrow> peer_registration option"

type_synonym registration = "string \<times> peer_registration"

record legacy_peer_scan =
  max_age :: nat
  last_scan :: "(nat \<times> registration list) option"

datatype peer_health = Healthy

record cluster_peer =
  peer_node_id :: string
  peer_address :: string
  peer_last_seen :: string
  peer_health_is :: peer_health
  peer_roles :: "string list"

subsection \<open>Names\<close>

definition peer_key :: "string \<Rightarrow> string \<Rightarrow> string" where
  "peer_key pfx node = pfx @ ''peers/'' @ node"

definition peers_pattern :: "string \<Rightarrow> string" where
  "peers_pattern pfx = pfx @ ''peers/*''"

definition peers_index_key :: "string \<Rightarrow> string" where
  "peers_index_key pfx = pfx @ ''#peers''"

subsection \<open>The cached scan\<close>

definition LEGACY_SCAN_INTERVAL :: nat where
  "LEGACY_SCAN_INTERVAL = 30 * 1000000000"

definition legacy_new :: "nat \<Rightarrow> legacy_peer_scan" where
  "legacy_new peer_ttl = \<lparr>max_age = min LEGACY_SCAN_INTERVAL peer_ttl, last_scan = None\<rparr>"

definition forget :: "legacy_peer_scan \<Rightarrow> legacy_peer_scan" where
  "forget legacy = legacy\<lparr>last_scan := None\<rparr>"

text \<open>The client library's conversion of a reply to \<open>Vec<Option<String>>\<close>.\<close>

definition as_opt_strings :: "'s redis \<Rightarrow> string option list \<Rightarrow> ('w, string option list) cmd" where
  "as_opt_strings R vs = (if list_all (case_option True valid_utf8) vs then ret vs else raise (utf8_error R))"

definition node_of :: "string \<Rightarrow> string \<Rightarrow> string" where
  "node_of pfx key = (case strip_prefix (pfx @ ''peers/'') key of Some n \<Rightarrow> n | None \<Rightarrow> key)"

text \<open>The loop of \<open>read_registrations\<close> over keys and values: gone and malformed ones are left out.\<close>

fun decode_registrations ::
  "registration_json \<Rightarrow> string \<Rightarrow> (string \<times> string option) list \<Rightarrow> registration list" where
  "decode_registrations J pfx [] = []"
| "decode_registrations J pfx ((key, None) # rest) = decode_registrations J pfx rest"
| "decode_registrations J pfx ((key, Some raw) # rest) =
     (case reg_from_str J raw of
        None \<Rightarrow> decode_registrations J pfx rest
      | Some reg \<Rightarrow> (node_of pfx key, reg) # decode_registrations J pfx rest)"

definition read_registrations ::
  "'s redis \<Rightarrow> registration_json \<Rightarrow> string \<Rightarrow> string list \<Rightarrow> ('s, registration list) op" where
  "read_registrations R J pfx keys =
     (if keys = [] then ret []
      else cbind (map_err (\<lambda>e. BackendUnavailable (''peer MGET: '' @ e))
             (cbind (invoke R (redis_mget R keys)) (as_opt_strings R)))
           (\<lambda>values. ret (decode_registrations J pfx (zip keys values))))"

text \<open>One turn of the \<open>SCAN\<close> loop over (keys, cursor).\<close>

definition peer_scan_turn ::
  "'s redis \<Rightarrow> string \<Rightarrow> string list \<times> nat \<Rightarrow> ('s, string list + (string list \<times> nat)) op" where
  "peer_scan_turn R pattern st =
     (case st of (keys, cur) \<Rightarrow>
        cbind (map_err (\<lambda>e. BackendUnavailable (''peer SCAN: '' @ e))
                (cbind (invoke R (redis_scan R cur pattern 1000))
                  (\<lambda>(nxt, batch). cbind (as_strings R batch) (\<lambda>b. ret (nxt, b)))))
          (\<lambda>(nxt, batch). if nxt = 0 then ret (Inl (keys @ batch)) else ret (Inr (keys @ batch, nxt))))"

definition preading :: "('s \<Rightarrow> 'b) \<Rightarrow> ('b \<Rightarrow> ('e, 's, 'a) peff) \<Rightarrow> ('e, 's, 'a) peff" where
  "preading f p w = p (f w) w"

text \<open>
  \<open>LegacyPeerScan::registrations\<close>; the cache it leaves is part of the result, and stays as it was
  when the call fails.
\<close>

definition legacy_registrations ::
  "'s redis \<Rightarrow> registration_json \<Rightarrow> string \<Rightarrow> legacy_peer_scan \<Rightarrow>
     (cluster_error, 's world, registration list \<times> legacy_peer_scan) peff" where
  "legacy_registrations R J pfx legacy = preading mono (\<lambda>now.
     let rescan = pbind (loop (peer_scan_turn R (peers_pattern pfx)) ([], 0))
           (\<lambda>keys. pure (cbind (read_registrations R J pfx keys)
             (\<lambda>found. reading mono (\<lambda>t. ret (found, legacy\<lparr>last_scan := Some (t, found)\<rparr>)))))
     in case last_scan legacy of
          Some (at, found) \<Rightarrow> if now - at < max_age legacy then pure (ret (found, legacy)) else rescan
        | None \<Rightarrow> rescan)"

subsection \<open>Registration\<close>

definition register_peer ::
  "'s redis \<Rightarrow> registration_json \<Rightarrow> (int \<Rightarrow> string) \<Rightarrow> string \<Rightarrow> string \<Rightarrow> string \<Rightarrow> u64 \<Rightarrow> string list \<Rightarrow> ('s, unit) op" where
  "register_peer R J rfc3339 pfx node address peer_ttl_ms roles = reading wall (\<lambda>t.
     case reg_to_string J \<lparr>reg_address = address, reg_last_seen = rfc3339 t, reg_roles = roles, reg_kv_index = True\<rparr> of
       Inl e \<Rightarrow> raise (Internal (''peer registration encode: '' @ e))
     | Inr json \<Rightarrow>
         (let key = peer_key pfx node in reading now_ms (\<lambda>now.
            cbind (map_err (\<lambda>e. BackendUnavailable (''peer SET `'' @ key @ ''`: '' @ e))
                    (round_trip (show_error R)
                      (pipe2 (exec (redis_set R key json False (Some (uint peer_ttl_ms))))
                             (exec (redis_zadd R (peers_index_key pfx)
                                      (min (now + uint peer_ttl_ms) (2 ^ 64 - 1)) node)))))
              (\<lambda>_. ret ()))))"

definition deregister_peer :: "'s redis \<Rightarrow> string \<Rightarrow> string \<Rightarrow> ('s, unit) op" where
  "deregister_peer R pfx node =
     (let key = peer_key pfx node in
      cbind (map_err (\<lambda>e. BackendUnavailable (''peer DEL `'' @ key @ ''`: '' @ e))
              (round_trip (show_error R)
                (pipe2 (exec (redis_del R key)) (exec (redis_zrem R (peers_index_key pfx) node)))))
        (\<lambda>_. ret ()))"

subsection \<open>Listing\<close>

text \<open>The node ids the set holds as unexpired; the expired ones are dropped from it.\<close>

definition current_ids :: "'s redis \<Rightarrow> string \<Rightarrow> ('s, string list) op" where
  "current_ids R pfx = reading now_ms (\<lambda>now.
     map_err (\<lambda>e. BackendUnavailable (''peer ZRANGEBYSCORE: '' @ e))
       (cbind (round_trip (show_error R)
                (pipe2 (exec (redis_zrangebyscore R (peers_index_key pfx) (ScoreExcl now) PosInf None))
                       (exec (redis_zremrangebyscore R (peers_index_key pfx) NegInf (ScoreIncl now)))))
          (\<lambda>(ids, n). as_strings R ids)))"

definition list_registrations ::
  "'s redis \<Rightarrow> registration_json \<Rightarrow> string \<Rightarrow> legacy_peer_scan \<Rightarrow>
     (cluster_error, 's world, registration list \<times> legacy_peer_scan) peff" where
  "list_registrations R J pfx legacy =
     pbind (pure (current_ids R pfx)) (\<lambda>ids.
     pbind (pure (read_registrations R J pfx (map (peer_key pfx) ids))) (\<lambda>found.
     pbind (legacy_registrations R J pfx legacy) (\<lambda>(old, legacy').
       pure (ret (found @ filter (\<lambda>(node, reg). \<not> reg_kv_index reg \<and> node \<notin> set ids) old, legacy')))))"

definition list_peers ::
  "'s redis \<Rightarrow> registration_json \<Rightarrow> string \<Rightarrow> legacy_peer_scan \<Rightarrow>
     (cluster_error, 's world, cluster_peer list \<times> legacy_peer_scan) peff" where
  "list_peers R J pfx legacy =
     pbind (list_registrations R J pfx legacy) (\<lambda>(found, legacy').
       pure (ret (map (\<lambda>(node, reg). \<lparr>peer_node_id = node, peer_address = reg_address reg,
                 peer_last_seen = reg_last_seen reg, peer_health_is = Healthy, peer_roles = reg_roles reg\<rparr>) found,
               legacy')))"

end
