(* ===== verification/Peer_Registry.thy ===== *)
theory Peer_Registry
  imports Peer
begin

section \<open>What a peer list shows\<close>

text \<open>
  A specification of the listing over the keyspace: a node is shown with what its registration key
  holds, when the sorted set has it as unexpired, or when its registration says that it comes from a
  build that predates the set. The lemmas give each step of \<open>list_registrations\<close> in a world where
  nobody else acts and the clocks stand.
\<close>

definition registered :: "registration_json \<Rightarrow> string \<Rightarrow> keyspace \<Rightarrow> string \<Rightarrow> peer_registration \<Rightarrow> bool" where
  "registered J pfx v node reg \<longleftrightarrow>
     (\<exists>x t. str_at v (peer_key pfx node) = Some (x, t) \<and> reg_from_str J x = Some reg)"

definition peer_ids :: "string \<Rightarrow> int \<Rightarrow> keyspace \<Rightarrow> string list" where
  "peer_ids pfx now v = score_range (ScoreExcl now) PosInf (zset_at v (peers_index_key pfx))"

definition shown_peers :: "registration_json \<Rightarrow> string \<Rightarrow> int \<Rightarrow> keyspace \<Rightarrow> registration set" where
  "shown_peers J pfx now v =
     {(node, reg). registered J pfx v node reg \<and> (node \<in> set (peer_ids pfx now v) \<or> \<not> reg_kv_index reg)}"

text \<open>The registry as the plugin keeps it: a sorted set without a lifetime, and text throughout.\<close>

definition peer_text :: "string \<Rightarrow> (robj \<times> nat option) option \<Rightarrow> bool" where
  "peer_text k e = (case e of None \<Rightarrow> True | Some (RStr x, t) \<Rightarrow> valid_utf8 k \<and> valid_utf8 x
     | Some (RZset l, t) \<Rightarrow> valid_utf8 k)"

definition peers_ok :: "string \<Rightarrow> keyspace \<Rightarrow> bool" where
  "peers_ok pfx v \<longleftrightarrow> zset_ok v (peers_index_key pfx) \<and>
     list_all valid_utf8 (map fst (zset_at v (peers_index_key pfx))) \<and> (\<forall>n. peer_text (peer_key pfx n) (objs v (peer_key pfx n)))"

lemma peer_key_prefix: "prefix (pfx @ ''peers/'') k \<longleftrightarrow> (\<exists>n. k = peer_key pfx n)"
  by (auto simp: prefix_def peer_key_def)

lemma node_of_peer_key [simp]: "node_of pfx (peer_key pfx n) = n"
  using prefixI [of "peer_key pfx n" "pfx @ ''peers/''" n]
  by (simp add: node_of_def strip_prefix_def peer_key_def)

lemma peer_key_not_index [simp]: "peer_key pfx n \<noteq> peers_index_key pfx" "peers_index_key pfx \<noteq> peer_key pfx n"
  by (simp_all add: peer_key_def peers_index_key_def)

lemma peer_key_inj [simp]: "peer_key pfx m = peer_key pfx n \<longleftrightarrow> m = n"
  by (simp add: peer_key_def)

lemma peers_okD:
  assumes "peers_ok pfx v"
  shows "zset_ok v (peers_index_key pfx)" and "list_all valid_utf8 (map fst (zset_at v (peers_index_key pfx)))"
    and "prefix (pfx @ ''peers/'') k \<Longrightarrow> live v k \<Longrightarrow> valid_utf8 k"
    and "prefix (pfx @ ''peers/'') k \<Longrightarrow> str_at v k = Some (x, t) \<Longrightarrow> valid_utf8 x"
proof -
  have readable: "peer_text k (objs v k)" if "prefix (pfx @ ''peers/'') k"
    using assms that by (auto simp: peers_ok_def peer_key_prefix)
  show "prefix (pfx @ ''peers/'') k \<Longrightarrow> live v k \<Longrightarrow> valid_utf8 k"
    "prefix (pfx @ ''peers/'') k \<Longrightarrow> str_at v k = Some (x, t) \<Longrightarrow> valid_utf8 x"
    using readable by (auto simp: peer_text_def live_def str_at_def split: option.splits robj.splits)
qed (use assms in \<open>simp_all add: peers_ok_def\<close>)

lemma set_decode:
  "set (decode_registrations J pfx (zip keys (map f keys))) =
     {(node_of pfx k, reg) | k reg. k \<in> set keys \<and> (\<exists>raw. f k = Some raw \<and> reg_from_str J raw = Some reg)}"
proof (induction keys)
  case (Cons k keys)
  show ?case
  proof (cases "f k")
    case None
    with Cons show ?thesis by auto
  next
    case (Some raw)
    with Cons show ?thesis by (cases "reg_from_str J raw") auto
  qed
qed simp

lemma set_decode_ids:
  "set (decode_registrations J pfx (zip (map (peer_key pfx) ids) (map f (map (peer_key pfx) ids)))) =
     {(node, reg). node \<in> set ids \<and> (\<exists>raw. f (peer_key pfx node) = Some raw \<and> reg_from_str J raw = Some reg)}"
  unfolding set_decode by (force simp: image_iff)

text \<open>The cache is empty or too old.\<close>

definition rescans :: "legacy_peer_scan \<Rightarrow> nat \<Rightarrow> bool" where
  "rescans legacy now = (case last_scan legacy of None \<Rightarrow> True | Some (at, found) \<Rightarrow> max_age legacy \<le> now - at)"

subsection \<open>Round trips while the clocks stand\<close>

lemma trip_still:
  assumes "still now w" and "m (server w) = (r, s)"
  shows "\<exists>u. round_trip sh (exec m) w = (map_sum sh id r, u) \<and> server u = s \<and> still now u \<and> mono u = mono w"
proof -
  have w: "quiet w" "env w = []" "ticks w = []" "\<forall>l \<in> set (tl (links w)). l = Up"
    using assms(1) by (cases "links w"; auto simp: still_def quiet_def)+
  let ?u = "w\<lparr>links := tl (links w), server := s\<rparr>"
  have "round_trip sh (exec m) w = (map_sum sh id r, ?u)"
    using w assms(2) by (simp add: round_trip_up [OF quiet_up [OF w(1)]] exec_calm pass_time_def)
  with w assms(1) show ?thesis by (auto simp: still_def quiet_def)
qed

lemma pair_still:
  assumes "still now w" and "m (server w) = (Inr a, s)" and "p s = (Inr b, t)"
  shows "\<exists>u. round_trip sh (pipe2 (exec m) (exec p)) w = (Inr (a, b), u) \<and> server u = t \<and> still now u \<and> mono u = mono w"
proof -
  have w: "quiet w" "env w = []" "ticks w = []" "\<forall>l \<in> set (tl (links w)). l = Up"
    using assms(1) by (cases "links w"; auto simp: still_def quiet_def)+
  let ?u = "w\<lparr>links := tl (links w), server := t\<rparr>"
  have "round_trip sh (pipe2 (exec m) (exec p)) w = (Inr (a, b), ?u)"
    using w assms(2,3) by (simp add: round_trip_up [OF quiet_up [OF w(1)]] pipe2_def exec_calm pass_time_def)
  with w assms(1) show ?thesis by (auto simp: still_def quiet_def)
qed

lemma still_now: "still now w \<Longrightarrow> 0 \<le> now \<Longrightarrow> now < 2 ^ 53 \<Longrightarrow> now_ms w = now \<and> dbl now = now"
  by (simp add: still_def now_ms_def)

subsection \<open>Reading the set\<close>

definition swept_peers :: "string \<Rightarrow> int \<Rightarrow> keyspace \<Rightarrow> keyspace" where
  "swept_peers pfx now v = snd (ks_zremrangebyscore (peers_index_key pfx) NegInf (ScoreIncl now) v)"

lemma swept_other: "k \<noteq> peers_index_key pfx \<Longrightarrow> objs (swept_peers pfx now v) k = objs v k"
  by (auto simp: swept_peers_def ks_zremrangebyscore_def ks_simps split: option.splits robj.splits)

lemma swept_finite: "finite (dom (objs v)) \<Longrightarrow> finite (dom (objs (swept_peers pfx now v)))"
proof (rule finite_subset)
  show "dom (objs (swept_peers pfx now v)) \<subseteq> insert (peers_index_key pfx) (dom (objs v))"
    using swept_other [of _ pfx now v] by (metis (mono_tags, lifting) domIff insertCI subsetI)
qed simp

lemma swept_set:
  assumes "zset_ok v (peers_index_key pfx)"
  shows "zset_at (swept_peers pfx now v) (peers_index_key pfx) =
      filter (\<lambda>p. now < snd p) (zset_at v (peers_index_key pfx))"
    and "zset_ok (swept_peers pfx now v) (peers_index_key pfx)"
  using assms
  by (auto simp: swept_peers_def ks_zremrangebyscore_def ks_simps zset_at_def zset_ok_def zset_entry_def not_le
      distinct_map_filter cong: filter_cong split: option.splits robj.splits)

lemma swept_ids:
  assumes "zset_ok v (peers_index_key pfx)"
  shows "set (peer_ids pfx now (swept_peers pfx now v)) = set (peer_ids pfx now v)"
  by (auto simp: peer_ids_def score_range_def swept_set [OF assms])

lemma swept_ok: "peers_ok pfx v \<Longrightarrow> peers_ok pfx (swept_peers pfx now v)"
  using swept_set [of v pfx now] by (auto simp: peers_ok_def swept_other list_all_iff)

context redis_server
begin

lemma current_ids_still:
  assumes st: "still now w" and now: "0 \<le> now" "now < 2 ^ 53" and ok: "peers_ok pfx (view (server w))"
  shows "\<exists>u. current_ids R pfx w = (Inr (peer_ids pfx now (view (server w))), u) \<and>
    view (server u) = swept_peers pfx now (view (server w)) \<and> still now u \<and> mono u = mono w"
proof -
  let ?v = "view (server w)" and ?ix = "peers_index_key pfx"
  have zok: "zset_ok ?v ?ix" and utf: "list_all valid_utf8 (map fst (zset_at ?v ?ix))" using peers_okD [OF ok] by auto
  have rd: "ks_zrangebyscore ?ix (ScoreExcl now) PosInf None ?v = (Inr (peer_ids pfx now ?v), ?v)"
    using zok by (auto simp: ks_zrangebyscore_def zread_def peer_ids_def zset_at_def zset_ok_def split: option.splits robj.splits)
  have "\<exists>n. fst (ks_zremrangebyscore ?ix NegInf (ScoreIncl now) ?v) = Inr n"
    using zok by (auto simp: ks_zremrangebyscore_def zset_ok_def split: option.splits robj.splits)
  then obtain n where rm: "ks_zremrangebyscore ?ix NegInf (ScoreIncl now) ?v = (Inr n, swept_peers pfx now ?v)"
    unfolding swept_peers_def by (metis prod.collapse)
  obtain s where s: "redis_zrangebyscore R ?ix (ScoreExcl now) PosInf None (server w) = (Inr (peer_ids pfx now ?v), s)" "view s = ?v"
    using sim_run [OF zrangebyscore_sim, of ?ix "ScoreExcl now" PosInf None "server w"] rd still_now [OF st now] by auto
  obtain t where t: "redis_zremrangebyscore R ?ix NegInf (ScoreIncl now) s = (Inr n, t)" "view t = swept_peers pfx now ?v"
    using sim_run [OF zremrangebyscore_sim, of ?ix NegInf "ScoreIncl now" s] rm s(2) still_now [OF st now] by auto
  have "list_all valid_utf8 (peer_ids pfx now ?v)"
    using utf score_range_subset [of "ScoreExcl now" PosInf "zset_at ?v ?ix"] by (auto simp: list_all_iff peer_ids_def)
  then show ?thesis
    using pair_still [where m = "redis_zrangebyscore R ?ix (ScoreExcl now) PosInf None" and
        p = "redis_zremrangebyscore R ?ix NegInf (ScoreIncl now)", OF st s(1) t(1), of "show_error R"] t(2)
      still_now [OF st now]
    by (auto simp: current_ids_def reading_def map_err_def cbind_def as_strings_def ret_def)
qed

lemma read_still:
  assumes st: "still now w" and utf: "\<forall>k \<in> set keys. \<forall>x t. str_at (view (server w)) k = Some (x, t) \<longrightarrow> valid_utf8 x"
  shows "\<exists>u. read_registrations R J pfx keys w =
      (Inr (decode_registrations J pfx (zip keys (map (\<lambda>k. map_option fst (str_at (view (server w)) k)) keys))), u) \<and>
    view (server u) = view (server w) \<and> still now u \<and> mono u = mono w"
proof (cases "keys = []")
  case True
  with st show ?thesis by (simp add: read_registrations_def ret_def)
next
  case False
  let ?v = "view (server w)"
  let ?vals = "map (\<lambda>k. map_option fst (str_at ?v k)) keys"
  have "ks_mget keys ?v = (Inr ?vals, ?v)"
    by (auto simp: ks_mget_def str_at_def split: option.splits robj.splits)
  then obtain s where s: "redis_mget R keys (server w) = (Inr ?vals, s)" "view s = ?v"
    using sim_run [OF mget_sim, of keys "server w"] by auto
  have "list_all (case_option True valid_utf8) ?vals"
    using utf by (auto simp: list_all_iff split: option.splits)
  with False s show ?thesis
    using trip_still [where m = "redis_mget R keys", OF st s(1), of "show_error R"]
    by (auto simp: read_registrations_def invoke_def cbind_def map_err_def as_opt_strings_def ret_def)
qed

end

subsection \<open>The scan\<close>

context scan_server
begin

lemma peer_scan_turn_still:
  assumes st: "still now w" and v: "view (server w) = v" and utf: "\<forall>k. live v k \<and> matches pat k \<longrightarrow> valid_utf8 k"
  shows "\<exists>c' batch t u. redis_scan R c pat 1000 (server w) = (Inr (c', batch), t) \<and>
    peer_scan_turn R pat (keys, c) w = (Inr (if c' = 0 then Inl (keys @ batch) else Inr (keys @ batch, c')), u) \<and>
    server u = t \<and> view t = v \<and> still now u \<and> mono u = mono w"
proof -
  obtain c' batch t where sc: "redis_scan R c pat 1000 (server w) = (Inr (c', batch), t)" "view t = view (server w)"
    using scan_replies by blast
  have "list_all valid_utf8 batch" using scan_found [OF sc(1)] utf v by (auto simp: list_all_iff)
  moreover obtain u where "invoke R (redis_scan R c pat 1000) w = (Inr (c', batch), u)" "server u = t" "still now u" "mono u = mono w"
    using trip_still [where m = "redis_scan R c pat 1000", OF st sc(1), of "show_error R"] by (auto simp: invoke_def)
  ultimately show ?thesis
    using sc v
    by (intro exI [of _ c'] exI [of _ batch] exI [of _ t] exI [of _ u])
       (auto simp: peer_scan_turn_def cbind_def map_err_def as_strings_def ret_def)
qed

text \<open>A scan left alone returns the matching keys, all of them and no others.\<close>

lemma peer_scan_still:
  assumes st: "still now w" and utf: "\<forall>k. live (view (server w)) k \<and> matches pat k \<longrightarrow> valid_utf8 k"
    and fin: "finite (dom (objs (view (server w))))"
  shows "\<exists>keys u. loop (peer_scan_turn R pat) ([], 0) w = Some (Inr keys, u) \<and>
    set keys = {k. live (view (server w)) k \<and> matches pat k} \<and>
    view (server u) = view (server w) \<and> still now u \<and> mono u = mono w"
proof -
  let ?v = "view (server w)" and ?K = "with_connection_manager []"
  let ?I = "\<lambda>x. still now x \<and> view (server x) = ?v \<and> mono x = mono w"
  note turn = peer_scan_turn_still [OF _ _ utf]
  have start: "?I w" using st by simp
  have "loop (peer_scan_turn R pat) ([], 0) w \<noteq> None"
  proof
    let ?f = "unroll (peer_scan_turn R pat) (([], 0), w)"
    assume "loop (peer_scan_turn R pat) ([], 0) w = None"
    note on = loop_forever [OF this]
    have inv: "?I (snd (?f i))" for i
    proof (induction i)
      case (Suc i)
      with turn [where now = now and w = "snd (?f i)" and c = "snd (fst (?f i))" and keys = "fst (fst (?f i))"] goes_onE [OF on [of i]] show ?case by auto
    qed (use start in simp)
    define cs where "cs i = snd (fst (?f i))" for i
    define ss where "ss i = server (snd (?f i))" for i
    have "\<exists>batch. redis_scan R (cs i) pat 1000 (ss i) = (Inr (cs (Suc i), batch), ss (Suc i)) \<and> cs (Suc i) \<noteq> 0" for i
      using turn [where now = now and w = "snd (?f i)" and c = "snd (fst (?f i))" and keys = "fst (fst (?f i))"]
        inv [of i] goes_onE [OF on [of i]]
      by (auto simp: cs_def ss_def split: if_splits)
    then obtain bs where seq: "\<And>i. redis_scan R (cs i) pat 1000 (ss i) = (Inr (cs (Suc i), bs i), ss (Suc i))"
      "\<And>i. cs (Suc i) \<noteq> 0" by metis
    have "\<exists>i. cs (Suc i) = 0"
      by (rule scan_ends [where ss = ss and K = ?K and N = "card (dom (objs ?v))", OF seq(1)])
         (use inv fin in \<open>auto simp: cs_def ss_def\<close>)
    with seq(2) show False by blast
  qed
  then obtain r u where run: "loop (peer_scan_turn R pat) ([], 0) w = Some (r, u)" by auto
  have "\<exists>b. r = Inr b"
    by (rule loop_result [where I = "\<lambda>a x. ?I x", OF run start]) (use turn in \<open>fastforce split: if_splits\<close>)
  then obtain keys where r: "r = Inr keys" by blast
  let ?owe = "\<lambda>ks c x. set ks \<subseteq> {k. live ?v k \<and> matches pat k} \<and>
      (\<forall>k. live ?v k \<and> matches pat k \<longrightarrow> k \<in> set ks \<or> scan_miss R view ?K pat 1000 k c (server x))"
  have "set keys = {k. live ?v k \<and> matches pat k} \<and> ?I u"
    using run unfolding r
  proof (rule loop_rule [where I = "\<lambda>a x. ?I x \<and> ?owe (fst a) (snd a) x"])
    show "?I w \<and> ?owe (fst ([], 0)) (snd ([], 0)) w" using start by (auto intro: scan_miss.opened)
  next
    fix a x c y
    assume I: "?I x \<and> ?owe (fst a) (snd a) x" and "peer_scan_turn R pat a x = (Inr (Inr c), y)"
    then obtain c' batch t where t: "redis_scan R (snd a) pat 1000 (server x) = (Inr (c', batch), t)" "server y = t" "?I y"
      "c = (fst a @ batch, c')" "c' \<noteq> 0"
      using turn [where now = now and w = x and c = "snd a" and keys = "fst a"] by (auto split: if_splits)
    have "scan_miss R view ?K pat 1000 k c' (server y)"
      if "scan_miss R view ?K pat 1000 k (snd a) (server x)" "k \<notin> set batch" for k
      using scan_miss.passed_by [OF that(1) t(1) t(5) that(2)] t(2) by simp
    moreover have "set batch \<subseteq> {k. live ?v k \<and> matches pat k}" using I scan_found [OF t(1)] by auto
    ultimately show "?I y \<and> ?owe (fst c) (snd c) y" using I t(3,4) by simp blast
  next
    fix a x b y
    assume I: "?I x \<and> ?owe (fst a) (snd a) x" and "peer_scan_turn R pat a x = (Inr (Inl b), y)"
    then obtain batch t where t: "redis_scan R (snd a) pat 1000 (server x) = (Inr (0, batch), t)" "?I y" "b = fst a @ batch"
      using turn [where now = now and w = x and c = "snd a" and keys = "fst a"] by (auto split: if_splits)
    then show "set b = {k. live ?v k \<and> matches pat k} \<and> ?I y"
      using I scan_found [OF t(1)] scan_full [OF _ _ t(1)] by auto
  qed
  with run r show ?thesis by auto
qed

subsection \<open>The list\<close>

text \<open>A prefix without glob characters is its own pattern.\<close>

lemma peers_matches: "glob_escape pfx = pfx \<Longrightarrow> matches (peers_pattern pfx) k \<longleftrightarrow> prefix (pfx @ ''peers/'') k"
  using matches_prefix [of "pfx @ ''peers/''" k] by (simp add: peers_pattern_def glob_escape_append)

lemma legacy_fresh:
  assumes st: "still now w" and plain: "glob_escape pfx = pfx" and ok: "peers_ok pfx (view (server w))"
    and fin: "finite (dom (objs (view (server w))))" and due: "rescans legacy (mono w)"
  shows "\<exists>old u. legacy_registrations R J pfx legacy w = Some (Inr (old, legacy\<lparr>last_scan := Some (mono w, old)\<rparr>), u) \<and>
    set old = {(node, reg). registered J pfx (view (server w)) node reg} \<and>
    view (server u) = view (server w) \<and> still now u \<and> mono u = mono w"
proof -
  let ?v = "view (server w)" and ?pat = "peers_pattern pfx"
  have utf: "\<forall>k. live ?v k \<and> matches ?pat k \<longrightarrow> valid_utf8 k" using peers_okD(3) [OF ok] by (simp add: peers_matches [OF plain])
  obtain keys x where scan: "loop (peer_scan_turn R ?pat) ([], 0) w = Some (Inr keys, x)"
    and keys: "set keys = {k. live ?v k \<and> matches ?pat k}" and x: "view (server x) = ?v" "still now x" "mono x = mono w"
    using peer_scan_still [OF st utf fin] by blast
  have "\<forall>k \<in> set keys. \<forall>y t. str_at ?v k = Some (y, t) \<longrightarrow> valid_utf8 y"
    using peers_okD(4) [OF ok] keys by (simp add: peers_matches [OF plain]) blast
  then obtain u where u: "read_registrations R J pfx keys x =
      (Inr (decode_registrations J pfx (zip keys (map (\<lambda>k. map_option fst (str_at ?v k)) keys))), u)"
    "view (server u) = ?v" "still now u" "mono u = mono w"
    using read_still [OF x(2), of keys J pfx] x by auto
  have "set (decode_registrations J pfx (zip keys (map (\<lambda>k. map_option fst (str_at ?v k)) keys))) =
      {(node, reg). registered J pfx ?v node reg}"
    unfolding set_decode keys peers_matches [OF plain] peer_key_prefix registered_def
    by (fastforce simp: str_at_def live_def split: option.splits)
  with scan u due show ?thesis
    by (auto simp: legacy_registrations_def preading_def pbind_def pure_def cbind_def reading_def ret_def rescans_def
        split: option.splits)
qed

text \<open>The listing of a replica that scans now, and of one that trusts an earlier scan.\<close>

lemma list_from_set:
  assumes st: "still now w" and now: "0 \<le> now" "now < 2 ^ 53" and ok: "peers_ok pfx (view (server w))"
  shows "\<exists>found x. set found = {(node, reg). registered J pfx (view (server w)) node reg \<and> node \<in> set (peer_ids pfx now (view (server w)))} \<and>
    list_registrations R J pfx legacy w = pbind (legacy_registrations R J pfx legacy) (\<lambda>(old, legacy').
      pure (ret (found @ filter (\<lambda>(node, reg). \<not> reg_kv_index reg \<and> node \<notin> set (peer_ids pfx now (view (server w)))) old, legacy'))) x \<and>
    view (server x) = swept_peers pfx now (view (server w)) \<and> still now x \<and> mono x = mono w"
proof -
  let ?v = "view (server w)"
  let ?ids = "peer_ids pfx now ?v"
  obtain y where y: "current_ids R pfx w = (Inr ?ids, y)" "view (server y) = swept_peers pfx now ?v" "still now y" "mono y = mono w"
    using current_ids_still [OF st now ok] by blast
  have same: "str_at (swept_peers pfx now ?v) (peer_key pfx n) = str_at ?v (peer_key pfx n)" for n
    by (simp add: str_at_def swept_other)
  have "\<forall>k \<in> set (map (peer_key pfx) ?ids). \<forall>z t. str_at (view (server y)) k = Some (z, t) \<longrightarrow> valid_utf8 z"
    using peers_okD(4) [OF ok] by (auto simp: y(2) same peer_key_prefix)
  from read_still [OF y(3) this, of J pfx] obtain x where x: "read_registrations R J pfx (map (peer_key pfx) ?ids) y =
      (Inr (decode_registrations J pfx (zip (map (peer_key pfx) ?ids)
         (map (\<lambda>k. map_option fst (str_at (view (server y)) k)) (map (peer_key pfx) ?ids)))), x)"
    "view (server x) = view (server y)" "still now x" "mono x = mono y" by blast
  let ?found = "decode_registrations J pfx (zip (map (peer_key pfx) ?ids)
     (map (\<lambda>k. map_option fst (str_at (view (server y)) k)) (map (peer_key pfx) ?ids)))"
  have "set ?found = {(node, reg). registered J pfx ?v node reg \<and> node \<in> set ?ids}"
    unfolding set_decode_ids by (auto simp: y(2) same registered_def)
  moreover have "list_registrations R J pfx legacy w = pbind (legacy_registrations R J pfx legacy) (\<lambda>(old, legacy').
      pure (ret (?found @ filter (\<lambda>(node, reg). \<not> reg_kv_index reg \<and> node \<notin> set ?ids) old, legacy'))) x"
    using y(1) x(1) by (simp add: list_registrations_def pbind_def [of "pure _"] pure_def)
  ultimately show ?thesis using x y by (intro exI [of _ ?found] exI [of _ x]) auto
qed

lemma list_fresh:
  assumes st: "still now w" and now: "0 \<le> now" "now < 2 ^ 53" and ok: "peers_ok pfx (view (server w))"
    and plain: "glob_escape pfx = pfx" and fin: "finite (dom (objs (view (server w))))" and due: "rescans legacy (mono w)"
  shows "\<exists>found old u. list_registrations R J pfx legacy w = Some (Inr (found, legacy\<lparr>last_scan := Some (mono w, old)\<rparr>), u) \<and>
    set found = shown_peers J pfx now (view (server w)) \<and>
    view (server u) = swept_peers pfx now (view (server w)) \<and> still now u"
proof -
  let ?v = "view (server w)"
  obtain found x where f: "set found = {(node, reg). registered J pfx ?v node reg \<and> node \<in> set (peer_ids pfx now ?v)}"
    and run: "list_registrations R J pfx legacy w = pbind (legacy_registrations R J pfx legacy) (\<lambda>(old, legacy').
      pure (ret (found @ filter (\<lambda>(node, reg). \<not> reg_kv_index reg \<and> node \<notin> set (peer_ids pfx now ?v)) old, legacy'))) x"
    and x: "view (server x) = swept_peers pfx now ?v" "still now x" "mono x = mono w"
    using list_from_set [OF st now ok, of J legacy] by blast
  have finx: "finite (dom (objs (view (server x))))" using swept_finite [OF fin] x(1) by simp
  have "registered J pfx (view (server x)) = registered J pfx ?v"
    by (auto simp: fun_eq_iff registered_def x(1) str_at_def swept_other)
  moreover from legacy_fresh [OF x(2) plain _ finx, of legacy J] due swept_ok [OF ok] x obtain old u where
    "legacy_registrations R J pfx legacy x = Some (Inr (old, legacy\<lparr>last_scan := Some (mono w, old)\<rparr>), u)"
    "set old = {(node, reg). registered J pfx (view (server x)) node reg}"
    "view (server u) = view (server x)" "still now u" by auto
  ultimately show ?thesis
    using f x by (intro exI conjI) (auto simp: run pbind_def pure_def ret_def shown_peers_def)
qed

text \<open>Whatever the cache holds, a listing left alone returns, with the set's nodes exactly as registered.\<close>

lemma list_any:
  assumes st: "still now w" and now: "0 \<le> now" "now < 2 ^ 53" and ok: "peers_ok pfx (view (server w))"
    and plain: "glob_escape pfx = pfx" and fin: "finite (dom (objs (view (server w))))"
  shows "\<exists>found legacy' u. list_registrations R J pfx legacy w = Some (Inr (found, legacy'), u) \<and>
    (\<forall>node reg. (node, reg) \<in> set found \<longrightarrow> node \<in> set (peer_ids pfx now (view (server w))) \<or> \<not> reg_kv_index reg) \<and>
    (\<forall>node \<in> set (peer_ids pfx now (view (server w))). {reg. (node, reg) \<in> set found} = {reg. registered J pfx (view (server w)) node reg})"
proof -
  let ?v = "view (server w)"
  obtain found x where f: "set found = {(node, reg). registered J pfx ?v node reg \<and> node \<in> set (peer_ids pfx now ?v)}"
    and run: "list_registrations R J pfx legacy w = pbind (legacy_registrations R J pfx legacy) (\<lambda>(old, legacy').
      pure (ret (found @ filter (\<lambda>(node, reg). \<not> reg_kv_index reg \<and> node \<notin> set (peer_ids pfx now ?v)) old, legacy'))) x"
    and x: "view (server x) = swept_peers pfx now ?v" "still now x" "mono x = mono w"
    using list_from_set [OF st now ok, of J legacy] by blast
  have "\<exists>old legacy' u. legacy_registrations R J pfx legacy x = Some (Inr (old, legacy'), u)"
  proof (cases "rescans legacy (mono x)")
    case True
    from legacy_fresh [OF x(2) plain _ _ True, of J] swept_ok [OF ok] swept_finite [OF fin] x(1) show ?thesis by auto
  next
    case False
    then show ?thesis
      by (auto simp: rescans_def legacy_registrations_def preading_def pure_def ret_def split: option.splits)
  qed
  then show ?thesis using f by (auto simp: run pbind_def pure_def ret_def)
qed

end

subsection \<open>Registering and leaving\<close>

definition after_ms :: "'s redis \<Rightarrow> nat \<Rightarrow> 's world \<Rightarrow> 's world" where
  "after_ms R d w = w\<lparr>server := elapse R d (server w), wall := wall w + int d, mono := mono w + d * 1000000\<rparr>"

definition joined :: "string \<Rightarrow> string \<Rightarrow> string \<Rightarrow> nat \<Rightarrow> int \<Rightarrow> keyspace \<Rightarrow> keyspace" where
  "joined pfx node json ttl now v =
     zput (peers_index_key pfx) (now + int ttl) node (ks_put (peer_key pfx node) (Some (RStr json, Some ttl)) v)"

definition departed :: "string \<Rightarrow> string \<Rightarrow> keyspace \<Rightarrow> keyspace" where
  "departed pfx node v = zdel (peers_index_key pfx) node (ks_put (peer_key pfx node) None v)"

lemma joined_objs:
  "k \<noteq> peers_index_key pfx \<Longrightarrow>
   objs (joined pfx node json ttl now v) k = (if k = peer_key pfx node then Some (RStr json, Some ttl) else objs v k)"
  by (simp add: joined_def ks_simps)

lemma departed_objs:
  "k \<noteq> peers_index_key pfx \<Longrightarrow> objs (departed pfx node v) k = (if k = peer_key pfx node then None else objs v k)"
  by (simp add: departed_def ks_simps)

lemma joined_set:
  assumes "zset_ok v (peers_index_key pfx)"
  shows "zset_at (joined pfx node json ttl now v) (peers_index_key pfx) =
      AList.update node (now + int ttl) (zset_at v (peers_index_key pfx))"
    and "zset_ok (joined pfx node json ttl now v) (peers_index_key pfx)"
  using assms by (simp_all add: joined_def zset_at_zput ks_simps) (simp add: zset_at_def ks_simps)

lemma departed_set:
  assumes "zset_ok v (peers_index_key pfx)"
  shows "zset_at (departed pfx node v) (peers_index_key pfx) = AList.delete node (zset_at v (peers_index_key pfx))"
    and "zset_ok (departed pfx node v) (peers_index_key pfx)"
  using assms by (simp_all add: departed_def zset_at_zdel ks_simps) (simp add: zset_at_def ks_simps)

lemma joined_ok:
  assumes "peers_ok pfx v" and "valid_utf8 node" and "valid_utf8 (peer_key pfx node)" and "valid_utf8 json"
  shows "peers_ok pfx (joined pfx node json ttl now v)"
proof -
  have zok: "zset_ok v (peers_index_key pfx)" using peers_okD(1) [OF assms(1)] .
  have "set (map fst (AList.update node sc l)) = insert node (set (map fst l))" for sc and l :: "(string \<times> int) list"
    by (simp add: dom_update)
  then show ?thesis
    using assms joined_set [OF zok, of node json ttl now]
    by (auto simp: peers_ok_def joined_objs peer_text_def list_all_iff simp del: set_map)
qed

lemma departed_ok: "peers_ok pfx v \<Longrightarrow> peers_ok pfx (departed pfx node v)"
  using departed_set [of v pfx node]
  by (auto simp: peers_ok_def departed_objs peer_text_def list_all_iff AList.delete_eq)

lemma elapse_peers:
  assumes "peers_ok pfx v"
  shows "peers_ok pfx (ks_elapse d v)" and "zset_at (ks_elapse d v) (peers_index_key pfx) = zset_at v (peers_index_key pfx)"
proof -
  note zok = peers_okD(1) [OF assms]
  show at: "zset_at (ks_elapse d v) (peers_index_key pfx) = zset_at v (peers_index_key pfx)"
    using elapse_readers(3) [OF zok, of d] by (simp add: zset_at_def)
  have "peer_text k (objs v k) \<Longrightarrow> peer_text k (objs (ks_elapse d v) k)" for k
    by (auto simp: peer_text_def ks_elapse_def split: option.splits robj.splits if_splits)
  with assms at elapse_zset(1) [OF zok] show "peers_ok pfx (ks_elapse d v)" by (simp add: peers_ok_def)
qed

lemma finite_put: "finite (dom (objs v)) \<Longrightarrow> (\<And>k. k \<notin> A \<Longrightarrow> objs u k = objs v k) \<Longrightarrow> finite A \<Longrightarrow> finite (dom (objs u))"
proof (rule finite_subset [of _ "A \<union> dom (objs v)"])
  assume "\<And>k. k \<notin> A \<Longrightarrow> objs u k = objs v k"
  then show "dom (objs u) \<subseteq> A \<union> dom (objs v)" by (metis UnCI domIff subsetI)
qed simp

lemma finite_elapse: "finite (dom (objs v)) \<Longrightarrow> finite (dom (objs (ks_elapse d v)))"
  by (rule finite_subset [of _ "dom (objs v)"]) (auto simp: dom_def ks_elapse_def split: option.splits)

lemma joined_shown:
  assumes "zset_ok v (peers_index_key pfx)" and "int d < int ttl" and "reg_from_str J json = Some reg"
  shows "node \<in> set (peer_ids pfx (now + int d) (ks_elapse d (joined pfx node json ttl now v)))"
    and "registered J pfx (ks_elapse d (joined pfx node json ttl now v)) node r \<longleftrightarrow> r = reg"
proof -
  let ?u = "joined pfx node json ttl now v"
  have at: "zset_at (ks_elapse d ?u) (peers_index_key pfx) = AList.update node (now + int ttl) (zset_at v (peers_index_key pfx))"
    using elapse_readers(3) [OF joined_set(2) [OF assms(1)], of d] joined_set(1) [OF assms(1)] by (simp add: zset_at_def)
  have "map_of (AList.update node (now + int ttl) (zset_at v (peers_index_key pfx))) node = Some (now + int ttl)"
    by (simp add: update_conv')
  then have "(node, now + int ttl) \<in> set (AList.update node (now + int ttl) (zset_at v (peers_index_key pfx)))"
    by (rule map_of_SomeD)
  then show "node \<in> set (peer_ids pfx (now + int d) (ks_elapse d ?u))"
    using assms(2) by (force simp: peer_ids_def score_range_def at)
  show "registered J pfx (ks_elapse d ?u) node r \<longleftrightarrow> r = reg"
    using assms(2,3) by (auto simp: registered_def str_at_def ks_elapse_def joined_objs)
qed

context redis_server
begin

lemma register_still:
  assumes st: "still now w" and now: "0 \<le> now" "now + uint ttl < 2 ^ 53" and "0 < uint ttl"
    and zok: "zset_ok (view (server w)) (peers_index_key pfx)"
    and json: "reg_to_string J \<lparr>reg_address = address, reg_last_seen = rfc3339 now, reg_roles = roles, reg_kv_index = True\<rparr> = Inr json"
  shows "\<exists>u. register_peer R J rfc3339 pfx node address ttl roles w = (Inr (), u) \<and>
    view (server u) = joined pfx node json (unat ttl) now (view (server w)) \<and> still now u"
proof -
  let ?v = "view (server w)" and ?k = "peer_key pfx node" and ?ix = "peers_index_key pfx"
  have px: "px_opt_ok (Some (uint ttl))" using assms(3,4) now by (simp add: px_opt_ok_def px_ok_def)
  let ?s = "ks_put ?k (Some (RStr json, Some (unat ttl))) ?v"
  obtain s where s: "redis_set R ?k json False (Some (uint ttl)) (server w) = (Inr True, s)" "view s = ?s"
    using sim_run [OF set_sim [OF px], of ?k json False "server w"] by (auto simp: ks_set_def)
  have sc: "dbl (now + uint ttl) = now + int (unat ttl)" using now assms(4) by simp
  have slot: "zset_slot ?s ?ix" using zok by (simp add: ks_simps)
  obtain n where "ks_zadd ?ix (dbl (now + uint ttl)) node (view s) = (Inr n, joined pfx node json (unat ttl) now ?v)"
    using ks_zadd_ok [OF slot, of "now + int (unat ttl)" node] unfolding sc joined_def s(2) by blast
  from sim_run [OF zadd_sim this] obtain t' where
    t': "redis_zadd R ?ix (now + uint ttl) node s = (Inr n, t')" "view t' = joined pfx node json (unat ttl) now ?v" by blast
  have m: "min (now + uint ttl) 18446744073709551615 = now + uint ttl" using now by simp
  have "now_ms w = now" "wall w = now" using st now assms(4) by (simp_all add: still_def now_ms_def)
  then show ?thesis
    using pair_still [where m = "redis_set R ?k json False (Some (uint ttl))" and
        p = "redis_zadd R ?ix (now + uint ttl) node", OF st s(1) t'(1), of "show_error R"] t'(2) json
    by (auto simp: register_peer_def reading_def Let_def m map_err_def cbind_def ret_def)
qed

lemma deregister_still:
  assumes st: "still now w" and zok: "zset_ok (view (server w)) (peers_index_key pfx)"
  shows "\<exists>u. deregister_peer R pfx node w = (Inr (), u) \<and>
    view (server u) = departed pfx node (view (server w)) \<and> still now u"
proof -
  let ?v = "view (server w)" and ?k = "peer_key pfx node" and ?ix = "peers_index_key pfx"
  obtain n s where s: "redis_del R ?k (server w) = (Inr n, s)" "view s = ks_put ?k None ?v"
    using sim_run [OF del_sim, of ?k "server w"] by (auto simp: ks_del_def)
  have "zset_slot (ks_put ?k None ?v) ?ix" using zok by (simp add: ks_simps)
  then obtain m t where t: "redis_zrem R ?ix node s = (Inr m, t)" "view t = departed pfx node ?v"
    using sim_run [OF zrem_sim, of ?ix node s] ks_zrem_ok [of "ks_put ?k None ?v" ?ix node] s(2) by (auto simp: departed_def)
  show ?thesis
    using pair_still [where m = "redis_del R ?k" and p = "redis_zrem R ?ix node", OF st s(1) t(1), of "show_error R"] t(2)
    by (auto simp: deregister_peer_def Let_def map_err_def cbind_def ret_def)
qed

end

subsection \<open>Properties\<close>

text \<open>
  C32. What a peer list shows: a listing that scans returns, and its registrations are exactly the
  readable registration keys of the nodes the sorted set holds as unexpired, and of the nodes outside
  the set whose registration says they write no key index (older builds). A current node that has left
  the set is not shown, whatever key it left behind.
\<close>

theorem list_registrations_exact:
  assumes "scan_server R view matches" and "still now w" and "0 \<le> now" and "now < 2 ^ 53"
    and "peers_ok pfx (view (server w))" and "glob_escape pfx = pfx"
    and "finite (dom (objs (view (server w))))" and "rescans legacy (mono w)"
  shows "\<exists>found legacy' u. list_registrations R J pfx legacy w = Some (Inr (found, legacy'), u) \<and>
    set found = {(node, reg). registered J pfx (view (server w)) node reg \<and>
      (node \<in> set (peer_ids pfx now (view (server w))) \<or> \<not> reg_kv_index reg)}"
  using scan_server.list_fresh [OF assms, of J] by (auto simp: shown_peers_def)

text \<open>
  C33. A registered node is seen by everybody until its lifetime is over: after \<open>register_peer\<close>, a
  listing by any replica at any moment within \<open>peer_ttl_ms\<close>, whatever its cached scan holds, returns and
  shows the node with exactly the address, time and roles it registered.
\<close>

theorem registered_peer_listed:
  assumes "scan_server R view matches" and "still now w" and "0 \<le> now" and "now + uint ttl < 2 ^ 53" and "0 < uint ttl"
    and "peers_ok pfx (view (server w))" and "glob_escape pfx = pfx" and "finite (dom (objs (view (server w))))"
    and "valid_utf8 node" and "valid_utf8 (peer_key pfx node)" and "valid_utf8 json"
    and "reg = \<lparr>reg_address = address, reg_last_seen = rfc3339 now, reg_roles = roles, reg_kv_index = True\<rparr>"
    and "reg_to_string J reg = Inr json" and "reg_from_str J json = Some reg"
  shows "\<exists>u. register_peer R J rfc3339 pfx node address ttl roles w = (Inr (), u) \<and>
    (\<forall>d legacy. int d < uint ttl \<longrightarrow>
       (\<exists>found legacy' z. list_registrations R J pfx legacy (after_ms R d u) = Some (Inr (found, legacy'), z) \<and>
          {r. (node, r) \<in> set found} = {reg}))"
proof -
  let ?v = "view (server w)"
  have rs: "redis_server R view" using assms(1) by (simp add: scan_server_def)
  note zok = peers_okD(1) [OF assms(6)]
  let ?j = "joined pfx node json (unat ttl) now ?v"
  obtain u where u: "register_peer R J rfc3339 pfx node address ttl roles w = (Inr (), u)" "view (server u) = ?j" "still now u"
    using redis_server.register_still [OF rs assms(2-5) zok, of J address rfc3339 roles json node] assms(12,13) by auto
  have "\<exists>found legacy' z. list_registrations R J pfx legacy (after_ms R d u) = Some (Inr (found, legacy'), z) \<and>
      {r. (node, r) \<in> set found} = {reg}" if d: "int d < uint ttl" for d legacy
  proof -
    have v: "view (server (after_ms R d u)) = ks_elapse d ?j"
      using redis_server.elapse_view [OF rs] u(2) by (simp add: after_ms_def)
    have st: "still (now + int d) (after_ms R d u)" using u(3) by (simp add: still_def after_ms_def quiet_def)
    have ok: "peers_ok pfx (ks_elapse d ?j)" by (intro elapse_peers joined_ok assms)
    have "finite (dom (objs ?j))"
      by (rule finite_put [OF assms(8), where A = "{peers_index_key pfx, peer_key pfx node}"]) (auto simp: joined_objs)
    then have fin: "finite (dom (objs (ks_elapse d ?j)))" by (rule finite_elapse)
    have "0 \<le> now + int d" "now + int d < 2 ^ 53" using assms(3,4) d by auto
    from scan_server.list_any [OF assms(1) st this, of pfx J legacy] ok fin assms(7)
      joined_shown [OF zok, of d "unat ttl" J json reg node now] d assms(14) show ?thesis
      unfolding v by auto
  qed
  with u(1) show ?thesis by blast
qed

text \<open>
  C34. A node that left is gone at once: after \<open>deregister_peer\<close> no listing shows it as a current node,
  not even one that still holds a scan in which it was registered.
\<close>

theorem deregistered_peer_gone:
  assumes "scan_server R view matches" and "still now w" and "0 \<le> now" and "now < 2 ^ 53"
    and "peers_ok pfx (view (server w))" and "glob_escape pfx = pfx" and "finite (dom (objs (view (server w))))"
  shows "\<exists>u. deregister_peer R pfx node w = (Inr (), u) \<and>
    (\<forall>legacy. \<exists>found legacy' z. list_registrations R J pfx legacy u = Some (Inr (found, legacy'), z) \<and>
       (\<forall>reg. (node, reg) \<in> set found \<longrightarrow> \<not> reg_kv_index reg))"
proof -
  let ?v = "view (server w)"
  have rs: "redis_server R view" using assms(1) by (simp add: scan_server_def)
  note zok = peers_okD(1) [OF assms(5)]
  obtain u where u: "deregister_peer R pfx node w = (Inr (), u)" "view (server u) = departed pfx node ?v" "still now u"
    using redis_server.deregister_still [OF rs assms(2) zok, of node] by blast
  have ok: "peers_ok pfx (view (server u))" unfolding u(2) by (rule departed_ok [OF assms(5)])
  have fin: "finite (dom (objs (view (server u))))" unfolding u(2)
    by (rule finite_put [OF assms(7), where A = "{peers_index_key pfx, peer_key pfx node}"]) (auto simp: departed_objs)
  have "node \<notin> set (peer_ids pfx now (view (server u)))"
    using score_range_subset [of "ScoreExcl now" PosInf "zset_at (view (server u)) (peers_index_key pfx)"]
      departed_set(1) [OF zok, of node]
    by (auto simp: u(2) peer_ids_def AList.delete_eq)
  then have "\<exists>found legacy' z. list_registrations R J pfx legacy u = Some (Inr (found, legacy'), z) \<and>
      (\<forall>reg. (node, reg) \<in> set found \<longrightarrow> \<not> reg_kv_index reg)" for legacy
    using scan_server.list_any [OF assms(1) u(3) assms(3,4) ok assms(6) fin, of J legacy] by blast
  with u(1) show ?thesis by blast
qed

text \<open>
  A reading of registrations for the concrete runs: one text, one registration; and a registry that
  holds one node.
\<close>

definition one_reg :: peer_registration where
  "one_reg = \<lparr>reg_address = ''redis://h'', reg_last_seen = ''t'', reg_roles = [], reg_kv_index = True\<rparr>"

definition one_json :: registration_json where
  "one_json = \<lparr>reg_to_string = \<lambda>r. Inr ''{}'', reg_from_str = \<lambda>t. if t = ''{}'' then Some one_reg else None\<rparr>"

definition one_peer :: ref_state where
  "one_peer = \<lparr>table = [(''p:peers/n1'', RStr ''{}'', Some 500), (''p:#peers'', RZset [(''n1'', 1500)], None)], log = []\<rparr>"

lemma empty_peers: "peers_ok pfx (ref_view ref_empty)"
  by (simp add: peers_ok_def zset_ok_def zset_at_def peer_text_def)

lemma still_ref [simp]: "still now (ref_world now s)"
  by (simp add: still_def)

lemma one_peer_facts:
  "objs (ref_view one_peer) = [''p:peers/n1'' \<mapsto> (RStr ''{}'', Some 500), ''p:#peers'' \<mapsto> (RZset [(''n1'', 1500)], None)]"
  "peers_ok ''p:'' (ref_view one_peer)" "peer_ids ''p:'' 1000 (ref_view one_peer) = [''n1'']"
  "registered one_json ''p:'' (ref_view one_peer) node reg \<longleftrightarrow> node = ''n1'' \<and> reg = one_reg"
proof -
  show o: "objs (ref_view one_peer) = [''p:peers/n1'' \<mapsto> (RStr ''{}'', Some 500), ''p:#peers'' \<mapsto> (RZset [(''n1'', 1500)], None)]"
    by (auto simp: one_peer_def ref_view_def)
  show "peers_ok ''p:'' (ref_view one_peer)"
    by (auto simp: peers_ok_def o zset_ok_def zset_at_def peers_index_key_def peer_key_def peer_text_def valid_utf8_ascii byte_in_def)
  show "peer_ids ''p:'' 1000 (ref_view one_peer) = [''n1'']"
    by (simp add: peer_ids_def o zset_at_def peers_index_key_def score_range_def)
  show "registered one_json ''p:'' (ref_view one_peer) node reg \<longleftrightarrow> node = ''n1'' \<and> reg = one_reg"
    by (auto simp: registered_def o str_at_def peer_key_def one_json_def)
qed

theorem list_registrations_exact_witness:
  "\<exists>found legacy' u. list_registrations ref_ops one_json ''p:'' (legacy_new 60000000000) (ref_world 1000 one_peer) =
     Some (Inr (found, legacy'), u) \<and> set found = {(''n1'', one_reg)}"
proof -
  have "finite (dom (objs (ref_view one_peer)))" by (simp add: one_peer_facts(1))
  then show ?thesis
    using list_registrations_exact [OF refscan.scan_server_axioms, of 1000 "ref_world 1000 one_peer" "''p:''"
        "legacy_new 60000000000" one_json] one_peer_facts(2-4)
    by (auto simp: rescans_def legacy_new_def)
qed

theorem registered_peer_listed_witness:
  "\<exists>u found legacy' z. register_peer ref_ops one_json (\<lambda>t. ''t'') ''p:'' ''n1'' ''redis://h'' 60000 [] (ref_world 1000 ref_empty) = (Inr (), u) \<and>
     list_registrations ref_ops one_json ''p:'' (legacy_new 60000000000) (after_ms ref_ops 59999 u) = Some (Inr (found, legacy'), z) \<and>
     {r. (''n1'', r) \<in> set found} = {one_reg}"
  using registered_peer_listed [OF refscan.scan_server_axioms, of 1000 "ref_world 1000 ref_empty" 60000 "''p:''" "''n1''" "''{}''"
      one_reg "''redis://h''" "\<lambda>t. ''t''" "[]" one_json] empty_peers
  by (auto simp: one_reg_def one_json_def peer_key_def valid_utf8_ascii byte_in_def)

theorem deregistered_peer_gone_witness:
  "\<exists>u found legacy' z. deregister_peer ref_ops ''p:'' ''n1'' (ref_world 1000 one_peer) = (Inr (), u) \<and>
     list_registrations ref_ops one_json ''p:'' \<lparr>max_age = 1, last_scan = Some (0, [(''n1'', one_reg)])\<rparr> u =
       Some (Inr (found, legacy'), z) \<and> (''n1'', one_reg) \<notin> set found"
proof -
  have "finite (dom (objs (ref_view one_peer)))" by (simp add: one_peer_facts(1))
  then have "\<exists>u. deregister_peer ref_ops ''p:'' ''n1'' (ref_world 1000 one_peer) = (Inr (), u) \<and>
    (\<forall>legacy. \<exists>found legacy' z. list_registrations ref_ops one_json ''p:'' legacy u = Some (Inr (found, legacy'), z) \<and>
       (\<forall>reg. (''n1'', reg) \<in> set found \<longrightarrow> \<not> reg_kv_index reg))"
    using one_peer_facts(2) by (intro deregistered_peer_gone [OF refscan.scan_server_axioms, of 1000]) auto
  moreover have "reg_kv_index one_reg" by (simp add: one_reg_def)
  ultimately show ?thesis by blast
qed

end
