(* ===== verification/Lease_Handles.thy ===== *)
theory Lease_Handles
  imports Lease_Properties Peer_Registry
begin

section \<open>Lease handles and their reference counts\<close>

text \<open>
  \<open>lease.rs\<close> and the \<open>lease_*\<close> methods of \<open>lib.rs\<close>: who keeps a \<open>LeaseState\<close> alive. An acquisition makes an
  \<open>Arc\<close> and clones it into the renewal task, so a fresh state has two references, the handle's and
  the task's. A borrow over FFI adds one while it lasts. The task gives its own back when its loop ends
  or when it is aborted. \<open>Drop\<close> runs when the last reference goes.
\<close>

record lease_arc =
  cell :: lease_state
  strong :: nat

definition new_arc :: "lease_state \<Rightarrow> lease_arc" where
  "new_arc st = \<lparr>cell = st, strong = 2\<rparr>"

text \<open>\<open>Drop for LeaseState\<close>: abort the task if its abort handle is still there.\<close>

definition drop_lease_state :: "lease_state \<Rightarrow> lease_state" where
  "drop_lease_state st = st\<lparr>renewing := False\<rparr>"

definition drop_ref :: "lease_arc \<Rightarrow> lease_arc" where
  "drop_ref a = (if strong a \<le> 1 then \<lparr>cell = drop_lease_state (cell a), strong = 0\<rparr> else a\<lparr>strong := strong a - 1\<rparr>)"

text \<open>The state after an operation on it; a task that has ended or was aborted returns its reference.\<close>

definition settle :: "lease_state \<Rightarrow> lease_arc \<Rightarrow> lease_arc" where
  "settle st a = (if renewing (cell a) \<and> \<not> renewing st then drop_ref (a\<lparr>cell := st\<rparr>) else a\<lparr>cell := st\<rparr>)"

text \<open>A turn of the renewal task.\<close>

definition task_turn :: "'s redis \<Rightarrow> (int \<Rightarrow> string) \<Rightarrow> lease_arc \<Rightarrow> 's world \<Rightarrow> lease_arc \<times> 's world" where
  "task_turn R rfc3339 a w = (case renewal_turn R rfc3339 (cell a) w of (st, u) \<Rightarrow> (settle st a, u))"

subsection \<open>The handle of the Rust API\<close>

definition handle_fencing_token :: "lease_arc \<Rightarrow> u64" where
  "handle_fencing_token a = fence_token (cell a)"

definition handle_expires_at :: "lease_arc \<Rightarrow> string" where
  "handle_expires_at a = expires_text (cell a)"

definition handle_renew :: "'s redis \<Rightarrow> (int \<Rightarrow> string) \<Rightarrow> lease_arc \<Rightarrow> 's world \<Rightarrow> (cluster_error + unit) \<times> lease_arc \<times> 's world" where
  "handle_renew R rfc3339 a w = (case renew_state R rfc3339 (cell a) w of (r, st, u) \<Rightarrow> (r, settle st a, u))"

definition handle_release :: "'s redis \<Rightarrow> lease_arc \<Rightarrow> 's world \<Rightarrow> (cluster_error + unit) \<times> lease_arc \<times> 's world" where
  "handle_release R a w = (case release_state R (cell a) w of (r, st, u) \<Rightarrow> (r, settle st a, u))"

subsection \<open>The handle over FFI\<close>

text \<open>A handle is a pointer, \<^const>\<open>None\<close> when null.\<close>

definition borrow_state :: "lease_arc option \<Rightarrow> lease_arc option" where
  "borrow_state hnd = map_option (\<lambda>a. a\<lparr>strong := strong a + 1\<rparr>) hnd"

definition returned_borrow :: "lease_arc option \<Rightarrow> lease_state option \<Rightarrow> lease_arc option" where
  "returned_borrow hnd st = (case (borrow_state hnd, st) of (Some a, Some st) \<Rightarrow> Some (drop_ref (settle st a)) | _ \<Rightarrow> None)"

definition lease_renew :: "'s redis \<Rightarrow> (int \<Rightarrow> string) \<Rightarrow> lease_arc option \<Rightarrow> 's world \<Rightarrow>
    (cluster_error + string) \<times> lease_arc option \<times> 's world" where
  "lease_renew R rfc3339 hnd w =
     (case renew_sync R rfc3339 (map_option cell hnd) w of (r, st, u) \<Rightarrow> (r, returned_borrow hnd st, u))"

definition lease_release :: "'s redis \<Rightarrow> lease_arc option \<Rightarrow> 's world \<Rightarrow>
    (cluster_error + unit) \<times> lease_arc option \<times> 's world" where
  "lease_release R hnd w =
     (case release_sync R (map_option cell hnd) w of (r, st, u) \<Rightarrow> (r, returned_borrow hnd st, u))"

definition lease_drop :: "lease_arc option \<Rightarrow> lease_arc option" where
  "lease_drop hnd = map_option drop_ref hnd"

subsection \<open>The life of a state\<close>

text \<open>
  Everything that can happen to a state: turns of its task, calls on its handle until the one drop the
  host owes it, and whatever else happens in the world. The flag is whether the handle is still there.
\<close>

inductive arc_step :: "'s redis \<Rightarrow> (int \<Rightarrow> string) \<Rightarrow> bool \<times> lease_arc \<times> 's world \<Rightarrow> bool \<times> lease_arc \<times> 's world \<Rightarrow> bool"
  for R rfc3339 where
  turn: "renewing (cell a) \<Longrightarrow> task_turn R rfc3339 a w = (a', u) \<Longrightarrow> arc_step R rfc3339 (h, a, w) (h, a', u)"
| renew: "lease_renew R rfc3339 (Some a) w = (r, Some a', u) \<Longrightarrow> arc_step R rfc3339 (True, a, w) (True, a', u)"
| release: "lease_release R (Some a) w = (r, Some a', u) \<Longrightarrow> arc_step R rfc3339 (True, a, w) (True, a', u)"
| drop: "lease_drop (Some a) = Some a' \<Longrightarrow> arc_step R rfc3339 (True, a, w) (False, a', w)"
| elsewhere: "arc_step R rfc3339 (h, a, w) (h, a, u)"

definition counts :: "bool \<Rightarrow> lease_arc \<Rightarrow> bool" where
  "counts h a \<longleftrightarrow> strong a = of_bool h + of_bool (renewing (cell a))"

lemma renew_keeps_task: "renew_state R rfc st w = (r, st', u) \<Longrightarrow> renewing st' = renewing st"
  by (auto simp: renew_state_def split: if_splits prod.splits sum.splits)

lemma renewal_turn_stops: "renewal_turn R rfc st w = (st', u) \<Longrightarrow> renewing st' \<Longrightarrow> renewing st"
  by (auto simp: renewal_turn_def dest: renew_keeps_task split: if_splits prod.splits sum.splits)

lemma release_stops: "release_state R st w = (r, st', u) \<Longrightarrow> renewing st' \<Longrightarrow> renewing st"
  by (auto simp: release_state_def split: if_splits)

lemma settle_counts: "counts h a \<Longrightarrow> (renewing st \<Longrightarrow> renewing (cell a)) \<Longrightarrow> counts h (settle st a)"
  by (cases h) (auto simp: counts_def settle_def drop_ref_def drop_lease_state_def)

lemma returned_counts: "counts True a \<Longrightarrow> (renewing st \<Longrightarrow> renewing (cell a)) \<Longrightarrow>
  returned_borrow (Some a) (Some st) = Some a' \<Longrightarrow> counts True a'"
  by (auto simp: returned_borrow_def borrow_state_def counts_def settle_def drop_ref_def split: if_splits)

lemma drop_counts: "counts True a \<Longrightarrow> counts False (drop_ref a) \<and> cell (drop_ref a) = cell a"
  by (auto simp: counts_def drop_ref_def drop_lease_state_def)

lemma arc_step_counts: "arc_step R rfc (h, a, w) (h', a', w') \<Longrightarrow> counts h a \<Longrightarrow> counts h' a'"
proof (erule arc_step.cases, goal_cases)
  case 1
  then show ?case
    by (auto simp: task_turn_def intro!: settle_counts dest: renewal_turn_stops split: prod.splits)
next
  case 2
  then show ?case
    by (auto simp: lease_renew_def renew_sync_def dest: renew_keeps_task split: prod.splits sum.splits
        elim!: returned_counts [rotated 2])
next
  case 3
  then show ?case
    by (auto simp: lease_release_def release_sync_def dest: release_stops split: prod.splits
        elim!: returned_counts [rotated 2])
next
  case 4
  then show ?case using drop_counts by (auto simp: lease_drop_def)
qed auto

lemma arc_steps_counts:
  assumes "(arc_step R rfc)\<^sup>*\<^sup>* (h, a, w) (h', a', w')" and "counts h a"
  shows "counts h' a'"
  using assms
proof (induction "(h', a', w')" arbitrary: h' a' w' rule: rtranclp_induct)
  case (step y)
  then show ?case by (cases y) (auto intro: arc_step_counts)
qed auto

text \<open>
  The \<open>Drop\<close> of a state never finds a task to abort: a state with a running task is never out of
  references, and dropping the handle leaves the task as it is.
\<close>

theorem drop_aborts_nothing:
  assumes "(arc_step R rfc)\<^sup>*\<^sup>* (True, new_arc st, w) (h, a, u)" and "renewing st"
  shows "(strong a = 0 \<longrightarrow> \<not> renewing (cell a)) \<and> (h \<longrightarrow> (\<exists>a'. lease_drop (Some a) = Some a' \<and> cell a' = cell a))"
proof -
  have "counts True (new_arc st)" using assms(2) by (simp add: counts_def new_arc_def)
  with assms(1) have "counts h a" by (rule arc_steps_counts)
  then show ?thesis using drop_counts [of a] by (auto simp: counts_def lease_drop_def)
qed

subsection \<open>A lease whose handle was dropped\<close>

text \<open>The task's loop with nobody else at work: \<open>d\<close> milliseconds of sleep, then a turn.\<close>

fun task_rounds :: "'s redis \<Rightarrow> (int \<Rightarrow> string) \<Rightarrow> nat \<Rightarrow> nat \<Rightarrow> lease_arc \<times> 's world \<Rightarrow> lease_arc \<times> 's world" where
  "task_rounds R rfc3339 d 0 S = S"
| "task_rounds R rfc3339 d (Suc n) S = (case S of (a, w) \<Rightarrow> task_rounds R rfc3339 d n (task_turn R rfc3339 a (after_ms R d w)))"

lemma leased_less: "leased v lk h T \<Longrightarrow> U \<le> T \<Longrightarrow> leased v lk h U"
  by (auto simp: leased_def)

text \<open>A lease in the care of a running task: held for \<open>T\<close> milliseconds more, at least, and not released.\<close>

definition renewed :: "('s \<Rightarrow> keyspace) \<Rightarrow> string \<Rightarrow> string \<Rightarrow> int \<Rightarrow> nat \<Rightarrow> lease_state \<Rightarrow> 's world \<Rightarrow> bool" where
  "renewed view lk h ms T st w \<longleftrightarrow> quiet w \<and> leased (view (server w)) lk h T \<and> px_ok ms \<and>
     lease_key st = lk \<and> holder st = h \<and> lease_ttl_ms st = ms \<and> \<not> released st \<and> renewing st"

context redis_server
begin

lemma after_ms_quiet: "quiet w \<Longrightarrow> quiet (after_ms R d w)"
  by (simp add: quiet_def after_ms_def)

lemma after_ms_leased:
  "leased (view (server w)) lk h T \<Longrightarrow> d \<le> T \<Longrightarrow> leased (view (server (after_ms R d w))) lk h (T - d)"
  by (simp add: after_ms_def elapse_view leased_elapse)

lemma try_acquire_held:
  assumes "quiet w" and "\<not> blank name" and "ttl_arg_ok (ttl_ms (Some ttl))" and "leased (view (server w)) lk h T"
  shows "\<exists>u. try_acquire_async R rfc name lk fk g ttl w = (Inr None, u) \<and> quiet u \<and> view (server u) = view (server w)"
proof -
  have px: "px_ok (ttl_ms (Some ttl))" using assms(3) ttl_arg_px ttl_ms_pos by blast
  obtain x where "ks_get lk (view (server w)) = (Inr (Some x), view (server w))"
    using ks_get_str [of "view (server w)" lk] leased_facts [OF assms(4)] by (auto simp: held_by_def)
  then have "acquire_script (ks_ops R) lk fk g (ttl_ms (Some ttl)) (view (server w)) = (Inr None, view (server w))"
    by (simp add: acquire_script_def cbind_def ret_def)
  with invoke_quiet [OF assms(1) acquire_sim [OF px, of lk fk g]] assms(2) show ?thesis
    by (auto simp: try_acquire_async_def Let_def cbind_def map_err_def ret_def)
qed

lemma renewed_turn:
  assumes "renewed view lk h ms T (cell a) w" and "d \<le> T"
  shows "\<exists>a' u. task_turn R rfc a (after_ms R d w) = (a', u) \<and> renewed view lk h ms (nat ms) (cell a') u"
proof -
  let ?w = "after_ms R d w"
  have st: "quiet ?w" "lease_key (cell a) = lk" "holder (cell a) = h" "lease_ttl_ms (cell a) = ms" "px_ok ms"
    "\<not> released (cell a)" "renewing (cell a)"
    using assms(1) after_ms_quiet by (auto simp: renewed_def)
  have "leased (view (server ?w)) lk h (T - d)"
    using after_ms_leased [OF _ assms(2)] assms(1) by (simp add: renewed_def)
  note facts = leased_facts [OF this]
  obtain u where u: "renew_state R rfc (cell a) ?w =
      (Inr (), (cell a)\<lparr>expires_text := rfc3339_after rfc (wall u) ms\<rparr>, u)" "quiet u"
    "view (server u) = ks_put lk (Some (RStr h, Some (nat ms))) (view (server ?w))"
    using renew_quiet [OF st(1) st(6), of rfc] st facts by auto
  then have "leased (view (server u)) lk h (nat ms)" by (simp add: leased_def str_at_def ks_simps)
  with u st show ?thesis by (auto simp: task_turn_def renewal_turn_def settle_def renewed_def)
qed

lemma renewed_rounds:
  assumes "renewed view lk h ms T (cell a) w" and "d \<le> T" and "T \<le> nat ms" and "task_rounds R rfc d n (a, w) = (a', u)"
  shows "renewed view lk h ms T (cell a') u"
  using assms(1,4)
proof (induction n arbitrary: a w)
  case (Suc n)
  obtain b x where "task_turn R rfc a (after_ms R d w) = (b, x)" "renewed view lk h ms (nat ms) (cell b) x"
    using renewed_turn [OF Suc.prems(1) assms(2)] by blast
  moreover from this have "renewed view lk h ms T (cell b) x"
    using leased_less [OF _ assms(3)] by (auto simp: renewed_def)
  ultimately show ?case using Suc by simp
qed simp

lemma renewed_refuses:
  assumes "renewed view lk h ms T st w" and "e \<le> T" and "\<not> blank name" and "ttl_arg_ok (ttl_ms (Some ttl))"
  shows "\<exists>u. try_acquire_async R rfc name lk fk g ttl (after_ms R e w) = (Inr None, u) \<and>
    view (server u) = view (server (after_ms R e w))"
  using try_acquire_held [OF after_ms_quiet assms(3,4) after_ms_leased [OF _ assms(2)], of w lk h rfc fk g] assms(1)
  by (auto simp: renewed_def)

end

text \<open>
  C22. A lease outlives its handle: when an acquired lease's handle is dropped without a release, its
  renewal task goes on. After any number of its rounds (each sleeping no longer than the lease's
  lifetime, as C17 says they do) the node still holds the lock, the task is still running, and every
  attempt to acquire the lock, by whatever name, holder and lifetime, at any moment of the next round, is
  turned down.
\<close>

theorem dropped_lease_lives:
  assumes "redis_server R view" and "quiet w" and "\<not> blank name" and "ttl_arg_ok (ttl_ms (Some ttl))"
    and "lease_wf lk fk c (view (server w))" and "in_i64 (c + 1)" and "\<not> live (view (server w)) lk"
    and "d \<le> nat (ttl_ms (Some ttl))"
  shows "\<exists>st u a. try_acquire_async R rfc name lk fk h ttl w = (Inr (Some st), u) \<and>
    lease_drop (Some (new_arc st)) = Some a \<and>
    (\<forall>n b x. task_rounds R rfc d n (a, u) = (b, x) \<longrightarrow>
       renewing (cell b) \<and> held_by (view (server x)) lk = Some h \<and>
       (\<forall>e name' ttl' g. e \<le> nat (ttl_ms (Some ttl)) \<and> \<not> blank name' \<and> ttl_arg_ok (ttl_ms (Some ttl')) \<longrightarrow>
          fst (try_acquire_async R rfc name' lk fk g ttl' (after_ms R e x)) = Inr None))"
proof -
  let ?ms = "ttl_ms (Some ttl)"
  have px: "px_ok ?ms" using assms(4) ttl_arg_px ttl_ms_pos by blast
  obtain u where u: "try_acquire_async R rfc name lk fk h ttl w = (Inr (Some \<lparr>lease_key = lk, holder = h,
      fence_token = word_of_int (lua_reply R (c + 1)), lease_ttl_ms = ?ms, expires_text = rfc3339_after rfc (wall u) ?ms,
      released = False, renewing = True\<rparr>), u)" "quiet u"
    "view (server u) = ks_put fk (Some (RStr (dec (c + 1)), None)) (ks_put lk (Some (RStr h, Some (nat ?ms))) (view (server w)))"
    using redis_server.try_acquire_quiet [OF assms(1-6), of rfc h] assms(7) by auto
  let ?st = "\<lparr>lease_key = lk, holder = h, fence_token = word_of_int (lua_reply R (c + 1)), lease_ttl_ms = ?ms,
      expires_text = rfc3339_after rfc (wall u) ?ms, released = False, renewing = True\<rparr>"
  let ?a = "\<lparr>cell = ?st, strong = 1\<rparr>"
  have "lk \<noteq> fk" using assms(5) by (simp add: lease_wf_def)
  then have "leased (view (server u)) lk h (nat ?ms)" using u(3) by (simp add: leased_def str_at_def ks_simps)
  then have start: "renewed view lk h ?ms (nat ?ms) (cell ?a) u" using u(2) px by (simp add: renewed_def)
  have "renewing (cell b) \<and> held_by (view (server x)) lk = Some h \<and>
      (\<forall>e name' ttl' g. e \<le> nat ?ms \<and> \<not> blank name' \<and> ttl_arg_ok (ttl_ms (Some ttl')) \<longrightarrow>
         fst (try_acquire_async R rfc name' lk fk g ttl' (after_ms R e x)) = Inr None)"
    if "task_rounds R rfc d n (?a, u) = (b, x)" for n b x
  proof -
    have b: "renewed view lk h ?ms (nat ?ms) (cell b) x"
      using redis_server.renewed_rounds [OF assms(1) start assms(8) order.refl that] .
    then have "fst (try_acquire_async R rfc name' lk fk g ttl' (after_ms R e x)) = Inr None"
      if "e \<le> nat ?ms" "\<not> blank name'" "ttl_arg_ok (ttl_ms (Some ttl'))" for e name' ttl' g
      using redis_server.renewed_refuses [OF assms(1) b that] by (metis fst_conv)
    with b show ?thesis using leased_facts by (auto simp: renewed_def)
  qed
  moreover have "lease_drop (Some (new_arc ?st)) = Some ?a"
    by (simp add: lease_drop_def new_arc_def drop_ref_def)
  ultimately show ?thesis using u(1) by blast
qed

theorem dropped_lease_lives_witness:
  "\<exists>st u a b x. try_acquire_async ref_ops dec ''mcpg-lock-x'' ''plocks/x'' ''plocks/x:fence'' ''n1'' 500000000
     (ref_world 1000 ref_empty) = (Inr (Some st), u) \<and> lease_drop (Some (new_arc st)) = Some a \<and>
     task_rounds ref_ops dec 400 1000 (a, u) = (b, x) \<and> held_by (ref_view (server x)) ''plocks/x'' = Some ''n1'' \<and>
     fst (try_acquire_async ref_ops dec ''mcpg-lock-x'' ''plocks/x'' ''plocks/x:fence'' ''n2'' 500000000 (after_ms ref_ops 400 x)) = Inr None"
proof -
  have ms: "ttl_ms (Some 500000000) = 500" by (simp add: ttl_ms_def)
  have ok: "ttl_arg_ok (ttl_ms (Some 500000000))" by (simp add: ms ttl_arg_ok_def)
  obtain st u a where run: "try_acquire_async ref_ops dec ''mcpg-lock-x'' ''plocks/x'' ''plocks/x:fence'' ''n1'' 500000000
      (ref_world 1000 ref_empty) = (Inr (Some st), u)" "lease_drop (Some (new_arc st)) = Some a"
    and rest: "\<And>n b x. task_rounds ref_ops dec 400 n (a, u) = (b, x) \<Longrightarrow> held_by (ref_view (server x)) ''plocks/x'' = Some ''n1'' \<and>
      (\<forall>e name' ttl' g. e \<le> 500 \<and> \<not> blank name' \<and> ttl_arg_ok (ttl_ms (Some ttl')) \<longrightarrow>
        fst (try_acquire_async ref_ops dec name' ''plocks/x'' ''plocks/x:fence'' g ttl' (after_ms ref_ops e x)) = Inr None)"
    using dropped_lease_lives [OF ref.redis_server_axioms _ lock_x_named ok, of "ref_world 1000 ref_empty"
        "''plocks/x''" "''plocks/x:fence''" 0 400 dec "''n1''"] free_facts by (auto simp: ms in_i64_def)
  obtain b x where "task_rounds ref_ops dec 400 1000 (a, u) = (b, x)" by fastforce
  with run rest [OF this] lock_x_named ok show ?thesis by (intro exI conjI) auto
qed

end
