(* ===== verification/Envelope.thy ===== *)
theory Envelope
  imports Prelude
begin

section \<open>The wire envelope\<close>

text \<open>
  \<open>envelope.rs\<close>: a version byte, a flag byte, optionally a big-endian 16-bit length and a routing key,
  then the payload. Bytes are \<^typ>\<open>char\<close>s, a routing key is the UTF-8 bytes of a Rust string. The
  checked addition of \<open>decode\<close> cannot overflow (4 plus a u16), so its error is not a branch here.
\<close>

definition VERSION :: char where "VERSION = CHR 0x01"

definition FLAG_NONE :: char where "FLAG_NONE = CHR 0x00"

definition FLAG_RK :: char where "FLAG_RK = CHR 0x01"

definition MAX_RK_LEN :: nat where "MAX_RK_LEN = 65535"

datatype envelope_error =
    TooLong nat
  | Truncated nat
  | UnsupportedVersion char
  | UnknownFlag char
  | LengthTruncated
  | BodyTruncated nat nat
  | InvalidUtf8

definition to_be_bytes :: "u16 \<Rightarrow> string" where
  "to_be_bytes w = [char_of (unat w div 256), char_of (unat w mod 256)]"

definition from_be_bytes :: "char \<Rightarrow> char \<Rightarrow> u16" where
  "from_be_bytes a b = of_nat (256 * of_char a + of_char b)"

definition encode :: "string option \<Rightarrow> string \<Rightarrow> envelope_error + string" where
  "encode routing_key payload =
     (case routing_key of
        None \<Rightarrow> Inr ([VERSION, FLAG_NONE] @ payload)
      | Some rk \<Rightarrow>
          if MAX_RK_LEN < length rk then Inl (TooLong (length rk))
          else Inr ([VERSION, FLAG_RK] @ to_be_bytes (of_nat (length rk)) @ rk @ payload))"

definition decode :: "string \<Rightarrow> envelope_error + (string option \<times> string)" where
  "decode bs =
     (if length bs < 2 then Inl (Truncated (length bs))
      else if bs ! 0 \<noteq> VERSION then Inl (UnsupportedVersion (bs ! 0))
      else if bs ! 1 = FLAG_NONE then Inr (None, drop 2 bs)
      else if bs ! 1 = FLAG_RK then
        (if length bs < 4 then Inl LengthTruncated
         else let rk_len = unat (from_be_bytes (bs ! 2) (bs ! 3)) in
           if length bs < 4 + rk_len then Inl (BodyTruncated rk_len (length bs - 4))
           else let rk = take rk_len (drop 4 bs) in
             if valid_utf8 rk then Inr (Some rk, drop (4 + rk_len) bs) else Inl InvalidUtf8)
      else Inl (UnknownFlag (bs ! 1)))"

text \<open>The \<open>Display\<close> texts.\<close>

definition hex_byte :: "char \<Rightarrow> string" where
  "hex_byte c = ''0x'' @ [hex_digit (of_char c div 16), hex_digit (of_char c mod 16)]"

fun show_envelope_error :: "envelope_error \<Rightarrow> string" where
  "show_envelope_error (TooLong n) = ''envelope: routing key '' @ dec (int n) @ '' bytes exceeds max '' @ dec (int MAX_RK_LEN)"
| "show_envelope_error (Truncated n) = ''envelope: header truncated (need >= 2 bytes, got '' @ dec (int n) @ '')''"
| "show_envelope_error (UnsupportedVersion c) = ''envelope: unsupported version '' @ hex_byte c"
| "show_envelope_error (UnknownFlag c) = ''envelope: unknown flag '' @ hex_byte c"
| "show_envelope_error LengthTruncated = ''envelope: routing-key length truncated''"
| "show_envelope_error (BodyTruncated e a) =
     ''envelope: routing-key body truncated (header says '' @ dec (int e) @ '', have '' @ dec (int a) @ '')''"
| "show_envelope_error InvalidUtf8 = ''envelope: routing key not valid UTF-8''"

subsection \<open>Big-endian lengths\<close>

lemma from_be_nat: "unat (from_be_bytes a b) = 256 * of_char a + of_char b"
proof -
  have "of_char a < (256 :: nat)" "of_char b < (256 :: nat)" by (rule nat_of_char_less_256)+
  then have "256 * of_char a + of_char b < (65536 :: nat)" by linarith
  then show ?thesis unfolding from_be_bytes_def unat_of_nat by simp
qed

lemma drop_header [simp]: "drop (4 + n) (a # b # c # d # q) = drop n q"
  by (simp add: numeral_eq_Suc)

lemma be_bytes_length: "n \<le> MAX_RK_LEN \<Longrightarrow>
  \<exists>a b. to_be_bytes (of_nat n) = [a, b] \<and> unat (from_be_bytes a b) = n"
  by (simp add: to_be_bytes_def from_be_nat of_char_of MAX_RK_LEN_def unat_of_nat)

lemma be_bytes_surj: "to_be_bytes (from_be_bytes a b) = [a, b]"
proof -
  have "of_char b < (256 :: nat)" by (rule nat_of_char_less_256)
  then show ?thesis unfolding to_be_bytes_def from_be_nat by simp
qed

subsection \<open>Properties\<close>

lemma decode_encode:
  assumes "encode rk p = Inr bs" and "pred_option valid_utf8 rk"
  shows "decode bs = Inr (rk, p)"
proof (cases rk)
  case None
  with assms show ?thesis by (auto simp: encode_def decode_def FLAG_NONE_def)
next
  case (Some k)
  then have len: "length k \<le> MAX_RK_LEN"
    and bs: "bs = VERSION # FLAG_RK # to_be_bytes (of_nat (length k)) @ k @ p"
    using assms(1) by (auto simp: encode_def split: if_splits)
  obtain a b where "to_be_bytes (of_nat (length k)) = [a, b]" "unat (from_be_bytes a b) = length k"
    using be_bytes_length [OF len] by blast
  with bs Some assms(2) show ?thesis
    by (simp add: decode_def FLAG_RK_def FLAG_NONE_def Let_def)
qed

lemma encode_decode:
  assumes "decode bs = Inr (rk, p)"
  shows "encode rk p = Inr bs" and "pred_option valid_utf8 rk"
proof -
  have len: "2 \<le> length bs" and v: "bs ! 0 = VERSION"
    using assms by (auto simp: decode_def not_less split: if_splits)
  then obtain f r where bs: "bs = VERSION # f # r"
    by (cases bs; cases "tl bs") auto
  show "encode rk p = Inr bs" "pred_option valid_utf8 rk"
  proof -
    consider (none) "f = FLAG_NONE" | (rk) "f = FLAG_RK" using assms bs
      by (auto simp: decode_def split: if_splits)
    then have "encode rk p = Inr bs \<and> pred_option valid_utf8 rk"
    proof cases
      case none
      with assms bs show ?thesis by (auto simp: decode_def encode_def)
    next
      case rk
      then obtain a b q where r: "r = a # b # q"
        using assms bs by (cases r; cases "tl r") (auto simp: decode_def FLAG_RK_def FLAG_NONE_def split: if_splits)
      let ?n = "unat (from_be_bytes a b)"
      have k: "rk = Some (take ?n q)" "p = drop ?n q" "?n \<le> length q" "valid_utf8 (take ?n q)"
        using assms bs r rk by (auto simp: decode_def FLAG_RK_def FLAG_NONE_def Let_def not_less split: if_splits)
      have "?n < 65536" using unsigned_less [of "from_be_bytes a b"] by simp
      then show ?thesis
        using k bs r rk be_bytes_surj [of a b] by (simp add: encode_def MAX_RK_LEN_def min_absorb2)
    qed
    then show "encode rk p = Inr bs" "pred_option valid_utf8 rk" by simp_all
  qed
qed

text \<open>
  C21. The envelope is a faithful code: a byte string decodes to a routing key and a payload exactly
  when it is their encoding and the routing key is UTF-8. So every published message comes back as it
  was (an empty routing key distinct from none), nothing that is not an envelope is accepted, and no
  two messages share an envelope.
\<close>

theorem envelope_roundtrip:
  "decode bs = Inr (rk, p) \<longleftrightarrow> encode rk p = Inr bs \<and> pred_option valid_utf8 rk"
  using decode_encode encode_decode by blast

text \<open>
  Encoding refuses exactly the routing keys that do not fit 16 bits of length, with their length.
\<close>

theorem encode_refuses:
  "encode rk p = Inl e \<longleftrightarrow> (\<exists>k. rk = Some k \<and> 65535 < length k \<and> e = TooLong (length k))"
  by (auto simp: encode_def MAX_RK_LEN_def split: option.splits if_splits)

end
