(* ===== verification/Bus.thy ===== *)
theory Bus
  imports Envelope Kv_Behaviour
begin

section \<open>Publish and subscribe\<close>

text \<open>
  \<open>pubsub.rs\<close> (the coordinator's topics, with routing keys in the envelope) and \<open>state/topic.rs\<close> (the
  plain topic bus): names, publishing, and what a subscriber makes of one message. A server's \<open>feed\<close> is
  what was published, in order. Subscriptions are in the theory \<open>Subscription\<close>.
\<close>

record published_message =
  topic :: string
  routing_key :: "string option"
  payload :: string
  from_node :: string

definition channel_name :: "string \<Rightarrow> string \<Rightarrow> string" where
  "channel_name pfx t = pfx @ ''topic:'' @ t"

definition publish_async ::
  "'s redis \<Rightarrow> string \<Rightarrow> string \<Rightarrow> string option \<Rightarrow> string \<Rightarrow> ('s, unit) op" where
  "publish_async R pfx t rk body =
     (let channel = channel_name pfx t in
      case encode rk body of
        Inl e \<Rightarrow> raise (Internal (''publish envelope: '' @ show_envelope_error e))
      | Inr wire \<Rightarrow>
          cbind (map_err (\<lambda>e. BackendUnavailable (''PUBLISH `'' @ channel @ ''`: '' @ e))
                  (invoke R (redis_publish R channel wire))) (\<lambda>_. ret ()))"

text \<open>What the subscriber's task makes of one message; \<^const>\<open>None\<close> is dropped.\<close>

definition deliver :: "string \<Rightarrow> string option \<Rightarrow> string \<Rightarrow> string \<Rightarrow> published_message option" where
  "deliver t filt node raw =
     (case decode raw of
        Inl e \<Rightarrow> None
      | Inr (msg_rk, body) \<Rightarrow>
          if filt \<noteq> None \<and> msg_rk \<noteq> filt then None
          else Some \<lparr>topic = t, routing_key = msg_rk, payload = body, from_node = node\<rparr>)"

definition full_topic :: "string \<Rightarrow> string \<Rightarrow> string" where
  "full_topic pfx t = (if pfx = [] then t else pfx @ '':'' @ t)"

definition topic_publish :: "'s redis \<Rightarrow> string \<Rightarrow> string \<Rightarrow> string \<Rightarrow> ('s, unit) op" where
  "topic_publish R pfx t body =
     (let full = full_topic pfx t in
      cbind (map_err (\<lambda>e. BackendUnavailable (''redis publish `'' @ full @ ''`: '' @ e))
              (invoke R (redis_publish R full body))) (\<lambda>_. ret ()))"

text \<open>The topic a bus subscriber sees for a channel.\<close>

definition logical_topic :: "string \<Rightarrow> string \<Rightarrow> string" where
  "logical_topic pfx channel =
     (let strip = (if pfx = [] then [] else pfx @ '':'')
      in if strip \<noteq> [] then (case strip_prefix strip channel of Some s \<Rightarrow> s | None \<Rightarrow> channel) else channel)"

subsection \<open>Publishing in a quiet world\<close>

context redis_server
begin

lemma publish_quiet:
  assumes "quiet w"
  shows "\<exists>u n. invoke R (redis_publish R c p) w = (Inr n, u) \<and> quiet u \<and>
    feed (view (server u)) = feed (view (server w)) @ [(c, p)] \<and> objs (view (server u)) = objs (view (server w))"
proof -
  obtain n s where run: "redis_publish R c p (server w) = (Inr n, s)"
    using publish_replies [of c p "server w"] by (cases "redis_publish R c p (server w)") auto
  then have "view s = (view (server w))\<lparr>feed := feed (view (server w)) @ [(c, p)]\<rparr>"
    using publish_feed [of c p "server w" n] by simp
  with quiet_trip [where m = "redis_publish R c p", OF assms run, of "show_error R"] show ?thesis
    by (auto simp: invoke_def)
qed

end

lemma channel_name_inj: "channel_name pfx s = channel_name pfx t \<longleftrightarrow> s = t"
  by (simp add: channel_name_def)

lemma full_topic_inj: "full_topic pfx s = full_topic pfx t \<longleftrightarrow> s = t"
  by (simp add: full_topic_def)

lemma logical_full_topic [simp]: "logical_topic pfx (full_topic pfx t) = t"
  by (simp add: logical_topic_def full_topic_def strip_prefix_def)

subsection \<open>Properties\<close>

text \<open>
  C27. A published message arrives: publishing to a topic with a routing key adds one message to the
  topic's channel and touches no key; a subscriber of the topic whose filter is absent or is that
  routing key gets the topic, the routing key and the payload as published, and one with another filter
  gets nothing.
\<close>

theorem publish_delivers:
  assumes "redis_server R view" and "quiet w" and "pred_option valid_utf8 rk" and "encode rk body = Inr wire"
  shows "\<exists>u. publish_async R pfx t rk body w = (Inr (), u) \<and>
    feed (view (server u)) = feed (view (server w)) @ [(channel_name pfx t, wire)] \<and>
    objs (view (server u)) = objs (view (server w)) \<and>
    deliver t filt node wire = (if filt = None \<or> filt = rk
      then Some \<lparr>topic = t, routing_key = rk, payload = body, from_node = node\<rparr> else None)"
proof -
  have "decode wire = Inr (rk, body)" using assms(3,4) by (rule decode_encode [rotated])
  then have "deliver t filt node wire = (if filt = None \<or> filt = rk
      then Some \<lparr>topic = t, routing_key = rk, payload = body, from_node = node\<rparr> else None)"
    by (auto simp: deliver_def)
  moreover obtain u where "publish_async R pfx t rk body w = (Inr (), u)"
    "feed (view (server u)) = feed (view (server w)) @ [(channel_name pfx t, wire)]"
    "objs (view (server u)) = objs (view (server w))"
    using redis_server.publish_quiet [OF assms(1,2), of "channel_name pfx t" wire] assms(4)
    by (auto simp: publish_async_def Let_def cbind_def map_err_def ret_def)
  ultimately show ?thesis by blast
qed

theorem publish_delivers_witness:
  "\<exists>u. publish_async ref_ops ''p'' ''t'' (Some ''k'') ''hi'' (ref_world 1000 ref_empty) = (Inr (), u) \<and>
     deliver ''t'' (Some ''k'') ''n2'' (CHR 0x01 # CHR 0x01 # CHR 0x00 # CHR 0x01 # ''khi'') =
       Some \<lparr>topic = ''t'', routing_key = Some ''k'', payload = ''hi'', from_node = ''n2''\<rparr>"
proof -
  have e: "encode (Some ''k'') ''hi'' = Inr (CHR 0x01 # CHR 0x01 # CHR 0x00 # CHR 0x01 # ''khi'')"
    by (simp add: encode_def MAX_RK_LEN_def VERSION_def FLAG_RK_def to_be_bytes_def char_of_def bit_0)
  show ?thesis
    using publish_delivers [OF ref.redis_server_axioms _ _ e, of "ref_world 1000 ref_empty" "''p''" "''t''" "Some ''k''" "''n2''"]
    by (auto simp: valid_utf8_ascii byte_in_def)
qed

end
