(* ===== verification/Subscription.thy ===== *)
theory Subscription
  imports Bus
begin

section \<open>Subscriptions\<close>

text \<open>
  \<open>subscribe_async\<close> of \<open>pubsub.rs\<close> and \<open>subscribe\<close> of \<open>state/topic.rs\<close>. A pub/sub connection yields what is
  published on its channel from the moment it subscribed: it is a position in the server's feed, the
  parameter \<open>published\<close> (Redis keeps no such list; it is the history the subscriber is measured by). The
  subscriber's task, the bounded channel to the receiver and the receiver are a machine \<open>sub_step\<close>;
  its moves interleave freely with publications, lost connections and a receiver that goes away.
\<close>

subsection \<open>Opening a connection\<close>

definition open_pubsub :: "'s redis \<Rightarrow> ('s \<Rightarrow> (string \<times> string) list) \<Rightarrow> string \<Rightarrow> string \<Rightarrow> ('s, nat) op" where
  "open_pubsub R published connect subscribe =
     cbind (map_err (\<lambda>e. BackendUnavailable (connect @ e)) (invoke R (\<lambda>s. (Inr (), s))))
       (\<lambda>_. map_err (\<lambda>e. BackendUnavailable (subscribe @ e)) (invoke R (\<lambda>s. (Inr (length (published s)), s))))"

definition reconnect :: "'s redis \<Rightarrow> ('s \<Rightarrow> (string \<times> string) list) \<Rightarrow> string \<Rightarrow> ('s, nat) op" where
  "reconnect R published channel =
     open_pubsub R published ''redis pubsub reconnect: '' (''redis re-SUBSCRIBE `'' @ channel @ ''`: '')"

text \<open>
  A subscription's constants, and its task, channel and receiver. The \<open>phase\<close> is where the task stands:
  at the head of the outer loop with the connection it holds, at the head of the inner loop, in
  \<open>stream.next()\<close>, in \<open>tx.send\<close>, in the sleep after a lost connection or a failed reconnect, or gone.
\<close>

record subscription =
  sub_channel :: string
  sub_topic :: string
  routing_key_filter :: "string option"
  sub_node :: string
  buffer :: nat

datatype phase = Outer "nat option" | Inner nat | Awaiting nat | Sending nat published_message | Backoff | Returned

record subscriber =
  phase :: phase
  queue :: "published_message list"
  taken :: "published_message list"
  is_closed :: bool

definition subscribed :: "nat \<Rightarrow> subscriber" where
  "subscribed n = \<lparr>phase = Outer (Some n), queue = [], taken = [], is_closed = False\<rparr>"

definition subscribe_async ::
  "'s redis \<Rightarrow> ('s \<Rightarrow> (string \<times> string) list) \<Rightarrow> string \<Rightarrow> string \<Rightarrow> string option \<Rightarrow> string \<Rightarrow> nat \<Rightarrow>
     ('s, subscription \<times> subscriber) op" where
  "subscribe_async R published pfx t filt node buf =
     (let channel = channel_name pfx t in
      cbind (open_pubsub R published ''redis pubsub connect: '' (''redis SUBSCRIBE `'' @ channel @ ''`: ''))
        (\<lambda>n. ret (\<lparr>sub_channel = channel, sub_topic = t, routing_key_filter = filt, sub_node = node, buffer = buf\<rparr>,
                  subscribed n)))"

subsection \<open>The task\<close>

text \<open>What the message at a position of the feed becomes, if it is on the channel and passes the filter.\<close>

definition message :: "subscription \<Rightarrow> (string \<times> string) list \<Rightarrow> nat \<Rightarrow> published_message option" where
  "message c hist i = (case hist ! i of (channel, raw) \<Rightarrow>
     if channel = sub_channel c then deliver (sub_topic c) (routing_key_filter c) (sub_node c) raw else None)"

definition next_message :: "subscription \<Rightarrow> (string \<times> string) list \<Rightarrow> nat \<Rightarrow> phase" where
  "next_message c hist i = (case message c hist i of None \<Rightarrow> Inner (Suc i) | Some m \<Rightarrow> Sending (Suc i) m)"

text \<open>
  The moves of the task and of a receiver that reads, on a connection that holds: the two tests of
  \<open>tx.is_closed\<close>, the next message of the stream, the send once the channel has room or its failure, and
  the receiver's read.
\<close>

inductive own_step :: "subscription \<Rightarrow> (string \<times> string) list \<Rightarrow> subscriber \<Rightarrow> subscriber \<Rightarrow> bool" for c hist s where
  enter: "phase s = Outer (Some i) \<Longrightarrow> \<not> is_closed s \<Longrightarrow> own_step c hist s (s\<lparr>phase := Inner i\<rparr>)"
| await: "phase s = Inner i \<Longrightarrow> \<not> is_closed s \<Longrightarrow> own_step c hist s (s\<lparr>phase := Awaiting i\<rparr>)"
| next_msg: "phase s = Awaiting i \<Longrightarrow> i < length hist \<Longrightarrow> own_step c hist s (s\<lparr>phase := next_message c hist i\<rparr>)"
| send: "phase s = Sending i m \<Longrightarrow> \<not> is_closed s \<Longrightarrow> length (queue s) < buffer c \<Longrightarrow>
    own_step c hist s (s\<lparr>phase := Inner i, queue := queue s @ [m]\<rparr>)"
| receive: "\<not> is_closed s \<Longrightarrow> queue s = m # q \<Longrightarrow> own_step c hist s (s\<lparr>queue := q, taken := taken s @ [m]\<rparr>)"
| break: "phase s = Outer x \<Longrightarrow> is_closed s \<Longrightarrow> own_step c hist s (s\<lparr>phase := Returned\<rparr>)"
| return: "phase s = Inner i \<Longrightarrow> is_closed s \<Longrightarrow> own_step c hist s (s\<lparr>phase := Returned\<rparr>)"
| send_fails: "phase s = Sending i m \<Longrightarrow> is_closed s \<Longrightarrow> own_step c hist s (s\<lparr>phase := Returned\<rparr>)"

text \<open>
  The moves of the world around it: publications, a lost connection, a reconnection that fails or
  succeeds at the feed's end, and a receiver that is dropped with what is queued for it.
\<close>

inductive sub_step :: "subscription \<Rightarrow> (string \<times> string) list \<times> subscriber \<Rightarrow> (string \<times> string) list \<times> subscriber \<Rightarrow> bool" for c where
  own: "own_step c hist s t \<Longrightarrow> sub_step c (hist, s) (hist, t)"
| publication: "sub_step c (hist, s) (hist @ [m], s)"
| lost: "phase s = Awaiting i \<Longrightarrow> sub_step c (hist, s) (hist, s\<lparr>phase := Backoff\<rparr>)"
| slept: "phase s = Backoff \<Longrightarrow> sub_step c (hist, s) (hist, s\<lparr>phase := Outer None\<rparr>)"
| refused: "phase s = Outer None \<Longrightarrow> \<not> is_closed s \<Longrightarrow> sub_step c (hist, s) (hist, s\<lparr>phase := Backoff\<rparr>)"
| reconnected: "phase s = Outer None \<Longrightarrow> \<not> is_closed s \<Longrightarrow> sub_step c (hist, s) (hist, s\<lparr>phase := Inner (length hist)\<rparr>)"
| dropped: "sub_step c (hist, s) (hist, s\<lparr>queue := [], is_closed := True\<rparr>)"

inductive_cases own_stepE: "own_step c hist s t"

subsection \<open>What has been heard\<close>

text \<open>The connection's position, the message in hand, and everything the task has passed on.\<close>

fun at :: "phase \<Rightarrow> nat option" where
  "at (Outer x) = x"
| "at (Inner i) = Some i"
| "at (Awaiting i) = Some i"
| "at (Sending i m) = Some i"
| "at _ = None"

fun in_hand :: "phase \<Rightarrow> published_message list" where
  "in_hand (Sending i m) = [m]"
| "in_hand _ = []"

definition carried :: "subscriber \<Rightarrow> published_message list" where
  "carried s = taken s @ queue s @ in_hand (phase s)"

definition heard_ok :: "subscription \<Rightarrow> nat \<Rightarrow> (string \<times> string) list \<Rightarrow> subscriber \<Rightarrow> nat list \<Rightarrow> bool" where
  "heard_ok c n hist s ps \<longleftrightarrow> sorted_wrt (<) ps \<and> set ps \<subseteq> {n..<length hist} \<and>
     (\<forall>i. at (phase s) = Some i \<longrightarrow> n \<le> i \<and> i \<le> length hist \<and> set ps \<subseteq> {..<i}) \<and>
     length (queue s) \<le> buffer c \<and>
     (if is_closed s then prefix (taken s) (List.map_filter (message c hist) ps)
      else carried s = List.map_filter (message c hist) ps)"

lemma message_grows: "i < length hist \<Longrightarrow> message c (hist @ [m]) i = message c hist i"
  by (simp add: message_def nth_append)

lemma heard_grows: "set ps \<subseteq> {n..<length hist} \<Longrightarrow>
  List.map_filter (message c (hist @ [m])) ps = List.map_filter (message c hist) ps"
  by (induction ps) (auto simp: List.map_filter_simps message_grows split: option.splits)

lemma map_filter_append: "List.map_filter f (xs @ ys) = List.map_filter f xs @ List.map_filter f ys"
  by (simp add: List.map_filter_def)

lemma map_filter_one: "List.map_filter f [x] = (case f x of None \<Rightarrow> [] | Some y \<Rightarrow> [y])"
  by (simp add: List.map_filter_simps split: option.splits)

lemma next_message_in_hand [simp]: "in_hand (next_message c hist i) = List.map_filter (message c hist) [i]"
  by (simp add: next_message_def map_filter_one split: option.splits)

lemma next_message_at [simp]: "at (next_message c hist i) = Some (Suc i)"
  by (simp add: next_message_def split: option.splits)

lemma own_step_heard:
  assumes "own_step c hist s t" and "heard_ok c n hist s ps"
  shows "\<exists>qs. heard_ok c n hist t qs"
  using assms(1)
proof cases
  case (next_msg i)
  then have "heard_ok c n hist t (ps @ [i])"
    using assms(2)
    by (auto simp: heard_ok_def carried_def map_filter_append sorted_wrt_append)
  then show ?thesis ..
qed (use assms(2) in \<open>auto simp: heard_ok_def carried_def intro!: exI [of _ ps]\<close>)

lemma sub_step_heard:
  assumes "sub_step c (hist, s) (hist', t)" and "n \<le> length hist" and "heard_ok c n hist s ps"
  shows "\<exists>qs. heard_ok c n hist' t qs"
  using assms(1)
proof cases
  case own
  with own_step_heard [OF _ assms(3)] show ?thesis by simp
next
  case (publication m)
  then have "heard_ok c n hist' t ps"
    using assms(3) heard_grows [of ps n hist c m] by (fastforce simp: heard_ok_def)
  then show ?thesis ..
next
  case dropped
  then have "heard_ok c n hist' t ps"
    using assms(3) by (auto simp: heard_ok_def carried_def split: if_splits) (metis prefixI)
  then show ?thesis ..
next
  case reconnected
  then have "heard_ok c n hist' t ps" using assms(2,3) by (auto simp: heard_ok_def carried_def)
  then show ?thesis ..
qed (use assms(3) in \<open>auto simp: heard_ok_def carried_def intro!: exI [of _ ps]\<close>)

lemma sub_steps_heard:
  assumes "(sub_step c)\<^sup>*\<^sup>* (hist, subscribed (length hist)) (hist', t)"
  shows "length hist \<le> length hist' \<and> (\<exists>ps. heard_ok c (length hist) hist' t ps)"
  using assms
proof (induction rule: rtranclp_induct2)
  case refl
  have "heard_ok c (length hist) hist (subscribed (length hist)) []"
    by (simp add: heard_ok_def subscribed_def carried_def List.map_filter_simps)
  then show ?case by auto
next
  case (step f s f' t)
  then have "length f \<le> length f'" by (auto elim: sub_step.cases)
  with step sub_step_heard [OF step.hyps(2)] show ?case by fastforce
qed

subsection \<open>A connection that holds\<close>

text \<open>The work left: four moves for each message ahead, one for each queued message.\<close>

fun phase_work :: "nat \<Rightarrow> phase \<Rightarrow> nat" where
  "phase_work n (Outer None) = 1"
| "phase_work n (Outer (Some i)) = 4 * (n - i) + 2"
| "phase_work n (Inner i) = 4 * (n - i) + 1"
| "phase_work n (Awaiting i) = 4 * (n - i)"
| "phase_work n (Sending i m) = 4 * (n - i) + 3"
| "phase_work n _ = 0"

definition work :: "(string \<times> string) list \<Rightarrow> subscriber \<Rightarrow> nat" where
  "work hist s = phase_work (length hist) (phase s) + length (queue s)"

lemma own_step_work: "own_step c hist s t \<Longrightarrow> work hist t < work hist s"
  by (erule own_stepE) (auto simp: work_def next_message_def split: option.splits, case_tac x, auto)

lemma own_steps_end: "\<not> (\<forall>n. own_step c hist (f n) (f (Suc n)))"
proof
  assume run: "\<forall>n. own_step c hist (f n) (f (Suc n))"
  have "work hist (f n) + n \<le> work hist (f 0)" for n
  proof (induction n)
    case (Suc n)
    with own_step_work [of c hist "f n" "f (Suc n)"] run show ?case by force
  qed simp
  from this [of "Suc (work hist (f 0))"] show False by simp
qed

text \<open>While the receiver is open, nothing is lost and the position stays on the connection.\<close>

definition due :: "subscription \<Rightarrow> (string \<times> string) list \<Rightarrow> subscriber \<Rightarrow> published_message list" where
  "due c hist s = carried s @
     (case at (phase s) of None \<Rightarrow> [] | Some i \<Rightarrow> List.map_filter (message c hist) [i..<length hist])"

definition connected :: "(string \<times> string) list \<Rightarrow> subscriber \<Rightarrow> bool" where
  "connected hist s \<longleftrightarrow> \<not> is_closed s \<and> (\<exists>i \<le> length hist. at (phase s) = Some i)"

lemma own_step_due:
  assumes "own_step c hist s t" and "connected hist s"
  shows "connected hist t \<and> due c hist t = due c hist s"
  using assms(1)
proof cases
  case (next_msg i)
  then have "[i..<length hist] = [i] @ [Suc i..<length hist]" by (simp add: upt_conv_Cons)
  then have "List.map_filter (message c hist) [i..<length hist] =
      List.map_filter (message c hist) [i] @ List.map_filter (message c hist) [Suc i..<length hist]"
    by (simp only: map_filter_append)
  with next_msg assms(2) show ?thesis by (simp add: connected_def due_def carried_def)
qed (use assms(2) in \<open>auto simp: connected_def due_def carried_def\<close>)

lemma own_steps_due:
  "(own_step c hist)\<^sup>*\<^sup>* s t \<Longrightarrow> connected hist s \<Longrightarrow> connected hist t \<and> due c hist t = due c hist s"
  by (induction rule: rtranclp_induct) (use own_step_due in \<open>metis+\<close>)

lemma connected_stuck:
  assumes "connected hist s" and "0 < buffer c" and "\<nexists>t. own_step c hist s t"
  shows "phase s = Awaiting (length hist) \<and> queue s = []"
proof -
  have "queue s = []" using assms(1,3) receive [of s] by (cases "queue s") (auto simp: connected_def)
  with assms show ?thesis
    using enter [of s] await [of s] next_msg [of s] send [of s]
    by (cases "phase s") (auto simp: connected_def le_less)
qed

lemma message_upto: "List.map_filter (message c (before @ news)) [length before..<length before + length news] =
    List.map_filter (\<lambda>(channel, raw). if channel = sub_channel c
      then deliver (sub_topic c) (routing_key_filter c) (sub_node c) raw else None) news"
proof (induction news rule: rev_induct)
  case (snoc m news)
  have "List.map_filter (message c (before @ news @ [m])) [length before..<length before + length news] =
      List.map_filter (message c (before @ news)) [length before..<length before + length news]"
    using heard_grows [of "[length before..<length before + length news]" 0 "before @ news" c m] by simp
  moreover have "message c (before @ news @ [m]) (length before + length news) =
      (\<lambda>(channel, raw). if channel = sub_channel c
        then deliver (sub_topic c) (routing_key_filter c) (sub_node c) raw else None) m"
    by (simp add: message_def nth_append)
  ultimately show ?case using snoc by (simp add: map_filter_append List.map_filter_simps split: option.split)
qed (simp add: List.map_filter_simps)

text \<open>A dropped receiver: the task only moves towards its return.\<close>

lemma own_step_closed: "own_step c hist s t \<Longrightarrow> is_closed s \<Longrightarrow> is_closed t \<and>
    (at (phase s) = None \<or> phase s \<noteq> Awaiting (length hist)) \<and> (phase t = Returned \<or> (\<exists>i. phase t = Inner i) \<or> (\<exists>i m. phase t = Sending i m))"
  by (erule own_stepE) (auto simp: next_message_def split: option.splits)

lemma closed_stuck: "is_closed s \<Longrightarrow> \<nexists>t. own_step c hist s t \<Longrightarrow>
    phase s = Backoff \<or> phase s = Returned \<or> (\<exists>i. phase s = Awaiting i \<and> length hist \<le> i)"
  using break [of s _ c hist] return [of s _ c hist] send_fails [of s _ _ c hist] next_msg [of s _ hist c]
  by (cases "phase s") (auto simp: not_less [symmetric])

subsection \<open>The topic bus\<close>

text \<open>
  A bus subscription reads its own connection, with no task between: what it yields is what was
  published since, on the channels its pattern matches. Which channels a pattern matches is Redis's, the
  parameter \<open>matches\<close>. Its connection is not replaced: the stream ends with it.
\<close>

record bus_message =
  msg_topic :: string
  msg_payload :: string

definition topic_subscribe ::
  "'s redis \<Rightarrow> ('s \<Rightarrow> (string \<times> string) list) \<Rightarrow> string \<Rightarrow> string \<Rightarrow> ('s, string \<times> nat) op" where
  "topic_subscribe R published pfx pat =
     (let full_pattern = full_topic pfx pat in
      cbind (open_pubsub R published ''redis pubsub connect: '' (''redis psubscribe `'' @ full_pattern @ ''`: ''))
        (\<lambda>n. ret (full_pattern, n)))"

definition bus_stream ::
  "(string \<Rightarrow> string \<Rightarrow> bool) \<Rightarrow> string \<Rightarrow> string \<times> nat \<Rightarrow> (string \<times> string) list \<Rightarrow> bus_message list" where
  "bus_stream matches pfx sub hist = (case sub of (full_pattern, n) \<Rightarrow>
     map (\<lambda>(channel, raw). \<lparr>msg_topic = logical_topic pfx channel, msg_payload = raw\<rparr>)
       (filter (\<lambda>(channel, raw). matches full_pattern channel) (drop n hist)))"

lemma bus_stream_grows:
  "snd sub \<le> length hist \<Longrightarrow> bus_stream matches pfx sub (hist @ [(full_topic pfx t, p)]) =
     bus_stream matches pfx sub hist @ (if matches (fst sub) (full_topic pfx t) then [\<lparr>msg_topic = t, msg_payload = p\<rparr>] else [])"
  by (cases sub) (simp add: bus_stream_def)

subsection \<open>Opening in a quiet world\<close>

lemma open_pubsub_quiet:
  assumes "quiet w"
  shows "\<exists>u. open_pubsub R published a b w = (Inr (length (published (server w))), u) \<and> quiet u \<and> server u = server w"
proof -
  obtain v where v: "invoke R (\<lambda>s. (Inr (), s)) w = (Inr (), v)" "quiet v" "server v = server w"
    using quiet_trip [OF assms, of "\<lambda>s. (Inr (), s)" "Inr ()" "server w" "show_error R"] by (auto simp: invoke_def)
  obtain u where "invoke R (\<lambda>s. (Inr (length (published s)), s)) v = (Inr (length (published (server w))), u)"
    "quiet u" "server u = server w"
    using quiet_trip [OF v(2), of "\<lambda>s. (Inr (length (published s)), s)" _ _ "show_error R"] v(3)
    by (auto simp: invoke_def)
  with v show ?thesis by (auto simp: open_pubsub_def cbind_def map_err_def)
qed

subsection \<open>Properties\<close>

text \<open>
  C28. Whatever interleaves with a subscription's task (publications, lost connections, failed and
  successful reconnects, a receiver that reads slowly or is dropped), there are increasing positions of
  the feed, all after the subscription, such that what the receiver has taken, what is queued for it and
  what the task has in hand are exactly what the messages at those positions deliver, in that order: no
  message is invented, repeated or reordered, and none from before the subscription is replayed. The
  queue never holds more than the buffer. After the receiver is dropped what it took stays such a prefix.
\<close>

theorem subscriber_in_order:
  assumes "(sub_step c)\<^sup>*\<^sup>* (hist, subscribed (length hist)) (hist', t)"
  shows "length (queue t) \<le> buffer c \<and> (\<exists>ps. sorted_wrt (<) ps \<and> set ps \<subseteq> {length hist..<length hist'} \<and>
    (if is_closed t then prefix (taken t) (List.map_filter (message c hist') ps)
     else taken t @ queue t @ in_hand (phase t) = List.map_filter (message c hist') ps))"
  using sub_steps_heard [OF assms] by (auto simp: heard_ok_def carried_def)

text \<open>A subscription to walk through: one message on the channel, one on another.\<close>

definition one_sub :: subscription where
  "one_sub = \<lparr>sub_channel = ''topic:t'', sub_topic = ''t'', routing_key_filter = None, sub_node = ''n1'', buffer = 1\<rparr>"

definition one_wire :: string where
  "one_wire = CHR 0x01 # CHR 0x00 # ''hi''"

lemma one_message: "message one_sub [(''topic:t'', one_wire)] 0 =
    Some \<lparr>topic = ''t'', routing_key = None, payload = ''hi'', from_node = ''n1''\<rparr>"
  by code_simp

lemma one_walk:
  "(sub_step one_sub)\<^sup>*\<^sup>* ([], subscribed 0) ([(''topic:t'', one_wire)],
     \<lparr>phase = Sending 1 \<lparr>topic = ''t'', routing_key = None, payload = ''hi'', from_node = ''n1''\<rparr>,
      queue = [], taken = [], is_closed = False\<rparr>)" (is "?R ([], _) (?h, ?t)")
proof -
  let ?s = "\<lambda>p. \<lparr>phase = p, queue = [], taken = [], is_closed = False\<rparr>"
  have "sub_step one_sub ([], subscribed 0) ([], ?s (Inner 0))"
    using sub_step.own [OF own_step.enter [of "subscribed 0" 0 one_sub "[]"]] by (simp add: subscribed_def)
  moreover have "sub_step one_sub ([], ?s (Inner 0)) ([], ?s (Awaiting 0))"
    using sub_step.own [OF own_step.await [of "?s (Inner 0)" 0 one_sub "[]"]] by simp
  moreover have "sub_step one_sub ([], ?s (Awaiting 0)) (?h, ?s (Awaiting 0))"
    using sub_step.publication [of one_sub "[]" "?s (Awaiting 0)" "(''topic:t'', one_wire)"] by simp
  moreover have "sub_step one_sub (?h, ?s (Awaiting 0)) (?h, ?t)"
    using sub_step.own [OF own_step.next_msg [of "?s (Awaiting 0)" 0 ?h one_sub]]
    by (simp add: next_message_def one_message)
  ultimately show ?thesis by (meson rtranclp.rtrancl_into_rtrancl rtranclp.rtrancl_refl)
qed

theorem subscriber_in_order_witness:
  "\<exists>ps. set ps \<subseteq> {0..<Suc 0} \<and> List.map_filter (message one_sub [(''topic:t'', one_wire)]) ps =
     [\<lparr>topic = ''t'', routing_key = None, payload = ''hi'', from_node = ''n1''\<rparr>]"
  using subscriber_in_order [of one_sub "[]", simplified, OF one_walk] by auto

text \<open>
  C29. A subscription whose connection holds delivers. With a buffer that is not zero, subscribing in a
  quiet world succeeds and yields a task such that, whatever is published afterwards, the task and a
  receiver that keeps reading cannot run for ever on it, and where they come to rest the receiver has
  taken, in the order of publication, every message of the topic that passes the filter, and nothing
  else.
\<close>

theorem subscriber_delivers:
  assumes "quiet w" and "0 < buf"
  shows "\<exists>c s u. subscribe_async R published pfx t filt node buf w = (Inr (c, s), u) \<and> server u = server w \<and>
    (let hist = published (server w) @ news in
     \<not> (\<exists>f. f 0 = s \<and> (\<forall>n. own_step c hist (f n) (f (Suc n)))) \<and>
     (\<forall>s'. (own_step c hist)\<^sup>*\<^sup>* s s' \<and> (\<nexists>s''. own_step c hist s' s'') \<longrightarrow>
        taken s' = List.map_filter (\<lambda>(channel, raw). if channel = channel_name pfx t then deliver t filt node raw else None) news))"
proof -
  let ?c = "\<lparr>sub_channel = channel_name pfx t, sub_topic = t, routing_key_filter = filt, sub_node = node, buffer = buf\<rparr>"
  let ?n = "length (published (server w))"
  let ?hist = "published (server w) @ news"
  let ?f = "\<lambda>(channel, raw). if channel = channel_name pfx t then deliver t filt node raw else None"
  obtain u where "subscribe_async R published pfx t filt node buf w = (Inr (?c, subscribed ?n), u)" "server u = server w"
    using open_pubsub_quiet [OF assms(1), of R published "''redis pubsub connect: ''"
        "''redis SUBSCRIBE `'' @ channel_name pfx t @ ''`: ''"]
    by (auto simp: subscribe_async_def Let_def cbind_def ret_def)
  moreover have "\<not> (\<exists>f. f 0 = subscribed ?n \<and> (\<forall>n. own_step ?c ?hist (f n) (f (Suc n))))"
    using own_steps_end by blast
  moreover have "taken s' = List.map_filter ?f news"
    if run: "(own_step ?c ?hist)\<^sup>*\<^sup>* (subscribed ?n) s'" and stuck: "\<nexists>s''. own_step ?c ?hist s' s''" for s'
  proof -
    have "connected ?hist (subscribed ?n)" by (simp add: connected_def subscribed_def)
    then have s': "connected ?hist s'" "due ?c ?hist s' = due ?c ?hist (subscribed ?n)"
      using own_steps_due [OF run] by auto
    have "taken s' = due ?c ?hist s'"
      using connected_stuck [OF s'(1) _ stuck] assms(2) by (simp add: due_def carried_def List.map_filter_simps)
    also have "\<dots> = List.map_filter (message ?c ?hist) [?n..<length ?hist]"
      unfolding s'(2) by (simp add: due_def carried_def subscribed_def)
    finally show ?thesis by (simp add: message_upto [of ?c] cong: if_cong)
  qed
  ultimately show ?thesis unfolding Let_def by blast
qed

theorem subscriber_delivers_witness:
  "\<exists>c s u. subscribe_async ref_ops log ''p:'' ''t'' None ''n1'' 1 (ref_world 1000 ref_empty) = (Inr (c, s), u) \<and>
     \<not> (\<exists>s'. (own_step c [(''p:topic:t'', one_wire)])\<^sup>*\<^sup>* s s' \<and> (\<nexists>s''. own_step c [(''p:topic:t'', one_wire)] s' s'') \<and>
        taken s' \<noteq> [\<lparr>topic = ''t'', routing_key = None, payload = ''hi'', from_node = ''n1''\<rparr>])"
proof -
  have "deliver ''t'' None ''n1'' one_wire = Some \<lparr>topic = ''t'', routing_key = None, payload = ''hi'', from_node = ''n1''\<rparr>"
    by code_simp
  moreover have "log (server (ref_world 1000 ref_empty)) = []" by (simp add: ref_world_def ref_empty_def)
  ultimately show ?thesis
    using subscriber_delivers [of "ref_world 1000 ref_empty" 1 ref_ops log "''p:''" "''t''" None "''n1''" "[(''p:topic:t'', one_wire)]"]
    by (simp add: channel_name_def List.map_filter_simps Let_def) blast
qed

text \<open>The publisher of a message is not in it: every message names its receiver's own node.\<close>

theorem from_node_is_receiver:
  assumes "(sub_step c)\<^sup>*\<^sup>* (hist, subscribed (length hist)) (hist', t)" and "m \<in> set (taken t)"
  shows "from_node m = sub_node c"
proof -
  obtain ps where ps: "heard_ok c (length hist) hist' t ps" using sub_steps_heard [OF assms(1)] by blast
  have "set (taken t) \<subseteq> set (List.map_filter (message c hist') ps)"
  proof (cases "is_closed t")
    case True
    with ps show ?thesis by (auto simp: heard_ok_def dest: set_mono_prefix)
  next
    case False
    with ps have "List.map_filter (message c hist') ps = carried t" by (simp add: heard_ok_def)
    then show ?thesis by (simp add: carried_def)
  qed
  with assms(2) obtain i where "message c hist' i = Some m" by (auto simp: List.map_filter_def)
  then show ?thesis by (auto simp: message_def deliver_def split: prod.splits sum.splits if_splits)
qed

text \<open>
  A dropped receiver is noticed at the next message, or when the connection is lost, and not before: a
  task that waits on a silent connection keeps it open, however long.
\<close>

theorem dropped_receiver:
  assumes "is_closed s" and "phase s = Awaiting i"
  shows "i = length hist \<Longrightarrow> \<nexists>t. own_step c hist s t"
    and "i < length hist \<Longrightarrow> (own_step c hist)\<^sup>*\<^sup>* s t \<Longrightarrow> \<nexists>t'. own_step c hist t t' \<Longrightarrow> phase t = Returned"
proof -
  show "\<nexists>t. own_step c hist s t" if "i = length hist"
    using assms that by (auto elim: own_stepE)
  show "phase t = Returned" if "i < length hist" "(own_step c hist)\<^sup>*\<^sup>* s t" and stuck: "\<nexists>t'. own_step c hist t t'"
    using that(2)
  proof (cases rule: rtranclp.cases)
    case rtrancl_refl
    with stuck next_msg [OF assms(2) that(1)] show ?thesis by blast
  next
    case (rtrancl_into_rtrancl r)
    have "is_closed r" using rtrancl_into_rtrancl(1) assms(1)
      by (induction rule: rtranclp_induct) (use own_step_closed in blast)+
    with own_step_closed [OF rtrancl_into_rtrancl(2)] have "is_closed t"
      "phase t = Returned \<or> (\<exists>i. phase t = Inner i) \<or> (\<exists>i m. phase t = Sending i m)" by auto
    with closed_stuck [OF _ stuck] show ?thesis by auto
  qed
qed

end
