(* ===== verification/Config.thy ===== *)
theory Config
  imports Kv_Keys
begin

section \<open>Configuration\<close>

text \<open>
  \<open>config.rs\<close>: the operator's settings, their defaults and validation, the identity of the node, the
  redaction of the URL for logs, and the resolution of a PEM value. The JSON parser (\<open>from_json\<close>), the
  environment variable \<open>HOSTNAME\<close>, the hash of \<open>DefaultHasher\<close> and the file system are parameters.
\<close>

record tls_config =
  ca_cert :: "string option"

record redis_backend_config =
  url :: string
  username :: "string option"
  password :: "string option"
  tls :: "tls_config option"
  cfg_key_prefix :: string
  cfg_lease_ttl_ms :: u64
  peer_ttl_ms :: u64
  node_id :: "string option"
  lease_renew_before_expiry_percent :: u32
  peer_refresh_interval_ms :: "u64 option"
  subscribe_pattern_buffer :: u64
  service_name :: string
  kv_sweep_interval_ms :: u64

datatype config_error =
    InvalidJson string
  | EmptyUrl
  | InvalidUrlScheme
  | TlsRequiresTlsScheme
  | TlsFileRead string string
  | EmptyKeyPrefix
  | InvalidLeaseTtl
  | InvalidPeerTtl
  | EmptyServiceName
  | InvalidBuffer

fun show_config_error :: "config_error \<Rightarrow> string" where
  "show_config_error (InvalidJson e) = ''invalid cluster.redis config JSON: '' @ e"
| "show_config_error EmptyUrl = ''cluster.redis: url is empty''"
| "show_config_error InvalidUrlScheme = ''cluster.redis: url must start with redis:// or rediss://''"
| "show_config_error TlsRequiresTlsScheme = ''cluster.redis: a `tls` block requires a `rediss://` url '' @
     [CHR 0xE2, CHR 0x80, CHR 0x94] @ '' a plaintext `redis://` connection would silently ignore it (use `rediss://`, or drop `tls`)''"
| "show_config_error (TlsFileRead path source) = ''cluster.redis: tls: failed to read PEM file `'' @ path @ ''`: '' @ source"
| "show_config_error EmptyKeyPrefix = ''cluster.redis: key_prefix is empty (use a distinct namespace per deployment)''"
| "show_config_error InvalidLeaseTtl = ''cluster.redis: lease_ttl_ms must be > 0''"
| "show_config_error InvalidPeerTtl = ''cluster.redis: peer_ttl_ms must be > 0''"
| "show_config_error EmptyServiceName = ''cluster.redis: service_name is empty''"
| "show_config_error InvalidBuffer = ''cluster.redis: subscribe_pattern_buffer must be > 0''"

definition default_key_prefix :: string where "default_key_prefix = ''mcpg:cluster:''"

definition default_lease_ttl_ms :: u64 where "default_lease_ttl_ms = 30000"

definition default_peer_ttl_ms :: u64 where "default_peer_ttl_ms = 60000"

definition default_renew_pct :: u32 where "default_renew_pct = 80"

definition default_subscribe_pattern_buffer :: u64 where "default_subscribe_pattern_buffer = 256"

definition default_service_name :: string where "default_service_name = ''mcpg''"

definition default_kv_sweep_interval_ms :: u64 where "default_kv_sweep_interval_ms = 30000"

text \<open>The settings that result from a JSON object with only a \<open>url\<close>.\<close>

definition default_config :: "string \<Rightarrow> redis_backend_config" where
  "default_config u = \<lparr>url = u, username = None, password = None, tls = None,
     cfg_key_prefix = default_key_prefix, cfg_lease_ttl_ms = default_lease_ttl_ms,
     peer_ttl_ms = default_peer_ttl_ms, node_id = None,
     lease_renew_before_expiry_percent = default_renew_pct, peer_refresh_interval_ms = None,
     subscribe_pattern_buffer = default_subscribe_pattern_buffer, service_name = default_service_name,
     kv_sweep_interval_ms = default_kv_sweep_interval_ms\<rparr>"

definition validate :: "redis_backend_config \<Rightarrow> config_error + unit" where
  "validate c =
     (if blank (url c) then Inl EmptyUrl
      else if \<not> prefix ''redis://'' (url c) \<and> \<not> prefix ''rediss://'' (url c) then Inl InvalidUrlScheme
      else if tls c \<noteq> None \<and> \<not> prefix ''rediss://'' (url c) then Inl TlsRequiresTlsScheme
      else if cfg_key_prefix c = [] then Inl EmptyKeyPrefix
      else if cfg_lease_ttl_ms c = 0 then Inl InvalidLeaseTtl
      else if peer_ttl_ms c = 0 then Inl InvalidPeerTtl
      else if blank (service_name c) then Inl EmptyServiceName
      else if subscribe_pattern_buffer c = 0 then Inl InvalidBuffer
      else Inr ())"

definition parse :: "(string \<Rightarrow> string + redis_backend_config) \<Rightarrow> string \<Rightarrow> config_error + redis_backend_config" where
  "parse from_json s =
     (case from_json s of Inl e \<Rightarrow> Inl (InvalidJson e)
      | Inr cfg \<Rightarrow> (case validate cfg of Inl e \<Rightarrow> Inl e | Inr _ \<Rightarrow> Inr cfg))"

text \<open>
  What a hasher has been fed, and its value (\<open>finish\<close>, any function). \<open>now_ns\<close> is the clock in
  nanoseconds, \<open>seq\<close> the process-wide counter.
\<close>

datatype hashed = HashU128 "128 word" | HashU64 u64

definition hex016 :: "u64 \<Rightarrow> string" where
  "hex016 h = map (\<lambda>i. hex_digit (unat h div 16 ^ i mod 16)) (rev [0..<16])"

definition random_suffix :: "(hashed list \<Rightarrow> u64) \<Rightarrow> 128 word \<Rightarrow> u64 \<Rightarrow> string" where
  "random_suffix finish now_ns seq =
     (let fed = [HashU128 now_ns, HashU64 seq];
          h1 = finish fed;
          h2 = finish (fed @ [HashU64 (seq + 0x9E3779B97F4A7C15), HashU128 (now_ns * 0xBF58476D1CE4E5B9)])
      in hex016 h1 @ hex016 h2)"

definition resolved_node_id :: "string option \<Rightarrow> string \<Rightarrow> redis_backend_config \<Rightarrow> string" where
  "resolved_node_id hostname rnd c =
     (case node_id c of Some i \<Rightarrow> i
      | None \<Rightarrow> (case hostname of
            Some h \<Rightarrow> if \<not> blank h then service_name c @ ''-'' @ h else service_name c @ ''-'' @ rnd
          | None \<Rightarrow> service_name c @ ''-'' @ rnd))"

definition effective_peer_refresh_interval_ms :: "redis_backend_config \<Rightarrow> u64" where
  "effective_peer_refresh_interval_ms c =
     (case peer_refresh_interval_ms c of Some i \<Rightarrow> i | None \<Rightarrow> max (peer_ttl_ms c div 2) 1)"

function trim_start :: "string \<Rightarrow> string" where
  "trim_start s = (case skip_space s of Some t \<Rightarrow> trim_start t | None \<Rightarrow> s)"
  by pat_completeness auto
termination by (relation "measure length") (auto dest: skip_space_length)

declare trim_start.simps [simp del]

definition resolve_pem :: "(string \<Rightarrow> string + string) \<Rightarrow> string \<Rightarrow> config_error + string" where
  "resolve_pem read_file v =
     (if prefix ''-----BEGIN'' (trim_start v) then Inr v
      else case read_file v of Inl e \<Rightarrow> Inl (TlsFileRead v e) | Inr pem \<Rightarrow> Inr pem)"

definition tls_root_cert_pem :: "(string \<Rightarrow> string + string) \<Rightarrow> redis_backend_config \<Rightarrow> config_error + string option" where
  "tls_root_cert_pem read_file c =
     (case Option.bind (tls c) ca_cert of
        None \<Rightarrow> Inr None
      | Some ca \<Rightarrow> (case resolve_pem read_file ca of Inl e \<Rightarrow> Inl e | Inr pem \<Rightarrow> Inr (Some pem)))"

subsection \<open>Redaction\<close>

text \<open>Up to and including the first \<open>://\<close>, and the rest.\<close>

fun split_scheme :: "string \<Rightarrow> (string \<times> string) option" where
  "split_scheme [] = None"
| "split_scheme (c # cs) =
     (if prefix ''://'' (c # cs) then Some (''://'', drop 2 cs)
      else map_option (\<lambda>(a, b). (c # a, b)) (split_scheme cs))"

definition ends_authority :: "char \<Rightarrow> bool" where
  "ends_authority c \<longleftrightarrow> c = CHR ''/'' \<or> c = CHR ''?'' \<or> c = CHR ''#''"

definition after_last_at :: "string \<Rightarrow> string" where
  "after_last_at s = rev (takeWhile (\<lambda>c. c \<noteq> CHR ''@'') (rev s))"

definition redact_redis_url :: "string \<Rightarrow> string" where
  "redact_redis_url u =
     (case split_scheme u of
        None \<Rightarrow> u
      | Some (sch, rest) \<Rightarrow>
          (let authority = takeWhile (\<lambda>c. \<not> ends_authority c) rest;
               tail = dropWhile (\<lambda>c. \<not> ends_authority c) rest
           in if CHR ''@'' \<in> set authority then sch @ after_last_at authority @ tail else u))"

text \<open>The \<open>Debug\<close> rendering, field by field: what a log line shows of the settings.\<close>

datatype debug_value = DText string | DOptText "string option" | DTls "tls_config option" | DNumber nat | DOptNumber "nat option"

definition debug_fields :: "redis_backend_config \<Rightarrow> (string \<times> debug_value) list" where
  "debug_fields c =
     [(''url'', DText (redact_redis_url (url c))), (''username'', DOptText (username c)),
      (''password'', DOptText (map_option (\<lambda>_. ''***'') (password c))), (''tls'', DTls (tls c)),
      (''key_prefix'', DText (cfg_key_prefix c)), (''lease_ttl_ms'', DNumber (unat (cfg_lease_ttl_ms c))),
      (''peer_ttl_ms'', DNumber (unat (peer_ttl_ms c))), (''node_id'', DOptText (node_id c)),
      (''lease_renew_before_expiry_percent'', DNumber (unat (lease_renew_before_expiry_percent c))),
      (''peer_refresh_interval_ms'', DOptNumber (map_option unat (peer_refresh_interval_ms c))),
      (''subscribe_pattern_buffer'', DNumber (unat (subscribe_pattern_buffer c))),
      (''service_name'', DText (service_name c)), (''kv_sweep_interval_ms'', DNumber (unat (kv_sweep_interval_ms c)))]"

text \<open>Two configurations that differ in a given password only render alike.\<close>

lemma debug_hides_password: "password c \<noteq> None \<Longrightarrow> debug_fields (c\<lparr>password := Some p\<rparr>) = debug_fields c"
  by (auto simp: debug_fields_def)

text \<open>A suffix is 32 lower-case hexadecimal digits and determines both hashes.\<close>

lemma hex_digit_inj: "m < 16 \<Longrightarrow> n < 16 \<Longrightarrow> hex_digit m = hex_digit n \<Longrightarrow> m = n"
  by (auto simp: hex_digit_def dest!: arg_cong [of _ _ "of_char :: char \<Rightarrow> nat"] split: if_splits)

lemma random_suffix_length: "length (random_suffix finish now_ns seq) = 32"
  by (simp add: random_suffix_def hex016_def Let_def)

lemma digits_inj: "m < 16 ^ k \<Longrightarrow> n < 16 ^ k \<Longrightarrow> (\<And>i. i < k \<Longrightarrow> m div 16 ^ i mod 16 = n div 16 ^ i mod (16 :: nat)) \<Longrightarrow> m = n"
proof (induction k arbitrary: m n)
  case (Suc k)
  have "m div 16 = n div 16"
  proof (rule Suc.IH)
    show "m div 16 < 16 ^ k" "n div 16 < 16 ^ k" using Suc.prems(1,2) by (auto simp: less_mult_imp_div_less mult.commute)
    show "m div 16 div 16 ^ i mod 16 = n div 16 div 16 ^ i mod 16" if "i < k" for i
      using Suc.prems(3) [of "Suc i"] that by (simp flip: div_mult2_eq)
  qed
  moreover have "m mod 16 = n mod 16" using Suc.prems(3) [of 0] by simp
  ultimately show ?case by (metis mult_div_mod_eq)
qed simp

lemma hex016_inj: "hex016 h = hex016 h' \<longleftrightarrow> h = h'"
proof
  assume eq: "hex016 h = hex016 h'"
  have digits: "unat h div 16 ^ i mod 16 = unat h' div 16 ^ i mod 16" if "i < 16" for i
    using eq that by (auto simp: hex016_def intro: hex_digit_inj)
  have "unat h < 16 ^ 16" "unat h' < 16 ^ 16" using unsigned_less [of h] unsigned_less [of h'] by simp_all
  from digits_inj [OF this digits] have "unat h = unat h'" .
  then show "h = h'" by (rule unsigned_word_eqI)
qed simp

lemma split_scheme_first: "CHR '':'' \<notin> set s \<Longrightarrow> split_scheme (s @ ''://'' @ r) = Some (s @ ''://'', r)"
proof (induction s)
  case (Cons c s)
  then have "\<not> prefix ''://'' (c # s @ ''://'' @ r)" by (auto simp: prefix_def)
  with Cons show ?case by simp
qed simp

lemma after_last_at_host:
  assumes "userinfo \<noteq> []" and "last userinfo = CHR ''@''" and "CHR ''@'' \<notin> set host"
  shows "after_last_at (userinfo @ host) = host"
proof -
  obtain us where "userinfo = us @ ''@''" using assms(1,2) by (metis append_butlast_last_id)
  with assms(3) show ?thesis
    by (simp add: after_last_at_def) (subst takeWhile_append2, auto)
qed

lemma redact_parts:
  assumes "CHR '':'' \<notin> set scheme" and "userinfo = [] \<or> last userinfo = CHR ''@''" and "CHR ''@'' \<notin> set host"
    and "list_all (\<lambda>c. \<not> ends_authority c) (userinfo @ host)" and "tail = [] \<or> ends_authority (hd tail)"
  shows "redact_redis_url (scheme @ ''://'' @ userinfo @ host @ tail) = scheme @ ''://'' @ host @ tail"
proof -
  let ?p = "\<lambda>c. \<not> ends_authority c"
  have stop: "takeWhile ?p tail = []" "dropWhile ?p tail = tail" using assms(5) by (cases tail; simp)+
  have auth: "takeWhile ?p ((userinfo @ host) @ tail) = userinfo @ host" "dropWhile ?p ((userinfo @ host) @ tail) = tail"
    using assms(4) stop by (simp_all add: takeWhile_append2 dropWhile_append2 list_all_iff)
  show ?thesis
  proof (cases "userinfo = []")
    case True
    with split_scheme_first [OF assms(1), of "userinfo @ host @ tail"] auth assms(3) show ?thesis
      by (simp add: redact_redis_url_def Let_def)
  next
    case False
    with assms(2) have at: "CHR ''@'' \<in> set userinfo" by (metis last_in_set)
    show ?thesis
      using split_scheme_first [OF assms(1), of "userinfo @ host @ tail"] auth at
        after_last_at_host [OF False _ assms(3)] False assms(2)
      by (simp add: redact_redis_url_def Let_def)
  qed
qed

subsection \<open>Properties\<close>

text \<open>
  Validation accepts exactly the usable settings: a Redis URL, in TLS form when a \<open>tls\<close> block is
  given (so the block is never silently ignored), a non-empty namespace, positive lifetimes and buffer,
  and a service name.
\<close>

theorem validate_accepts:
  "validate c = Inr () \<longleftrightarrow>
     (prefix ''redis://'' (url c) \<or> prefix ''rediss://'' (url c)) \<and>
     (tls c = None \<or> prefix ''rediss://'' (url c)) \<and>
     cfg_key_prefix c \<noteq> [] \<and> 0 < cfg_lease_ttl_ms c \<and> 0 < peer_ttl_ms c \<and>
     \<not> blank (service_name c) \<and> 0 < subscribe_pattern_buffer c"
proof -
  have "\<not> blank (url c)" if "prefix ''redis://'' (url c) \<or> prefix ''rediss://'' (url c)"
    using that by (auto simp: prefix_def not_blank_ascii byte_in_def)
  then show ?thesis by (auto simp: validate_def word_gt_0 split: if_splits)
qed

text \<open>
  A configuration that parses keeps the store's own keys out of the data: the prefix it carries is
  not empty, so no key of a caller can be the key index, the expiry index or the completeness mark.
\<close>

theorem parsed_keys_apart:
  assumes "parse from_json s = Inr cfg"
  shows "keys_apart (with_connection_manager (cfg_key_prefix cfg))"
proof -
  from assms have "validate cfg = Inr ()"
    by (auto simp: parse_def split: sum.splits)
  then have "cfg_key_prefix cfg \<noteq> []" by (auto simp: validate_def split: if_splits)
  then show ?thesis by (rule keys_apart_prefix)
qed

theorem parsed_keys_apart_witness:
  "keys_apart (with_connection_manager (cfg_key_prefix (default_config ''redis://h'')))"
proof -
  have "\<not> blank ''redis://h''" "\<not> blank default_service_name"
    by (auto simp: default_service_name_def byte_in_def intro!: not_blank_ascii)
  then have "parse (\<lambda>s. Inr (default_config s)) ''redis://h'' = Inr (default_config ''redis://h'')"
    by (simp add: parse_def validate_def default_config_def default_key_prefix_def default_lease_ttl_ms_def
        default_peer_ttl_ms_def default_subscribe_pattern_buffer_def)
  then show ?thesis by (rule parsed_keys_apart)
qed

text \<open>
  C25. Redaction removes the userinfo and nothing else: a URL made of a scheme, \<open>://\<close>, an optional
  userinfo that ends in an at sign, a host (with its port) and what follows from the first slash,
  question mark or hash on comes out as the same URL without the userinfo, whatever at signs the
  userinfo and the path hold; a URL without userinfo comes out as it is, and redacting twice changes
  nothing.
\<close>

theorem redact_hides_userinfo:
  assumes "CHR '':'' \<notin> set scheme" and "userinfo = [] \<or> last userinfo = CHR ''@''" and "CHR ''@'' \<notin> set host"
    and "list_all (\<lambda>c. \<not> ends_authority c) (userinfo @ host)" and "tail = [] \<or> ends_authority (hd tail)"
  shows "redact_redis_url (scheme @ ''://'' @ userinfo @ host @ tail) = scheme @ ''://'' @ host @ tail \<and>
    redact_redis_url (scheme @ ''://'' @ host @ tail) = scheme @ ''://'' @ host @ tail"
  using redact_parts [OF assms] redact_parts [OF assms(1) _ assms(3) _ assms(5), of "[]"] assms(4) by simp

theorem redact_hides_userinfo_witness:
  "redact_redis_url ''redis://u:p@q@h:6379/0?x=a@b'' = ''redis://h:6379/0?x=a@b''"
  using redact_hides_userinfo [of "''redis''" "''u:p@q@''" "''h:6379''" "''/0?x=a@b''"]
  by (simp add: ends_authority_def)

text \<open>
  A password may slip through redaction: a slash, question mark or hash in it ends what the search
  takes for the authority, no at sign is found before it, and the URL is logged as it is.
\<close>

theorem redact_misses_password:
  assumes "ends_authority sep" and "CHR ''@'' \<notin> set user" and "list_all (\<lambda>c. \<not> ends_authority c) user"
  shows "redact_redis_url (''redis://'' @ user @ [sep] @ secret @ ''@'' @ host) = ''redis://'' @ user @ [sep] @ secret @ ''@'' @ host"
proof -
  have s: "split_scheme (''redis://'' @ r) = Some (''redis://'', r)" for r by simp
  have "takeWhile (\<lambda>c. \<not> ends_authority c) (user @ [sep] @ secret @ ''@'' @ host) = user"
    using assms(1,3) by (simp add: takeWhile_append2 list_all_iff)
  then show ?thesis using assms(2) unfolding redact_redis_url_def s by simp
qed

theorem redact_misses_password_witness:
  "redact_redis_url ''redis://:pa/ss@10.0.0.1'' = ''redis://:pa/ss@10.0.0.1''"
  using redact_misses_password [of "CHR ''/''" "'':pa''" "''ss''" "''10.0.0.1''"]
  by (simp add: ends_authority_def)

end
