(* ===== verification/Backend.thy ===== *)
theory Backend
  imports Lease_Handles Subscription Config
begin

section \<open>The backend\<close>

text \<open>
  \<open>lib.rs\<close>: an instance (\<open>Inner\<close>) and the methods the host calls, which connect on first use and hand
  over to the components. An operation acts on the instance and the world it lives in. \<open>block_on\<close> runs
  an operation to its end, so a synchronous method is the operation itself. A connection attempt is a
  round trip; the client library, the manifest probe, the environment and the file system are
  parameters.
\<close>

record redis_primitives =
  kv_of :: redis_kv
  bus_prefix :: string

record inner =
  config :: redis_backend_config
  inner_node_id :: string
  started_at :: string
  conn_cell :: bool
  primitives :: "redis_primitives option"
  peer_scan :: legacy_peer_scan
  peer_refresh_abort :: bool
  kv_maintenance_abort :: bool
  draining :: bool

type_synonym 's replica = "inner \<times> 's world"
type_synonym ('s, 'a) bop = "(cluster_error, 's replica, 'a) eff"
type_synonym ('s, 'a) pbop = "(cluster_error, 's replica, 'a) peff"

abbreviation inner_prefix :: "inner \<Rightarrow> string" where
  "inner_prefix I \<equiv> cfg_key_prefix (config I)"

definition on_world :: "('e, 's world, 'a) eff \<Rightarrow> ('e, 's replica, 'a) eff" where
  "on_world m S = (case S of (I, w) \<Rightarrow> (case m w of (r, u) \<Rightarrow> (r, (I, u))))"

definition pon_world :: "('e, 's world, 'a) peff \<Rightarrow> ('e, 's replica, 'a) peff" where
  "pon_world p S = (case S of (I, w) \<Rightarrow> map_option (\<lambda>(r, u). (r, (I, u))) (p w))"

definition with_inner :: "(inner \<Rightarrow> ('e, 's replica, 'a) eff) \<Rightarrow> ('e, 's replica, 'a) eff" where
  "with_inner f S = f (fst S) S"

definition pwith_inner :: "(inner \<Rightarrow> ('e, 's replica, 'a) peff) \<Rightarrow> ('e, 's replica, 'a) peff" where
  "pwith_inner f S = f (fst S) S"

definition update_inner :: "(inner \<Rightarrow> inner) \<Rightarrow> ('e, 's replica, unit) eff" where
  "update_inner f S = (Inr (), (f (fst S), snd S))"

definition set_kv :: "redis_kv \<Rightarrow> inner \<Rightarrow> inner" where
  "set_kv K I = I\<lparr>primitives := map_option (\<lambda>P. P\<lparr>kv_of := K\<rparr>) (primitives I)\<rparr>"

subsection \<open>Connecting\<close>

definition populate :: "inner \<Rightarrow> inner" where
  "populate I = (case primitives I of
      Some P \<Rightarrow> I
    | None \<Rightarrow> I\<lparr>primitives := Some \<lparr>kv_of = with_connection_manager (inner_prefix I), bus_prefix = inner_prefix I\<rparr>\<rparr>)"

definition get_or_init_conn :: "'s redis \<Rightarrow> ('s, unit) bop" where
  "get_or_init_conn R S = (case S of (I, w) \<Rightarrow>
     if conn_cell I then (Inr (), (populate I, w))
     else case round_trip (show_error R) (ret ()) w of
            (Inl e, u) \<Rightarrow> (Inl (BackendUnavailable (''connection manager init: '' @ e)), (I, u))
          | (Inr _, u) \<Rightarrow> (Inr (), (populate (I\<lparr>conn_cell := True\<rparr>), u)))"

definition key_value_store :: "inner \<Rightarrow> redis_kv option" where
  "key_value_store I = map_option kv_of (primitives I)"

definition pub_sub :: "inner \<Rightarrow> string option" where
  "pub_sub I = map_option bus_prefix (primitives I)"

text \<open>The store, once the connection is up: through the accessor, and from the instance.\<close>

definition require_kv :: "'s redis \<Rightarrow> ('s, redis_kv) bop" where
  "require_kv R = cbind (get_or_init_conn R) (\<lambda>_. with_inner (\<lambda>I.
     case key_value_store I of
       Some K \<Rightarrow> ret K
     | None \<Rightarrow> raise (BackendUnavailable ''redis cluster: key_value_store unavailable'')))"

definition require_redis_kv :: "'s redis \<Rightarrow> ('s, redis_kv) bop" where
  "require_redis_kv R = cbind (get_or_init_conn R) (\<lambda>_. with_inner (\<lambda>I.
     case primitives I of
       Some P \<Rightarrow> ret (kv_of P)
     | None \<Rightarrow> raise (BackendUnavailable ''redis cluster: key_value_store unavailable'')))"

lemma require_redis_kv_eq [simp]: "require_redis_kv R = require_kv R"
  by (rule ext) (auto simp: require_redis_kv_def require_kv_def cbind_def with_inner_def key_value_store_def
      split: prod.splits sum.splits option.splits)

subsection \<open>Construction\<close>

text \<open>
  The client library: parsing a URL, the credentials of the parsed form, and the client for it with an
  optional root certificate.
\<close>

record 'i client_library =
  into_connection_info :: "string \<Rightarrow> string + 'i"
  set_username :: "string option \<Rightarrow> 'i \<Rightarrow> 'i"
  set_password :: "string option \<Rightarrow> 'i \<Rightarrow> 'i"
  build_with_tls :: "'i \<Rightarrow> string \<Rightarrow> string + unit"
  open_client :: "'i \<Rightarrow> string + unit"

text \<open>What surrounds an instance: the host's probe, the JSON parser, the process and the calendar.\<close>

record host =
  is_manifest_probe_config :: "string \<Rightarrow> bool"
  config_from_json :: "string \<Rightarrow> string + redis_backend_config"
  debug_config_error :: "config_error \<Rightarrow> string"
  read_file :: "string \<Rightarrow> string + string"
  hostname :: "string option"
  hash_finish :: "hashed list \<Rightarrow> u64"
  now_ns :: "128 word"
  suffix_seq :: u64
  rfc3339_secs :: "int \<Rightarrow> string"

definition new_inner :: "host \<Rightarrow> int \<Rightarrow> redis_backend_config \<Rightarrow> inner" where
  "new_inner H now cfg = \<lparr>config = cfg, inner_node_id = resolved_node_id (hostname H) (random_suffix (hash_finish H) (now_ns H) (suffix_seq H)) cfg,
     started_at = rfc3339_secs H now, conn_cell = False, primitives = None,
     peer_scan = legacy_new (unat (peer_ttl_ms cfg) * 1000000),
     peer_refresh_abort = False, kv_maintenance_abort = False, draining = False\<rparr>"

text \<open>A panic of the constructor is \<open>Inl\<close> with its message.\<close>

definition from_validated_config ::
  "'s redis \<Rightarrow> 'i client_library \<Rightarrow> host \<Rightarrow> redis_backend_config \<Rightarrow> 's world \<Rightarrow> string + 's replica" where
  "from_validated_config R L H cfg w =
     (case into_connection_info L (url cfg) of
        Inl e \<Rightarrow> Inl (''redis cluster: invalid url `'' @ redact_redis_url (url cfg) @ ''`: '' @ e)
      | Inr info0 \<Rightarrow>
          (let info1 = (if username cfg \<noteq> None then set_username L (username cfg) info0 else info0);
               info = (if password cfg \<noteq> None then set_password L (password cfg) info1 else info1)
           in case tls_root_cert_pem (read_file H) cfg of
                Inl e \<Rightarrow> Inl (''redis cluster: '' @ show_config_error e @ ''. Refusing to load with unusable TLS config.'')
              | Inr root_ca \<Rightarrow>
                  (case (case root_ca of Some pem \<Rightarrow> build_with_tls L info pem | None \<Rightarrow> open_client L info) of
                     Inl e \<Rightarrow> Inl (''redis cluster: failed to open client `'' @ redact_redis_url (url cfg) @ ''`: '' @ e)
                   | Inr _ \<Rightarrow>
                       (case get_or_init_conn R (new_inner H (wall w) cfg, w) of (r, (I, u)) \<Rightarrow>
                          Inr (I\<lparr>peer_refresh_abort := True, kv_maintenance_abort := True\<rparr>, u)))))"

text \<open>The manifest probe gets a placeholder configuration, everything else is parsed and validated.\<close>

definition probe_config :: string where
  "probe_config = ''{'' @ [CHR 0x22] @ ''url'' @ [CHR 0x22] @ '':'' @ [CHR 0x22] @ ''redis://127.0.0.1:6379'' @ [CHR 0x22] @ ''}''"

definition from_config_json ::
  "'s redis \<Rightarrow> 'i client_library \<Rightarrow> host \<Rightarrow> string \<Rightarrow> 's world \<Rightarrow> string + 's replica" where
  "from_config_json R L H config_json w =
     (if is_manifest_probe_config H config_json
      then case parse (config_from_json H) probe_config of
             Inl e \<Rightarrow> Inl (''manifest-probe placeholder redis config is valid: '' @ debug_config_error H e)
           | Inr cfg \<Rightarrow> from_validated_config R L H cfg w
      else case parse (config_from_json H) config_json of
             Inl e \<Rightarrow> Inl (''redis cluster config parse failed: '' @ show_config_error e @
               ''. A misconfigured cluster_backend is a security hole; refusing to load.'')
           | Inr cfg \<Rightarrow> from_validated_config R L H cfg w)"

subsection \<open>Locks and leadership\<close>

text \<open>The lease name of the host's lock or role, and its keys.\<close>

definition lock_name :: "string \<Rightarrow> string" where "lock_name key = ''mcpg-lock-'' @ key"

definition leadership_name :: "string \<Rightarrow> string" where "leadership_name role = ''mcpg-leadership-'' @ role"

definition acquire_named ::
  "'s redis \<Rightarrow> (int \<Rightarrow> string) \<Rightarrow> string \<Rightarrow> string \<Rightarrow> string \<Rightarrow> nat \<Rightarrow> ('s, lease_state) pbop" where
  "acquire_named R rfc3339 kind name key ttl =
     pbind (pure (get_or_init_conn R)) (\<lambda>_. pwith_inner (\<lambda>I.
       case lease_keys (inner_prefix I) kind key of (lk, fk) \<Rightarrow>
         pon_world (acquire_async R rfc3339 name lk fk (inner_node_id I) ttl)))"

definition try_acquire_named ::
  "'s redis \<Rightarrow> (int \<Rightarrow> string) \<Rightarrow> string \<Rightarrow> string \<Rightarrow> string \<Rightarrow> nat \<Rightarrow> ('s, lease_state option) bop" where
  "try_acquire_named R rfc3339 kind name key ttl =
     cbind (get_or_init_conn R) (\<lambda>_. with_inner (\<lambda>I.
       case lease_keys (inner_prefix I) kind key of (lk, fk) \<Rightarrow>
         on_world (try_acquire_async R rfc3339 name lk fk (inner_node_id I) ttl)))"

definition acquire_leadership :: "'s redis \<Rightarrow> (int \<Rightarrow> string) \<Rightarrow> string \<Rightarrow> nat \<Rightarrow> ('s, lease_state) pbop" where
  "acquire_leadership R rfc3339 role ttl = acquire_named R rfc3339 ''leadership'' (leadership_name role) role ttl"

definition acquire_lock :: "'s redis \<Rightarrow> (int \<Rightarrow> string) \<Rightarrow> string \<Rightarrow> nat \<Rightarrow> ('s, lease_state) pbop" where
  "acquire_lock R rfc3339 key ttl = acquire_named R rfc3339 ''locks'' (lock_name key) key ttl"

definition try_acquire_leadership :: "'s redis \<Rightarrow> (int \<Rightarrow> string) \<Rightarrow> string \<Rightarrow> nat \<Rightarrow> ('s, lease_state option) bop" where
  "try_acquire_leadership R rfc3339 role ttl = try_acquire_named R rfc3339 ''leadership'' (leadership_name role) role ttl"

definition try_acquire_lock :: "'s redis \<Rightarrow> (int \<Rightarrow> string) \<Rightarrow> string \<Rightarrow> nat \<Rightarrow> ('s, lease_state option) bop" where
  "try_acquire_lock R rfc3339 key ttl = try_acquire_named R rfc3339 ''locks'' (lock_name key) key ttl"

text \<open>The synchronous forms, with lifetimes in milliseconds.\<close>

definition sync_acquire_named ::
  "'s redis \<Rightarrow> (int \<Rightarrow> string) \<Rightarrow> string \<Rightarrow> string \<Rightarrow> string \<Rightarrow> u64 \<Rightarrow> ('s, lease_state \<times> u64 \<times> string) pbop" where
  "sync_acquire_named R rfc3339 kind name key ms =
     pbind (pure (get_or_init_conn R)) (\<lambda>_. pwith_inner (\<lambda>I.
       case lease_keys (inner_prefix I) kind key of (lk, fk) \<Rightarrow>
         pon_world (acquire_sync R rfc3339 name lk fk (inner_node_id I) (unat ms))))"

definition sync_try_acquire_named ::
  "'s redis \<Rightarrow> (int \<Rightarrow> string) \<Rightarrow> string \<Rightarrow> string \<Rightarrow> string \<Rightarrow> u64 \<Rightarrow> ('s, (lease_state \<times> u64 \<times> string) option) bop" where
  "sync_try_acquire_named R rfc3339 kind name key ms =
     cbind (get_or_init_conn R) (\<lambda>_. with_inner (\<lambda>I.
       case lease_keys (inner_prefix I) kind key of (lk, fk) \<Rightarrow>
         on_world (try_acquire_sync R rfc3339 name lk fk (inner_node_id I) (unat ms))))"

subsection \<open>The bus\<close>

definition backend_publish :: "'s redis \<Rightarrow> string \<Rightarrow> string option \<Rightarrow> string \<Rightarrow> ('s, unit) bop" where
  "backend_publish R t rk body =
     cbind (get_or_init_conn R) (\<lambda>_. with_inner (\<lambda>I. on_world (publish_async R (inner_prefix I) t rk body)))"

text \<open>A subscription opens a connection of its own; the queue group is ignored.\<close>

definition backend_subscribe ::
  "'s redis \<Rightarrow> ('s \<Rightarrow> (string \<times> string) list) \<Rightarrow> string \<Rightarrow> string option \<Rightarrow> string option \<Rightarrow> ('s, subscription \<times> subscriber) bop" where
  "backend_subscribe R published t queue_group rk = with_inner (\<lambda>I.
     on_world (subscribe_async R published (inner_prefix I) t rk (inner_node_id I)
       (unat (subscribe_pattern_buffer (config I)))))"

text \<open>Under a validated configuration the channel has room for a message at least.\<close>

lemma subscribe_has_room:
  "validate (config I) = Inr () \<Longrightarrow> backend_subscribe R published t queue_group rk (I, w) = (Inr (c, s), S) \<Longrightarrow> 0 < buffer c"
  by (auto simp: backend_subscribe_def with_inner_def on_world_def subscribe_async_def Let_def cbind_def ret_def
      validate_def unat_gt_0 split: prod.splits sum.splits if_splits)

subsection \<open>The state store over FFI\<close>

definition ttl_from_ms :: "u64 option \<Rightarrow> nat option" where
  "ttl_from_ms ttl = map_option (\<lambda>ms. unat ms * 1000000) ttl"

definition ffi_kv_get :: "'s redis \<Rightarrow> string \<Rightarrow> ('s, entry option) bop" where
  "ffi_kv_get R key = cbind (require_kv R) (\<lambda>K. on_world (kv_get R K key))"

definition ffi_kv_put :: "'s redis \<Rightarrow> string \<Rightarrow> string \<Rightarrow> u64 option \<Rightarrow> ('s, unit) bop" where
  "ffi_kv_put R key value ttl = cbind (require_kv R) (\<lambda>K. on_world (kv_put R K key value (ttl_from_ms ttl)))"

definition ffi_kv_put_if_absent :: "'s redis \<Rightarrow> string \<Rightarrow> string \<Rightarrow> u64 option \<Rightarrow> ('s, bool) bop" where
  "ffi_kv_put_if_absent R key value ttl =
     cbind (require_kv R) (\<lambda>K. on_world (kv_put_if_absent R K key value (ttl_from_ms ttl)))"

definition ffi_kv_delete :: "'s redis \<Rightarrow> string \<Rightarrow> ('s, bool) bop" where
  "ffi_kv_delete R key = cbind (require_kv R) (\<lambda>K. on_world (kv_delete R K key))"

definition ffi_kv_list_page ::
  "'s redis \<Rightarrow> cursor_json \<Rightarrow> string \<Rightarrow> string option \<Rightarrow> u64 \<Rightarrow> ('s, kv_page) pbop" where
  "ffi_kv_list_page R J pfx cursor limit =
     pbind (pure (require_kv R)) (\<lambda>K. pon_world (kv_list_page R J K pfx cursor limit))"

definition ffi_kv_expire :: "'s redis \<Rightarrow> string \<Rightarrow> u64 option \<Rightarrow> ('s, bool) bop" where
  "ffi_kv_expire R key ttl = cbind (require_kv R) (\<lambda>K. on_world (kv_expire R K key (ttl_from_ms ttl)))"

definition ffi_kv_incr :: "'s redis \<Rightarrow> string \<Rightarrow> int \<Rightarrow> u64 option \<Rightarrow> ('s, int) bop" where
  "ffi_kv_incr R key delta ttl = cbind (require_kv R) (\<lambda>K. on_world (kv_incr R K key delta (ttl_from_ms ttl)))"

definition ffi_kv_incr_floor :: "'s redis \<Rightarrow> string \<Rightarrow> int \<Rightarrow> int \<Rightarrow> u64 option \<Rightarrow> ('s, int) bop" where
  "ffi_kv_incr_floor R key delta floor ttl =
     cbind (require_kv R) (\<lambda>K. on_world (kv_incr_floor R K key delta floor (ttl_from_ms ttl)))"

subsection \<open>Peers\<close>

text \<open>A listing of \<open>peer.rs\<close> on the instance's cached scan.\<close>

definition on_peer_scan ::
  "(string \<Rightarrow> legacy_peer_scan \<Rightarrow> (cluster_error, 's world, 'a \<times> legacy_peer_scan) peff) \<Rightarrow> ('s, 'a) pbop" where
  "on_peer_scan list S = (case S of (I, w) \<Rightarrow>
     (case list (inner_prefix I) (peer_scan I) w of
        None \<Rightarrow> None
      | Some (Inl e, u) \<Rightarrow> Some (Inl e, (I, u))
      | Some (Inr (found, legacy), u) \<Rightarrow> Some (Inr found, (I\<lparr>peer_scan := legacy\<rparr>, u))))"

text \<open>\<open>list_peers\<close> of the backend shows no error: an unavailable backend has no peers.\<close>

definition backend_list_peers :: "'s redis \<Rightarrow> registration_json \<Rightarrow> ('s, cluster_peer list) pbop" where
  "backend_list_peers R J S =
     map_option (\<lambda>(r, T). (Inr (case r of Inl e \<Rightarrow> [] | Inr peers \<Rightarrow> peers), T))
       (pbind (pure (get_or_init_conn R)) (\<lambda>_. on_peer_scan (list_peers R J)) S)"

text \<open>One tick of the peer refresher.\<close>

definition refresh_turn :: "'s redis \<Rightarrow> registration_json \<Rightarrow> (int \<Rightarrow> string) \<Rightarrow> 's replica \<Rightarrow> 's replica" where
  "refresh_turn R J rfc3339 S =
     snd (cbind (get_or_init_conn R) (\<lambda>_. with_inner (\<lambda>I.
       on_world (register_peer R J rfc3339 (inner_prefix I) (inner_node_id I) (redact_redis_url (url (config I)))
         (peer_ttl_ms (config I)) []))) S)"

text \<open>\<open>BTreeMap\<close>'s \<open>collect\<close>: in the order of the keys, the last entry of a key wins.\<close>

definition btree :: "(string \<times> 'a) list \<Rightarrow> (string \<times> 'a) list" where
  "btree l = map (\<lambda>k. (k, the (map_of (rev l) k))) (sort (remdups (map fst l)))"

datatype peer_event = Joined cluster_peer | Left string

definition peer_diff :: "(string \<times> cluster_peer) list \<Rightarrow> (string \<times> cluster_peer) list \<Rightarrow> peer_event list" where
  "peer_diff prev cur =
     map (\<lambda>(k, p). Joined p) (filter (\<lambda>(k, p). k \<notin> fst ` set prev) cur) @
     map (\<lambda>(k, p). Left k) (filter (\<lambda>(k, p). k \<notin> fst ` set cur) prev)"

definition snapshot :: "cluster_peer list \<Rightarrow> (string \<times> cluster_peer) list" where
  "snapshot peers = btree (map (\<lambda>p. (peer_node_id p, p)) (filter (\<lambda>p. peer_node_id p \<noteq> []) peers))"

text \<open>
  One turn of the \<open>watch_peers\<close> task: \<open>room\<close> is how many more events the receiver takes before it goes
  away (\<^const>\<open>None\<close>: it stays). The result is what was sent and the next snapshot, none when the task
  ended.
\<close>

definition watch_turn ::
  "'s redis \<Rightarrow> registration_json \<Rightarrow> nat option \<Rightarrow> (string \<times> cluster_peer) list \<Rightarrow>
     ('s, peer_event list \<times> (string \<times> cluster_peer) list option) pbop" where
  "watch_turn R J room prev S =
     (if room = Some 0 then Some (Inr ([], None), S)
      else map_option (\<lambda>(r, T). (Inr (case r of
               Inl e \<Rightarrow> ([], Some prev)
             | Inr peers \<Rightarrow>
                 (let cur = snapshot peers; evs = peer_diff prev cur
                  in case room of None \<Rightarrow> (evs, Some cur)
                     | Some n \<Rightarrow> if length evs \<le> n then (evs, Some cur) else (take n evs, None))), T))
             (pbind (pure (get_or_init_conn R)) (\<lambda>_. on_peer_scan (list_peers R J)) S))"

definition watch_poll_ms :: "redis_backend_config \<Rightarrow> u64" where
  "watch_poll_ms cfg = max (effective_peer_refresh_interval_ms cfg) 500"

text \<open>The watcher's task at its start: no snapshot, its sleep between turns, and its channel's capacity.\<close>

record watcher =
  watch_last :: "(string \<times> cluster_peer) list"
  watch_sleep :: u64
  watch_buffer :: nat

definition watch_peers :: "inner \<Rightarrow> watcher" where
  "watch_peers I = \<lparr>watch_last = [], watch_sleep = watch_poll_ms (config I),
     watch_buffer = unat (subscribe_pattern_buffer (config I))\<rparr>"

subsection \<open>Streams over FFI\<close>

text \<open>
  The synchronous interface opens a stream and hands it to \<open>forward_cluster_stream\<close> of the plugin SDK,
  the parameter \<open>forward\<close>, which makes the handle the host gets.
\<close>

definition ffi_subscribe ::
  "(subscription \<times> subscriber \<Rightarrow> 'h) \<Rightarrow> 's redis \<Rightarrow> ('s \<Rightarrow> (string \<times> string) list) \<Rightarrow> string \<Rightarrow> string option \<Rightarrow>
     string option \<Rightarrow> ('s, 'h) bop" where
  "ffi_subscribe forward R published t queue_group rk =
     cbind (backend_subscribe R published t queue_group rk) (\<lambda>stream. ret (forward stream))"

definition ffi_watch_peers :: "(watcher \<Rightarrow> 'h) \<Rightarrow> ('s, 'h) bop" where
  "ffi_watch_peers forward = with_inner (\<lambda>I. ret (forward (watch_peers I)))"

lemma ffi_subscribe_outcome:
  "ffi_subscribe forward R published t queue_group rk S =
     map_prod (map_sum id forward) id (backend_subscribe R published t queue_group rk S)"
  by (simp add: ffi_subscribe_def cbind_def ret_def split: prod.split sum.split)

text \<open>Watching never fails, touches nothing, and its channel has room under a validated configuration.\<close>

lemma ffi_watch_peers_outcome:
  "ffi_watch_peers forward (I, w) = (Inr (forward (watch_peers I)), I, w)"
  "validate (config I) = Inr () \<Longrightarrow> 0 < watch_buffer (watch_peers I)"
  by (auto simp: ffi_watch_peers_def watch_peers_def with_inner_def ret_def validate_def unat_gt_0 split: if_splits)

subsection \<open>Upkeep on demand\<close>

definition sweep_state :: "'s redis \<Rightarrow> ('s, nat) pbop" where
  "sweep_state R = pbind (pure (require_redis_kv R)) (\<lambda>K. pon_world (sweep R K))"

definition unindexed_peer :: "registration list \<Rightarrow> bool" where
  "unindexed_peer regs \<longleftrightarrow> list_ex (\<lambda>(node, reg). \<not> reg_kv_index reg) regs"

definition complete_key_index :: "'s redis \<Rightarrow> registration_json \<Rightarrow> ('s, nat) pbop" where
  "complete_key_index R J =
     pbind (pure (require_redis_kv R)) (\<lambda>K.
     pbind (pure (get_or_init_conn R)) (\<lambda>_.
     pbind (pure (update_inner (\<lambda>I. I\<lparr>peer_scan := forget (peer_scan I)\<rparr>))) (\<lambda>_.
     pbind (on_peer_scan (list_registrations R J)) (\<lambda>regs.
       if unindexed_peer regs
       then pure (raise (Precondition ''a peer that does not write the key index is registered''))
       else preading (\<lambda>S. now_ms (snd S)) (\<lambda>started_at_ms.
         pbind (pon_world (backfill_index R K)) (\<lambda>indexed.
         pbind (pure (on_world (mark_index_complete R K (nat started_at_ms)))) (\<lambda>_.
         pure (cbind (update_inner (set_kv (set_index_ready K True))) (\<lambda>_. ret indexed)))))))))"

definition key_index_ready :: "'s redis \<Rightarrow> ('s, bool) bop" where
  "key_index_ready R = cbind (require_redis_kv R) (\<lambda>K. ret (index_ready K))"

subsection \<open>Shutdown\<close>

definition inner_shutdown :: "inner \<Rightarrow> inner" where
  "inner_shutdown I = I\<lparr>draining := True, peer_refresh_abort := False, kv_maintenance_abort := False\<rparr>"

text \<open>\<open>Drop for Inner\<close>; after a shutdown there is nothing left to abort.\<close>

definition drop_inner :: "inner \<Rightarrow> inner" where
  "drop_inner I = inner_shutdown I"

lemma drop_inner_again: "drop_inner (inner_shutdown I) = inner_shutdown I"
  by (simp add: drop_inner_def inner_shutdown_def)

definition shutdown :: "'s redis \<Rightarrow> 's replica \<Rightarrow> 's replica" where
  "shutdown R S = (case S of (I, w) \<Rightarrow>
     if conn_cell I \<and> peer_refresh_abort I
     then (inner_shutdown I, snd (deregister_peer R (inner_prefix I) (inner_node_id I) w))
     else (inner_shutdown I, w))"

subsection \<open>Identity and pacing\<close>

record cluster_node_info =
  info_node_id :: string
  info_address :: string
  info_version :: string
  info_started_at :: string
  info_roles :: "string list"

definition node_info :: "string \<Rightarrow> inner \<Rightarrow> cluster_node_info" where
  "node_info pkg_version I = \<lparr>info_node_id = inner_node_id I, info_address = redact_redis_url (url (config I)),
     info_version = pkg_version, info_started_at = started_at I, info_roles = []\<rparr>"

text \<open>
  The jitter of a retry sleep, in nanoseconds; \<open>subsec_nanos\<close> is what the wall clock shows. The
  arithmetic is that of u64, wrapping in a release build.
\<close>

definition jittered :: "u32 \<Rightarrow> nat \<Rightarrow> nat" where
  "jittered subsec_nanos base =
     (let base_ms = of_nat (base div 1000000) :: u64;
          span = base_ms * 2 div 5
      in if span = 0 then base
         else unat (base_ms - base_ms div 5 + ucast subsec_nanos mod (span + 1)) * 1000000)"

text \<open>A sleep stays within a fifth of its base, for every base that fits i64 milliseconds.\<close>

lemma jittered_bounds:
  assumes "base div 1000000 < 2 ^ 62"
  defines "ms \<equiv> base div 1000000"
  shows "(ms - ms div 5) * 1000000 \<le> jittered n base"
    and "jittered n base \<le> max base ((ms - ms div 5 + ms * 2 div 5) * 1000000)"
proof -
  have ms: "ms < 2 ^ 62" using assms by simp
  define b where "b = (of_nat ms :: u64)"
  have b: "unat b = ms" using ms by (simp add: b_def unat_of_nat)
  have two: "unat (b * 2) = ms * 2" using ms b by (simp add: unat_mult_lem [THEN iffD1])
  have span: "unat (b * 2 div 5) = ms * 2 div 5" by (simp add: unat_div two)
  have low: "unat (b - b div 5) = ms - ms div 5" by (simp add: unat_sub div_le_dividend word_le_nat_alt unat_div b)
  let ?r = "ucast n mod (b * 2 div 5 + 1) :: u64"
  have "ms * 2 div 5 \<le> ms * 2" by (rule div_le_dividend)
  then have small: "ms * 2 div 5 < 2 ^ 63" by (rule le_less_trans) (use ms in simp)
  have suc: "unat (b * 2 div 5 + 1) = ms * 2 div 5 + 1"
    using span small unat_add_lem [of "b * 2 div 5" 1] by simp
  have "?r < b * 2 div 5 + 1" using suc by (intro word_mod_less_divisor) (simp add: word_less_nat_alt)
  then have r: "unat ?r \<le> ms * 2 div 5" using suc by (simp add: word_less_nat_alt)
  have sum: "unat (b - b div 5 + ?r) = ms - ms div 5 + unat ?r"
  proof -
    have "ms - ms div 5 + unat ?r < 2 ^ 62 + 2 ^ 63"
      by (rule add_strict_mono [OF le_less_trans [OF diff_le_self ms] le_less_trans [OF r small]])
    then have "unat (b - b div 5) + unat ?r < 2 ^ LENGTH(64)" unfolding low by (rule less_trans) simp
    then show ?thesis using unat_add_lem [of "b - b div 5" ?r] low by simp
  qed
  have j: "jittered n base = (if b * 2 div 5 = 0 then base else unat (b - b div 5 + ?r) * 1000000)"
    by (simp add: jittered_def Let_def flip: ms_def b_def)
  have "(ms - ms div 5) * 1000000 \<le> ms * 1000000" by (rule mult_le_mono1) simp
  also have "ms * 1000000 \<le> base" unfolding ms_def by (rule div_times_less_eq_dividend)
  finally show "(ms - ms div 5) * 1000000 \<le> jittered n base" 
    unfolding j sum by (simp add: diff_le_mono)
  have "(ms - ms div 5 + unat ?r) * 1000000 \<le> (ms - ms div 5 + ms * 2 div 5) * 1000000"
    using r by (intro mult_le_mono1 add_left_mono)
  then show "jittered n base \<le> max base ((ms - ms div 5 + ms * 2 div 5) * 1000000)"
    unfolding j sum by (auto simp only: if_splits max.coboundedI1 max.coboundedI2 split: if_split)
qed

end
