(* ===== verification/Maintenance.thy ===== *)
theory Maintenance
  imports Backend
begin

section \<open>The maintenance task\<close>

text \<open>
  \<open>maintenance.rs\<close>: one tick of the task that gates the key index, holds the sweep lock, sweeps and
  completes the index. The task's own state is the lease it holds and when it last saw a peer that
  writes no index. That lease is a cell shared with the task that renews it (an \<open>Arc\<close>): \<open>held_lease\<close> is
  its contents, changed by the ticks here and between them by that task's turns (\<open>renewal_turn\<close>, see
  \<open>upkeep\<close>). A tick that does not return is \<^const>\<open>None\<close>; the log lines are left out.
\<close>

record maintenance =
  held_lease :: "lease_state option"
  unindexed_seen :: "nat option"

definition maintenance_start :: maintenance where
  "maintenance_start = \<lparr>held_lease = None, unindexed_seen = None\<rparr>"

definition SWEEP_LOCK :: string where
  "SWEEP_LOCK = ''mcpg-kv-sweep''"

definition IDLE_INTERVAL_MS :: u64 where
  "IDLE_INTERVAL_MS = 30000"

definition sweeps :: "redis_backend_config \<Rightarrow> bool" where
  "sweeps cfg \<longleftrightarrow> 0 < kv_sweep_interval_ms cfg"

text \<open>The tick interval, in nanoseconds.\<close>

definition tick_interval :: "redis_backend_config \<Rightarrow> nat" where
  "tick_interval cfg = unat (if sweeps cfg then kv_sweep_interval_ms cfg else IDLE_INTERVAL_MS) * 1000000"

definition gate_index :: "'s redis \<Rightarrow> redis_kv \<Rightarrow> bool \<Rightarrow> 's replica \<Rightarrow> 's replica" where
  "gate_index R K unindexed S = (case S of (I, w) \<Rightarrow>
     if unindexed
     then case invalidate_index R K of (K', del) \<Rightarrow> (set_kv K' I, snd (del w))
     else case index_complete R K w of
            (Inr ready, u) \<Rightarrow> (set_kv (set_index_ready K ready) I, u)
          | (Inl e, u) \<Rightarrow> (I, u))"

text \<open>Keeping or taking the sweep lock; whether the task holds it now.\<close>

definition keep_lock ::
  "'s redis \<Rightarrow> (int \<Rightarrow> string) \<Rightarrow> maintenance \<times> 's replica \<Rightarrow> bool \<times> maintenance \<times> 's replica" where
  "keep_lock R rfc3339 MS =
     (case MS of (M, I, w) \<Rightarrow>
      (case (case held_lease M of
               None \<Rightarrow> (None, w)
             | Some st \<Rightarrow> (case renew_state R rfc3339 st w of
                   (Inl e, st', u) \<Rightarrow> (None, u)
                 | (Inr x, st', u) \<Rightarrow> (Some st', u))) of
         (Some st, u) \<Rightarrow> (True, M\<lparr>held_lease := Some st\<rparr>, I, u)
       | (None, u) \<Rightarrow>
           (case lease_keys (inner_prefix I) ''locks'' SWEEP_LOCK of (lk, fk) \<Rightarrow>
            (case try_acquire_async R rfc3339 SWEEP_LOCK lk fk (inner_node_id I)
                    (min (tick_interval (config I) * 2) duration_max) u of
               (Inr (Some st), x) \<Rightarrow> (True, M\<lparr>held_lease := Some st\<rparr>, I, x)
             | (_, x) \<Rightarrow> (False, M\<lparr>held_lease := None\<rparr>, I, x)))))"

definition complete_index :: "'s redis \<Rightarrow> registration_json \<Rightarrow> redis_kv \<Rightarrow> 's replica \<Rightarrow> 's replica option" where
  "complete_index R J K S = (case S of (I, w) \<Rightarrow>
     (let started_at_ms = now_ms w in
      case backfill_index R K w of
        None \<Rightarrow> None
      | Some (Inl e, u) \<Rightarrow> Some (I, u)
      | Some (Inr indexed, u) \<Rightarrow>
          (case on_peer_scan (list_registrations R J) (I\<lparr>peer_scan := forget (peer_scan I)\<rparr>, u) of
             None \<Rightarrow> None
           | Some (Inl e, T) \<Rightarrow> Some T
           | Some (Inr regs, (I', x)) \<Rightarrow>
               if unindexed_peer regs then Some (I', x)
               else case mark_index_complete R K (nat started_at_ms) x of
                      (Inl e, y) \<Rightarrow> Some (I', y)
                    | (Inr _, y) \<Rightarrow> Some (set_kv (set_index_ready K True) I', y))))"

text \<open>The store's handle; its readiness flag is shared by all tasks of the instance.\<close>

definition ready_now :: "inner \<Rightarrow> bool" where
  "ready_now I = (case key_value_store I of Some K \<Rightarrow> index_ready K | None \<Rightarrow> False)"

text \<open>The last part of a tick, with the lock held: sweep, then complete the index when it is due.\<close>

definition tick_work ::
  "'s redis \<Rightarrow> registration_json \<Rightarrow> redis_kv \<Rightarrow> bool \<Rightarrow> maintenance \<Rightarrow> 's replica \<Rightarrow> (maintenance \<times> 's replica) option" where
  "tick_work R J K unindexed M S = (case S of (I, w) \<Rightarrow>
     (case (if sweeps (config I) then map_option snd (sweep R K w) else Some w) of
        None \<Rightarrow> None
      | Some u \<Rightarrow>
          (let settled = (case unindexed_seen M of None \<Rightarrow> True
                 | Some seen \<Rightarrow> unat (peer_ttl_ms (config I)) * 1000000 \<le> mono u - seen)
           in if \<not> unindexed \<and> settled \<and> \<not> ready_now I
              then map_option (\<lambda>T. (M, T)) (complete_index R J K (I, u))
              else Some (M, I, u))))"

definition maintenance_tick ::
  "'s redis \<Rightarrow> registration_json \<Rightarrow> (int \<Rightarrow> string) \<Rightarrow> maintenance \<times> 's replica \<Rightarrow> (maintenance \<times> 's replica) option" where
  "maintenance_tick R J rfc3339 MS =
     (case MS of (M, S) \<Rightarrow>
      (case get_or_init_conn R S of
         (Inl e, T) \<Rightarrow> Some (M, T)
       | (Inr _, T) \<Rightarrow>
           (case key_value_store (fst T) of
              None \<Rightarrow> Some (M, T)
            | Some K \<Rightarrow>
                (case on_peer_scan (list_registrations R J) T of
                   None \<Rightarrow> None
                 | Some (Inl e, U) \<Rightarrow> Some (M, U)
                 | Some (Inr regs, U) \<Rightarrow>
                     (let unindexed = unindexed_peer regs;
                          M1 = (if unindexed then M\<lparr>unindexed_seen := Some (mono (snd U))\<rparr> else M)
                      in case keep_lock R rfc3339 (M1, gate_index R K unindexed U) of
                           (False, M2, V) \<Rightarrow> Some (M2, V)
                         | (True, M2, V) \<Rightarrow> tick_work R J K unindexed M2 V)))))"

end
