(* ===== verification/Instance.thy ===== *)
theory Instance
  imports Maintenance
begin

section \<open>The life of an instance\<close>

text \<open>
  The invariant of an instance (\<open>inner_wf\<close>): its configuration is valid, its primitives exist only once
  connected and carry the names of its prefix, and a draining instance runs no task. Every method keeps
  it; the rules below lift it through the composition of the methods.
\<close>

definition inner_wf :: "inner \<Rightarrow> bool" where
  "inner_wf I \<longleftrightarrow> validate (config I) = Inr () \<and>
     (case primitives I of None \<Rightarrow> True
      | Some P \<Rightarrow> conn_cell I \<and> bus_prefix P = inner_prefix I \<and>
          (\<exists>b. kv_of P = set_index_ready (with_connection_manager (inner_prefix I)) b)) \<and>
     (draining I \<longrightarrow> \<not> peer_refresh_abort I \<and> \<not> kv_maintenance_abort I)"

text \<open>The store's names, whatever its readiness flag says.\<close>

definition kv_names :: "redis_backend_config \<Rightarrow> redis_kv \<Rightarrow> bool" where
  "kv_names cfg K \<longleftrightarrow> (\<exists>b. K = set_index_ready (with_connection_manager (cfg_key_prefix cfg)) b)"

abbreviation inst :: "redis_backend_config \<Rightarrow> 's replica \<Rightarrow> bool" where
  "inst cfg S \<equiv> inner_wf (fst S) \<and> config (fst S) = cfg"

lemma inner_config [simp]:
  "config (populate I) = config I" "config (set_kv K I) = config I" "config (inner_shutdown I) = config I"
  by (simp_all add: populate_def set_kv_def inner_shutdown_def split: option.splits)

lemma inner_wf_populate [simp]: "inner_wf I \<Longrightarrow> conn_cell I \<Longrightarrow> inner_wf (populate I)"
  by (auto simp: inner_wf_def populate_def set_index_ready_def with_connection_manager_def split: option.splits)

lemma inner_wf_conn [simp]: "inner_wf I \<Longrightarrow> inner_wf (I\<lparr>conn_cell := True\<rparr>)"
  by (auto simp: inner_wf_def split: option.splits)

lemma inner_wf_scan [simp]: "inner_wf (I\<lparr>peer_scan := s\<rparr>) = inner_wf I"
  by (simp add: inner_wf_def split: option.splits)

lemma inner_wf_shutdown [simp]: "inner_wf I \<Longrightarrow> inner_wf (inner_shutdown I)"
  by (auto simp: inner_wf_def inner_shutdown_def split: option.splits)

lemma keys_apart_ready: "keys_apart (set_index_ready K b) = keys_apart K"
  by (simp add: keys_apart_def set_index_ready_def data_key_def full_key_def)

lemma kv_names_mark: "kv_names cfg K \<Longrightarrow> kv_names cfg (set_index_ready K b)"
  by (auto simp: kv_names_def set_index_ready_def with_connection_manager_def)

lemma inner_wf_set_kv: "inner_wf I \<Longrightarrow> kv_names (config I) K \<Longrightarrow> inner_wf (set_kv K I)"
  by (auto simp: inner_wf_def set_kv_def kv_names_def split: option.splits)

lemma kv_names_store: "inner_wf I \<Longrightarrow> key_value_store I = Some K \<Longrightarrow> kv_names (config I) K"
  by (auto simp: inner_wf_def key_value_store_def kv_names_def split: option.splits)

subsection \<open>Rules for the combinators\<close>

lemma keeps_on_world [keeps_intros]: "keeps (inst cfg) (on_world m)"
  by (auto simp: keeps_def on_world_def split: prod.splits)

lemma pkeeps_pon_world [keeps_intros]: "pkeeps (inst cfg) (pon_world p)"
  by (auto simp: pkeeps_def pon_world_def split: prod.splits)

lemma keeps_with_inner [keeps_intros]: "(\<And>I. keeps P (f I)) \<Longrightarrow> keeps P (with_inner f)"
  by (simp add: keeps_def with_inner_def)

lemma pkeeps_with_inner [keeps_intros]: "(\<And>I. pkeeps P (f I)) \<Longrightarrow> pkeeps P (pwith_inner f)"
  by (auto simp: pkeeps_def pwith_inner_def)

lemma keeps_case_option [keeps_intros]:
  "keeps P m \<Longrightarrow> (\<And>x. keeps P (f x)) \<Longrightarrow> keeps P (case r of None \<Rightarrow> m | Some x \<Rightarrow> f x)"
  by (cases r) simp_all

lemma pkeeps_if [keeps_intros]: "pkeeps P p \<Longrightarrow> pkeeps P q \<Longrightarrow> pkeeps P (if b then p else q)"
  by simp

lemma pkeeps_preading [keeps_intros]: "(\<And>x. pkeeps P (p x)) \<Longrightarrow> pkeeps P (preading f p)"
  unfolding pkeeps_def preading_def by blast

lemma pkeeps_after:
  "yields P m Q \<Longrightarrow> (\<And>x. Q x \<Longrightarrow> pkeeps P (f x)) \<Longrightarrow> pkeeps P (pbind (pure m) f)"
  by (fastforce simp: pkeeps_def yields_def pbind_def pure_def split: prod.splits sum.splits)

lemma keeps_conn [keeps_intros]: "keeps (inst cfg) (get_or_init_conn R)"
  by (auto simp: keeps_def get_or_init_conn_def split: prod.splits sum.splits)

lemma pkeeps_peer_scan [keeps_intros]: "pkeeps (inst cfg) (on_peer_scan list)"
  by (auto simp: pkeeps_def on_peer_scan_def split: option.splits prod.splits sum.splits)

lemma keeps_forget [keeps_intros]: "keeps (inst cfg) (update_inner (\<lambda>I. I\<lparr>peer_scan := forget (peer_scan I)\<rparr>))"
  by (simp add: keeps_def update_inner_def)

lemma keeps_set_kv: "kv_names cfg K \<Longrightarrow> keeps (inst cfg) (update_inner (set_kv K))"
  by (auto simp: keeps_def update_inner_def intro: inner_wf_set_kv)

lemma require_yields: "yields (inst cfg) (require_kv R) (kv_names cfg)"
proof -
  have "keeps (inst cfg) (require_kv R)" unfolding require_kv_def by (intro keeps_intros)
  moreover have "kv_names cfg K" if "inst cfg S" "fst (require_kv R S) = Inr K" for S K
  proof -
    obtain r T where c: "get_or_init_conn R S = (r, T)" by (metis prod.exhaust)
    have "inst cfg T" using keepsD [OF keeps_conn [of cfg R] that(1)] c by simp
    with that(2) c kv_names_store [of "fst T" K] show ?thesis
      by (auto simp: require_kv_def cbind_def with_inner_def ret_def raise_def split: option.splits sum.splits)
  qed
  ultimately show ?thesis by (simp add: yields_def keeps_def)
qed

lemma conn_up:
  assumes "get_or_init_conn R (I, w) = (r, (J, u))"
  shows "config J = config I" and "inner_node_id J = inner_node_id I" and "server u = server w" and "env u = env w"
    and "r = Inr () \<Longrightarrow> \<exists>K. key_value_store J = Some K"
  using assms
  by (auto simp: get_or_init_conn_def round_trip_def ret_def Let_def key_value_store_def populate_def
      split: if_splits list.splits link.splits option.splits sum.splits prod.splits)

subsection \<open>Every method keeps it\<close>

lemma kv_methods_keep:
  "keeps (inst cfg) (ffi_kv_get R key)" "keeps (inst cfg) (ffi_kv_put R key x ttl)"
  "keeps (inst cfg) (ffi_kv_put_if_absent R key x ttl)" "keeps (inst cfg) (ffi_kv_delete R key)"
  "keeps (inst cfg) (ffi_kv_expire R key ttl)" "keeps (inst cfg) (ffi_kv_incr R key delta ttl)"
  "keeps (inst cfg) (ffi_kv_incr_floor R key delta floor ttl)"
  unfolding ffi_kv_get_def ffi_kv_put_def ffi_kv_put_if_absent_def ffi_kv_delete_def ffi_kv_expire_def
    ffi_kv_incr_def ffi_kv_incr_floor_def
  by (intro keeps_intros yields_keeps [OF require_yields])+

lemma complete_key_index_keeps: "pkeeps (inst cfg) (complete_key_index R J)"
  unfolding complete_key_index_def require_redis_kv_eq
  by (rule pkeeps_after [OF require_yields]) (intro keeps_intros keeps_set_kv kv_names_mark)

lemma gate_index_keeps: "inst cfg S \<Longrightarrow> kv_names cfg K \<Longrightarrow> inst cfg (gate_index R K b S)"
  by (auto simp: gate_index_def invalidate_index_def split: prod.splits sum.splits
      intro!: inner_wf_set_kv kv_names_mark)

lemma keep_lock_inner: "keep_lock R rfc3339 (M, I, w) = (b, M', T) \<Longrightarrow> fst T = I"
  by (auto simp: keep_lock_def Let_def split: option.splits prod.splits sum.splits)

lemma complete_index_keeps:
  assumes "inst cfg S" and "kv_names cfg K" and "complete_index R J K S = Some T"
  shows "inst cfg T"
proof -
  obtain I w where S: "S = (I, w)" by (cases S)
  from assms(3) consider "fst T = I" | u r U where
    "on_peer_scan (list_registrations R J) (I\<lparr>peer_scan := forget (peer_scan I)\<rparr>, u) = Some (r, U)"
    "fst T = fst U \<or> fst T = set_kv (set_index_ready K True) (fst U)"
    by (fastforce simp: S complete_index_def Let_def split: option.splits prod.splits sum.splits if_splits)
  then show ?thesis
  proof cases
    case 1
    with assms(1) S show ?thesis by simp
  next
    case 2
    have "inst cfg U" using pkeepsD [OF pkeeps_peer_scan _ 2(1), of cfg] assms(1) S by simp
    with 2(2) assms(2) show ?thesis by (auto intro!: inner_wf_set_kv kv_names_mark)
  qed
qed

lemma tick_work_keeps:
  assumes "inst cfg S" and "kv_names cfg K" and "tick_work R J K b M S = Some (M', T)"
  shows "inst cfg T"
  using assms complete_index_keeps [OF _ assms(2), of "(fst S, _)" R J T]
  by (auto simp: tick_work_def Let_def split: option.splits prod.splits if_splits)

lemma maintenance_keeps:
  assumes "inst cfg S" and "maintenance_tick R J rfc3339 (M, S) = Some (M', T)"
  shows "inst cfg T"
proof -
  obtain r U where c: "get_or_init_conn R S = (r, U)" by (metis prod.exhaust)
  have U: "inst cfg U" using keepsD [OF keeps_conn [of cfg R] assms(1)] c by simp
  show ?thesis
  proof (cases "\<exists>K q regs V. r = Inr () \<and> key_value_store (fst U) = Some K \<and>
      on_peer_scan (list_registrations R J) U = Some (Inr regs, V)")
    case True
    then obtain K regs V where t: "r = Inr ()" "key_value_store (fst U) = Some K"
      "on_peer_scan (list_registrations R J) U = Some (Inr regs, V)" by blast
    have K: "kv_names cfg K" using kv_names_store U t(2) by blast
    have V: "inst cfg V" using pkeepsD [OF pkeeps_peer_scan U t(3)] .
    let ?u = "unindexed_peer regs"
    let ?G = "gate_index R K ?u V" and ?M = "if ?u then M\<lparr>unindexed_seen := Some (mono (snd V))\<rparr> else M"
    obtain b M2 W where l: "keep_lock R rfc3339 (?M, ?G) = (b, M2, W)" by (metis prod.exhaust)
    have "inst cfg ?G" by (rule gate_index_keeps [OF V K])
    moreover have "fst W = fst ?G" using keep_lock_inner [of R rfc3339 ?M "fst ?G" "snd ?G"] l by simp
    ultimately have W: "inst cfg W" by simp
    have "b \<Longrightarrow> tick_work R J K ?u M2 W = Some (M', T)" "\<not> b \<Longrightarrow> T = W"
      using assms(2) c t l by (auto simp: maintenance_tick_def Let_def split: if_splits)
    with W tick_work_keeps [OF W K] show ?thesis by (cases b) auto
  next
    case False
    have "inst cfg V" if "on_peer_scan (list_registrations R J) U = Some (q, V)" for q V
      using pkeepsD [OF pkeeps_peer_scan U that] .
    with False U assms(2) c show ?thesis
      by (auto simp: maintenance_tick_def split: sum.splits option.splits prod.splits)
  qed
qed

lemma other_methods_keep:
  "keeps (inst cfg) (try_acquire_named R rfc3339 kind name key ttl)"
  "keeps (inst cfg) (sync_try_acquire_named R rfc3339 kind name key ms)"
  "keeps (inst cfg) (backend_publish R t rk body)"
  "keeps (inst cfg) (key_index_ready R)"
  "keeps (inst cfg) (backend_subscribe R published t g rk)"
  "pkeeps (inst cfg) (acquire_named R rfc3339 kind name key ttl)"
  "pkeeps (inst cfg) (sync_acquire_named R rfc3339 kind name key ms)"
  "pkeeps (inst cfg) (ffi_kv_list_page R C pfx cursor limit)"
  "pkeeps (inst cfg) (sweep_state R)"
  unfolding try_acquire_named_def sync_try_acquire_named_def backend_publish_def key_index_ready_def backend_subscribe_def
    require_redis_kv_eq
    acquire_named_def sync_acquire_named_def ffi_kv_list_page_def sweep_state_def lease_keys_def prod.case
  by (intro keeps_intros yields_keeps [OF require_yields])+

lemma peer_polls_keep:
  "pkeeps (inst cfg) (pbind (pure (get_or_init_conn R)) (\<lambda>_. on_peer_scan (list_peers R J)))"
  by (intro keeps_intros)

lemma peer_methods_keep:
  "inst cfg S \<Longrightarrow> backend_list_peers R J S = Some (q, T) \<Longrightarrow> inst cfg T"
  "inst cfg S \<Longrightarrow> watch_turn R J room prev S = Some (p, T) \<Longrightarrow> inst cfg T"
  "inst cfg S \<Longrightarrow> inst cfg (refresh_turn R J rfc3339 S)"
proof -
  show "inst cfg S \<Longrightarrow> backend_list_peers R J S = Some (q, T) \<Longrightarrow> inst cfg T"
    using pkeepsD [OF peer_polls_keep [of cfg R J], of S _ T] by (auto simp: backend_list_peers_def split: prod.splits)
  show "inst cfg S \<Longrightarrow> watch_turn R J room prev S = Some (p, T) \<Longrightarrow> inst cfg T"
    using pkeepsD [OF peer_polls_keep [of cfg R J], of S _ T] by (auto simp: watch_turn_def split: if_splits prod.splits)
  have "keeps (inst cfg) (cbind (get_or_init_conn R) (\<lambda>_. with_inner (\<lambda>I.
       on_world (register_peer R J rfc3339 (inner_prefix I) (inner_node_id I) (redact_redis_url (url (config I)))
         (peer_ttl_ms (config I)) []))))"
    by (intro keeps_intros)
  then show "inst cfg S \<Longrightarrow> inst cfg (refresh_turn R J rfc3339 S)"
    unfolding refresh_turn_def by (rule keepsD)
qed

lemma shutdown_keeps: "inst cfg S \<Longrightarrow> inst cfg (shutdown R S)"
  by (auto simp: shutdown_def split: prod.splits)

subsection \<open>Reachable instances\<close>

text \<open>
  What can happen to an instance: the host's calls, its two tasks, a watcher's poll, shutdown, and
  anything in the world around it. \<open>J\<close> reads registrations, \<open>C\<close> list cursors.
\<close>

inductive method_step ::
  "'s redis \<Rightarrow> registration_json \<Rightarrow> cursor_json \<Rightarrow> (int \<Rightarrow> string) \<Rightarrow> 's replica \<Rightarrow> 's replica \<Rightarrow> bool"
  for R J C rfc3339 S where
  kv_get: "method_step R J C rfc3339 S (snd (ffi_kv_get R key S))"
| kv_put: "method_step R J C rfc3339 S (snd (ffi_kv_put R key x ttl S))"
| kv_put_if_absent: "method_step R J C rfc3339 S (snd (ffi_kv_put_if_absent R key x ttl S))"
| kv_delete: "method_step R J C rfc3339 S (snd (ffi_kv_delete R key S))"
| kv_expire: "method_step R J C rfc3339 S (snd (ffi_kv_expire R key ttl S))"
| kv_incr: "method_step R J C rfc3339 S (snd (ffi_kv_incr R key delta ttl S))"
| kv_incr_floor: "method_step R J C rfc3339 S (snd (ffi_kv_incr_floor R key delta floor ttl S))"
| kv_list_page: "ffi_kv_list_page R C pfx cursor limit S = Some (r, T) \<Longrightarrow> method_step R J C rfc3339 S T"
| sweep: "sweep_state R S = Some (r, T) \<Longrightarrow> method_step R J C rfc3339 S T"
| complete: "complete_key_index R J S = Some (r, T) \<Longrightarrow> method_step R J C rfc3339 S T"
| try_acquire: "method_step R J C rfc3339 S (snd (try_acquire_named R rfc3339 kind name key ns S))"
| acquire: "acquire_named R rfc3339 kind name key ns S = Some (r, T) \<Longrightarrow> method_step R J C rfc3339 S T"
| publish: "method_step R J C rfc3339 S (snd (backend_publish R t rk body S))"
| sync_try_acquire: "method_step R J C rfc3339 S (snd (sync_try_acquire_named R rfc3339 kind name key ms S))"
| sync_acquire: "sync_acquire_named R rfc3339 kind name key ms S = Some (r, T) \<Longrightarrow> method_step R J C rfc3339 S T"
| subscribe: "method_step R J C rfc3339 S (snd (backend_subscribe R published t g rk S))"
| ready: "method_step R J C rfc3339 S (snd (key_index_ready R S))"
| peers: "backend_list_peers R J S = Some (q, T) \<Longrightarrow> method_step R J C rfc3339 S T"
| watch: "watch_turn R J room prev S = Some (p, T) \<Longrightarrow> method_step R J C rfc3339 S T"
| refresh: "method_step R J C rfc3339 S (refresh_turn R J rfc3339 S)"
| maintain: "maintenance_tick R J rfc3339 (M, S) = Some (M', T) \<Longrightarrow> method_step R J C rfc3339 S T"
| stop: "method_step R J C rfc3339 S (shutdown R S)"
| around: "method_step R J C rfc3339 S (fst S, u)"

lemmas inst_rules = kv_methods_keep [THEN keepsD] other_methods_keep(1-5) [THEN keepsD]
  other_methods_keep(6-9) [THEN pkeepsD] complete_key_index_keeps [THEN pkeepsD]
  peer_methods_keep maintenance_keeps shutdown_keeps

lemma step_inst: "method_step R J C rfc3339 S T \<Longrightarrow> inst cfg S \<Longrightarrow> inst cfg T"
proof (induction rule: method_step.induct)
  case (around u)
  then show ?case by simp
qed (rule inst_rules; assumption)+

lemma steps_inst: "(method_step R J C rfc3339)\<^sup>*\<^sup>* S T \<Longrightarrow> inst cfg S \<Longrightarrow> inst cfg T"
proof (induction rule: rtranclp_induct)
  case (step T U)
  then show ?case using step_inst by blast
qed

lemma new_inner_wf: "validate cfg = Inr () \<Longrightarrow> inner_wf (new_inner H now cfg)"
  by (simp add: inner_wf_def new_inner_def)

lemma constructed_inst:
  assumes "from_config_json R L H s w = Inr S"
  obtains cfg where "validate cfg = Inr ()" and "inst cfg S"
proof -
  obtain cfg where v: "validate cfg = Inr ()" and c: "from_validated_config R L H cfg w = Inr S"
    using assms by (auto simp: from_config_json_def parse_def split: if_splits sum.splits)
  obtain r I u where i: "get_or_init_conn R (new_inner H (wall w) cfg, w) = (r, (I, u))" by (metis prod.exhaust)
  have "inst cfg (I, u)"
    using keepsD [OF keeps_conn [of cfg R], of "(new_inner H (wall w) cfg, w)"] i new_inner_wf [OF v]
    by (simp add: new_inner_def)
  moreover have "\<not> draining I"
    using i by (auto simp: get_or_init_conn_def populate_def new_inner_def split: if_splits option.splits sum.splits prod.splits)
  moreover have "S = (I\<lparr>peer_refresh_abort := True, kv_maintenance_abort := True\<rparr>, u)"
    using c i by (auto simp: from_validated_config_def Let_def split: sum.splits option.splits)
  ultimately have "inst cfg S" by (auto simp: inner_wf_def split: option.splits)
  with v show thesis by (rule that)
qed

subsection \<open>Properties\<close>

text \<open>
  C38. Every reachable instance is well-formed: an instance the host could load, after any sequence of
  calls, ticks of its tasks, failures and shutdowns, has the valid configuration it was loaded with; its
  store, once there is one, carries that configuration's names and keeps its own keys apart from the
  data; and a draining instance runs no task.
\<close>

theorem instance_reachable_wf:
  assumes "from_config_json R L H s w = Inr S" and "(method_step R J C rfc3339)\<^sup>*\<^sup>* S T"
  shows "config (fst T) = config (fst S) \<and> validate (config (fst T)) = Inr () \<and>
    (\<forall>K. key_value_store (fst T) = Some K \<longrightarrow>
       conn_cell (fst T) \<and> key_prefix K = inner_prefix (fst T) \<and> keys_apart K) \<and>
    (draining (fst T) \<longrightarrow> \<not> peer_refresh_abort (fst T) \<and> \<not> kv_maintenance_abort (fst T))"
proof -
  obtain cfg where S: "inst cfg S" using constructed_inst [OF assms(1)] .
  then have T: "inst cfg T" by (rule steps_inst [OF assms(2)])
  have "cfg_key_prefix cfg \<noteq> []" using T by (auto simp: inner_wf_def validate_def split: if_splits)
  then have "keys_apart (set_index_ready (with_connection_manager (cfg_key_prefix cfg)) b)" for b
    by (simp add: keys_apart_ready keys_apart_prefix)
  with S T show ?thesis
    by (auto simp: inner_wf_def key_value_store_def set_index_ready_def with_connection_manager_def split: option.splits)
qed

text \<open>A host and a client library for a concrete run: every configuration is the default one.\<close>

definition any_client :: "unit client_library" where
  "any_client = \<lparr>into_connection_info = \<lambda>u. Inr (), set_username = \<lambda>_ i. i, set_password = \<lambda>_ i. i,
     build_with_tls = \<lambda>_ _. Inr (), open_client = \<lambda>_. Inr ()\<rparr>"

definition default_host :: host where
  "default_host = \<lparr>is_manifest_probe_config = \<lambda>s. False, config_from_json = \<lambda>s. Inr (default_config ''redis://h''),
     debug_config_error = \<lambda>e. [], read_file = \<lambda>f. Inl ''no files'',
     hostname = Some ''h'', hash_finish = \<lambda>l. 0, now_ns = 0, suffix_seq = 0, rfc3339_secs = \<lambda>t. ''t''\<rparr>"

lemma default_loads:
  "\<exists>S. from_config_json ref_ops any_client default_host ''{}'' (ref_world 1000 s) = Inr S \<and>
     config (fst S) = default_config ''redis://h'' \<and>
     key_value_store (fst S) = Some (with_connection_manager default_key_prefix) \<and> server (snd S) = s \<and>
     peer_refresh_abort (fst S)"
proof -
  have "\<not> blank ''redis://h''" "\<not> blank default_service_name"
    by (auto simp: default_service_name_def byte_in_def intro!: not_blank_ascii)
  then have v: "validate (default_config ''redis://h'') = Inr ()"
    by (simp add: validate_def default_config_def default_key_prefix_def default_lease_ttl_ms_def default_peer_ttl_ms_def
        default_subscribe_pattern_buffer_def)
  show ?thesis
    by (simp add: from_config_json_def parse_def v any_client_def default_host_def from_validated_config_def Let_def
        tls_root_cert_pem_def new_inner_def get_or_init_conn_def round_trip_def ret_def populate_def
        key_value_store_def split: option.splits) (simp add: default_config_def)
qed

theorem instance_reachable_wf_witness:
  "\<exists>S. from_config_json ref_ops any_client default_host ''{}'' (ref_world 1000 ref_empty) = Inr S \<and>
     draining (fst (shutdown ref_ops S)) \<and> \<not> kv_maintenance_abort (fst (shutdown ref_ops S)) \<and>
     keys_apart (with_connection_manager default_key_prefix)"
proof -
  obtain S where S: "from_config_json ref_ops any_client default_host ''{}'' (ref_world 1000 ref_empty) = Inr S"
    "key_value_store (fst S) = Some (with_connection_manager default_key_prefix)"
    using default_loads [of ref_empty] by blast
  let ?T = "shutdown ref_ops S"
  have "(method_step ref_ops one_json C rfc3339)\<^sup>*\<^sup>* S ?T" for C rfc3339 by (blast intro: method_step.stop)
  note T = instance_reachable_wf [OF S(1) this]
  have "draining (fst ?T)" "key_value_store (fst ?T) = Some (with_connection_manager default_key_prefix)"
    using S(2) by (auto simp: shutdown_def inner_shutdown_def key_value_store_def split: prod.splits)
  with T S(1) show ?thesis by blast
qed

end
