(* ===== verification/Watch.thy ===== *)
theory Watch
  imports Instance
begin

section \<open>The events of a watcher\<close>

text \<open>
  \<open>watch_peers\<close> polls the peer list and sends the differences of successive snapshots. The reference
  is the receiver that takes every event at its word: \<open>replay\<close> is the set of nodes it believes in, none
  if an event contradicts it (a node joins twice, or leaves without having joined).
\<close>

fun watch_run ::
  "'s redis \<Rightarrow> registration_json \<Rightarrow> (string \<times> cluster_peer) list \<Rightarrow> 's replica list \<Rightarrow>
     (peer_event list \<times> (string \<times> cluster_peer) list) option" where
  "watch_run R J prev [] = Some ([], prev)"
| "watch_run R J prev (S # Ss) =
     (case watch_turn R J None prev S of
        Some (Inr (evs, Some cur), T) \<Rightarrow>
          map_option (\<lambda>(more, cur'). (evs @ more, cur')) (watch_run R J cur Ss)
      | _ \<Rightarrow> None)"

fun take_event :: "string set \<Rightarrow> peer_event \<Rightarrow> string set option" where
  "take_event V (Joined p) = (if peer_node_id p \<in> V then None else Some (insert (peer_node_id p) V))"
| "take_event V (Left k) = (if k \<in> V then Some (V - {k}) else None)"

fun replay :: "string set \<Rightarrow> peer_event list \<Rightarrow> string set option" where
  "replay V [] = Some V"
| "replay V (e # es) = Option.bind (take_event V e) (\<lambda>W. replay W es)"

text \<open>What a poll answers, and the nodes of the last answer.\<close>

definition polled :: "'s redis \<Rightarrow> registration_json \<Rightarrow> 's replica \<Rightarrow> (cluster_error + cluster_peer list) option" where
  "polled R J S = map_option fst (pbind (pure (get_or_init_conn R)) (\<lambda>_. on_peer_scan (list_peers R J)) S)"

definition node_ids :: "cluster_peer list \<Rightarrow> string set" where
  "node_ids peers = peer_node_id ` set peers - {[]}"

fun latest :: "string set \<Rightarrow> (cluster_error + cluster_peer list) list \<Rightarrow> string set" where
  "latest V [] = V"
| "latest V (Inl e # rs) = latest V rs"
| "latest V (Inr peers # rs) = latest (node_ids peers) rs"

subsection \<open>Snapshots\<close>

text \<open>A snapshot: one entry per node, under the node's own name.\<close>

definition named :: "(string \<times> cluster_peer) list \<Rightarrow> bool" where
  "named l \<longleftrightarrow> distinct (map fst l) \<and> (\<forall>(k, p) \<in> set l. peer_node_id p = k)"

lemma btree_keys: "map fst (btree l) = sort (remdups (map fst l))"
  by (simp add: btree_def comp_def)

lemma btree_entries: "(k, p) \<in> set (btree l) \<Longrightarrow> (k, p) \<in> set l"
proof -
  assume "(k, p) \<in> set (btree l)"
  then have "k \<in> fst ` set (rev l)" "p = the (map_of (rev l) k)" by (auto simp: btree_def)
  then have "map_of (rev l) k = Some p" by (metis domIff dom_map_of_conv_image_fst option.collapse)
  then show ?thesis using map_of_SomeD by fastforce
qed

lemma snapshot_named: "named (snapshot peers)"
  by (auto simp: named_def snapshot_def btree_keys dest!: btree_entries)

lemma snapshot_ids: "fst ` set (snapshot peers) = node_ids peers"
proof -
  have "fst ` set (snapshot peers) = set (map fst (snapshot peers))" by simp
  then show ?thesis by (auto simp: snapshot_def btree_keys node_ids_def)
qed

subsection \<open>Differences\<close>

lemma replay_append: "replay V (es @ fs) = Option.bind (replay V es) (\<lambda>W. replay W fs)"
  by (induction es arbitrary: V) (auto simp: Option.bind_assoc)

lemma replay_joins:
  "distinct (map fst l) \<Longrightarrow> \<forall>(k, p) \<in> set l. peer_node_id p = k \<and> k \<notin> V \<Longrightarrow>
   replay V (map (\<lambda>(k, p). Joined p) l) = Some (V \<union> fst ` set l)"
proof (induction l arbitrary: V)
  case (Cons x l)
  obtain k p where x: "x = (k, p)" by (cases x)
  with Cons.prems have "\<forall>(j, q) \<in> set l. peer_node_id q = j \<and> j \<notin> insert k V" by force
  with Cons.IH [of "insert k V"] Cons.prems x show ?case by simp
qed simp

lemma replay_leaves:
  "distinct (map fst l) \<Longrightarrow> fst ` set l \<subseteq> V \<Longrightarrow>
   replay V (map (\<lambda>(k, p). Left k) l) = Some (V - fst ` set l)"
proof (induction l arbitrary: V)
  case (Cons x l)
  obtain k p where x: "x = (k, p)" by (cases x)
  with Cons.prems have "fst ` set l \<subseteq> V - {k}" "k \<in> V" by auto
  moreover have "V - {k} - fst ` set l = V - insert k (fst ` set l)" by blast
  ultimately show ?case using Cons.IH [of "V - {k}"] Cons.prems(1) x by simp
qed simp

lemma replay_diff:
  assumes "named prev" and "named cur"
  shows "replay (fst ` set prev) (peer_diff prev cur) = Some (fst ` set cur)"
proof -
  let ?new = "filter (\<lambda>(k, p). k \<notin> fst ` set prev) cur" and ?old = "filter (\<lambda>(k, p). k \<notin> fst ` set cur) prev"
  have "replay (fst ` set prev) (map (\<lambda>(k, p). Joined p) ?new) = Some (fst ` set prev \<union> fst ` set ?new)"
    using assms(2) by (intro replay_joins) (auto simp: named_def distinct_map_filter)
  moreover have "replay (fst ` set prev \<union> fst ` set ?new) (map (\<lambda>(k, p). Left k) ?old) =
      Some ((fst ` set prev \<union> fst ` set ?new) - fst ` set ?old)"
    using assms(1) by (intro replay_leaves) (auto simp: named_def distinct_map_filter)
  moreover have "fst ` set ?new = fst ` set cur - fst ` set prev" "fst ` set ?old = fst ` set prev - fst ` set cur"
    by (auto simp: image_iff)
  then have "(fst ` set prev \<union> fst ` set ?new) - fst ` set ?old = fst ` set cur" by blast
  ultimately show ?thesis by (simp add: peer_diff_def replay_append)
qed

lemma watch_turn_sends:
  assumes "watch_turn R J None prev S = Some (q, T)"
  obtains e where "polled R J S = Some (Inl e)" and "q = Inr ([], Some prev)"
  | peers where "polled R J S = Some (Inr peers)" and "q = Inr (peer_diff prev (snapshot peers), Some (snapshot peers))"
proof -
  obtain r where "pbind (pure (get_or_init_conn R)) (\<lambda>_. on_peer_scan (list_peers R J)) S = Some (r, T)"
    using assms by (auto simp: watch_turn_def)
  with assms that show thesis by (cases r) (simp_all add: watch_turn_def polled_def Let_def)
qed

lemma watch_replay:
  assumes "watch_run R J prev Ss = Some (evs, cur)" and "named prev"
  shows "\<exists>rs. map (polled R J) Ss = map Some rs \<and> replay (fst ` set prev) evs = Some (latest (fst ` set prev) rs)"
  using assms
proof (induction Ss arbitrary: prev evs)
  case (Cons S Ss)
  then obtain ev next_one T more where t: "watch_turn R J None prev S = Some (Inr (ev, Some next_one), T)"
    and r: "watch_run R J next_one Ss = Some (more, cur)" and evs: "evs = ev @ more"
    by (auto split: option.splits sum.splits prod.splits)
  from t show ?case
  proof (cases rule: watch_turn_sends)
    case (1 e)
    then obtain rs where "map (polled R J) Ss = map Some rs" "replay (fst ` set prev) more = Some (latest (fst ` set prev) rs)"
      using Cons.IH [OF r] Cons.prems(2) by auto
    with 1 evs show ?thesis by (intro exI [of _ "Inl e # rs"]) simp
  next
    case (2 peers)
    then have n: "next_one = snapshot peers" "ev = peer_diff prev (snapshot peers)" by simp_all
    obtain rs where "map (polled R J) Ss = map Some rs" "replay (node_ids peers) more = Some (latest (node_ids peers) rs)"
      using Cons.IH [OF r] snapshot_named snapshot_ids unfolding n(1) by metis
    with 2 evs n replay_diff [OF Cons.prems(2) snapshot_named] show ?thesis
      by (intro exI [of _ "Inr peers # rs"]) (simp add: replay_append snapshot_ids)
  qed
qed simp

subsection \<open>Properties\<close>

text \<open>
  C39. A watcher that takes the events at their word always believes the last poll: whatever the polls
  of a \<open>watch_peers\<close> task answer, failures included, the events sent so far never contradict each other
  (no node joins while it is in, none leaves that is not) and replaying them gives exactly the named
  nodes of the last successful peer list.
\<close>

theorem watch_events_replay:
  assumes "watch_run R J [] Ss = Some (evs, cur)"
  shows "\<exists>rs. map (polled R J) Ss = map Some rs \<and> replay {} evs = Some (latest {} rs)"
  using watch_replay [OF assms] by (simp add: named_def)

text \<open>An instance whose registry holds one node.\<close>

definition one_replica :: "ref_state replica" where
  "one_replica = (new_inner default_host 1000 ((default_config ''redis://h'')\<lparr>cfg_key_prefix := ''p:''\<rparr>), ref_world 1000 one_peer)"

lemma one_replica_connects:
  "\<exists>I w. get_or_init_conn ref_ops one_replica = (Inr (), (I, w)) \<and> w = ref_world 1000 one_peer \<and>
     inner_prefix I = ''p:'' \<and> last_scan (peer_scan I) = None"
  by (simp add: get_or_init_conn_def one_replica_def new_inner_def round_trip_def ret_def populate_def
      ref_world_def pass_time_def legacy_new_def)

lemma one_replica_polled: "\<exists>peers. polled ref_ops one_json one_replica = Some (Inr peers) \<and> node_ids peers = {''n1''}"
proof -
  obtain I w where c: "get_or_init_conn ref_ops one_replica = (Inr (), (I, w))" "w = ref_world 1000 one_peer"
    "inner_prefix I = ''p:''" "last_scan (peer_scan I) = None" using one_replica_connects by blast
  have "finite (dom (objs (ref_view one_peer)))" by (simp add: one_peer_facts(1))
  then obtain found legacy u where l: "list_registrations ref_ops one_json ''p:'' (peer_scan I) w = Some (Inr (found, legacy), u)"
    and f: "set found = shown_peers one_json ''p:'' 1000 (ref_view one_peer)"
    using refscan.list_fresh [of 1000 w "''p:''" "peer_scan I" one_json] one_peer_facts(2) c(2,4)
    by (auto simp: rescans_def)
  have s: "set found = {(''n1'', one_reg)}" using f by (auto simp: shown_peers_def one_peer_facts)
  have "polled ref_ops one_json one_replica = Some (Inr (map (\<lambda>(node, reg). \<lparr>peer_node_id = node, peer_address = reg_address reg,
      peer_last_seen = reg_last_seen reg, peer_health_is = Healthy, peer_roles = reg_roles reg\<rparr>) found))"
    using c l by (simp add: polled_def pbind_def pure_def on_peer_scan_def list_peers_def ret_def)
  then show ?thesis by (simp add: node_ids_def s)
qed

theorem watch_events_replay_witness:
  "\<exists>evs cur. watch_run ref_ops one_json [] [one_replica, one_replica] = Some (evs, cur) \<and> replay {} evs = Some {''n1''}"
proof -
  obtain peers where p: "polled ref_ops one_json one_replica = Some (Inr peers)" "node_ids peers = {''n1''}"
    using one_replica_polled by blast
  have "\<exists>q T. watch_turn ref_ops one_json None prev one_replica = Some (Inr (q, Some (snapshot peers)), T)" for prev
    using p(1) by (auto simp: watch_turn_def polled_def Let_def)
  then obtain q1 T1 q2 T2 where "watch_turn ref_ops one_json None [] one_replica = Some (Inr (q1, Some (snapshot peers)), T1)"
    "watch_turn ref_ops one_json None (snapshot peers) one_replica = Some (Inr (q2, Some (snapshot peers)), T2)" by metis
  then obtain evs cur where run: "watch_run ref_ops one_json [] [one_replica, one_replica] = Some (evs, cur)" by simp
  obtain rs where rs: "map (polled ref_ops one_json) [one_replica, one_replica] = map Some rs"
    "replay {} evs = Some (latest {} rs)" using watch_events_replay [OF run] by blast
  have "map Some rs = map Some [Inr peers, Inr peers]" using rs(1) p(1) by simp
  then have "rs = [Inr peers, Inr peers]" by (rule map_injective) (simp add: inj_def)
  with run rs(2) p(2) show ?thesis by (intro exI [of _ evs] exI [of _ cur]) simp
qed

end
