(* ===== verification/Sweep_Lock.thy ===== *)
theory Sweep_Lock
  imports Instance
begin

section \<open>The sweep lock\<close>

text \<open>
  The maintenance task keeps its lock as a lease: it renews it on every tick, and the lease's own task
  renews it between ticks. What follows from the two together when one renewal of the tick fails.
\<close>

lemma sweep_lock_named: "\<not> blank SWEEP_LOCK"
  by (auto simp: SWEEP_LOCK_def byte_in_def intro!: not_blank_ascii)

text \<open>The key of the lock and the lifetime the task asks for.\<close>

definition sweep_key :: "inner \<Rightarrow> string" where
  "sweep_key I = fst (lease_keys (inner_prefix I) ''locks'' SWEEP_LOCK)"

definition sweep_ttl :: "inner \<Rightarrow> int" where
  "sweep_ttl I = ttl_ms (Some (min (tick_interval (config I) * 2) duration_max))"

context redis_server
begin

lemma keep_lock_starves:
  assumes "renewed view (sweep_key I) h ms T st w" and "held_lease M = None" and "ttl_arg_ok (sweep_ttl I)" and "e \<le> T"
  shows "\<exists>u. keep_lock R rfc (M, I, after_ms R e w) = (False, M, I, u) \<and> view (server u) = view (server (after_ms R e w))"
  using renewed_refuses [OF assms(1,4) sweep_lock_named, of "min (tick_interval (config I) * 2) duration_max" rfc
      "snd (lease_keys (inner_prefix I) ''locks'' SWEEP_LOCK)" "inner_node_id I"] assms(2,3)
  by (cases "lease_keys (inner_prefix I) ''locks'' SWEEP_LOCK")
     (auto simp: keep_lock_def sweep_key_def sweep_ttl_def)

lemma keep_lock_refused:
  assumes "links w = Refused e # ls" and "renewed view (sweep_key I) (inner_node_id I) ms T st (w\<lparr>links := ls\<rparr>)"
    and "held_lease M = Some st" and "ttl_arg_ok (sweep_ttl I)"
  shows "\<exists>u. keep_lock R rfc (M, I, w) = (False, M\<lparr>held_lease := None\<rparr>, I, u) \<and>
    renewed view (sweep_key I) (inner_node_id I) ms T st u"
proof -
  let ?v = "pass_time (w\<lparr>links := ls\<rparr>)"
  obtain er where r: "renew_state R rfc st w = (Inl er, st, ?v)"
    using assms(1,2) by (auto simp: renew_state_def invoke_def round_trip_def Let_def renewed_def)
  have v: "renewed view (sweep_key I) (inner_node_id I) ms T st ?v"
    using assms(2) by (auto simp: renewed_def pass_time_def quiet_def split: list.splits)
  then obtain u where "try_acquire_async R rfc SWEEP_LOCK (sweep_key I) (snd (lease_keys (inner_prefix I) ''locks'' SWEEP_LOCK))
      (inner_node_id I) (min (tick_interval (config I) * 2) duration_max) ?v = (Inr None, u)" "quiet u"
    "view (server u) = view (server ?v)"
    using try_acquire_held [OF _ sweep_lock_named, of ?v] assms(4) unfolding renewed_def sweep_ttl_def by meson
  with v r assms(3) show ?thesis
    by (cases "lease_keys (inner_prefix I) ''locks'' SWEEP_LOCK")
       (auto simp: keep_lock_def sweep_key_def renewed_def)
qed

end

text \<open>
  C26. One failed renewal can stop all sweeping: when the tick of the replica that holds the sweep lock
  has its renewal refused by the connection, it forgets the lease without releasing it and cannot take
  the lock again, because the lease is still there. The lease's own task still renews it. From then on,
  after any number of the task's rounds, no tick of any replica of the deployment, the old holder's
  included, gets the lock: nobody sweeps the indexes or completes the key index.
\<close>

theorem sweep_lock_orphaned:
  assumes "redis_server R view" and "links w = Refused e # ls"
    and "renewed view (sweep_key I) (inner_node_id I) ms T st (w\<lparr>links := ls\<rparr>)"
    and "held_lease M = Some st" and "ttl_arg_ok (sweep_ttl I)" and "d \<le> T" and "T \<le> nat ms"
  shows "\<exists>u. keep_lock R rfc (M, I, w) = (False, M\<lparr>held_lease := None\<rparr>, I, u) \<and>
    (\<forall>n a x. task_rounds R rfc d n (drop_ref (new_arc st), u) = (a, x) \<longrightarrow>
      (\<forall>t N I'. t \<le> T \<and> held_lease N = None \<and> inner_prefix I' = inner_prefix I \<and> ttl_arg_ok (sweep_ttl I') \<longrightarrow>
        (\<exists>y. keep_lock R rfc (N, I', after_ms R t x) = (False, N, I', y) \<and>
          view (server y) = view (server (after_ms R t x)))))"
proof -
  obtain u where u: "keep_lock R rfc (M, I, w) = (False, M\<lparr>held_lease := None\<rparr>, I, u)"
    and r: "renewed view (sweep_key I) (inner_node_id I) ms T (cell (drop_ref (new_arc st))) u"
    using redis_server.keep_lock_refused [OF assms(1-5), of rfc] by (auto simp: new_arc_def drop_ref_def)
  have "\<exists>y. keep_lock R rfc (N, I', after_ms R t x) = (False, N, I', y) \<and> view (server y) = view (server (after_ms R t x))"
    if run: "task_rounds R rfc d n (drop_ref (new_arc st), u) = (a, x)" and "t \<le> T" and "held_lease N = None"
      and "inner_prefix I' = inner_prefix I" and "ttl_arg_ok (sweep_ttl I')" for n a x t N I'
  proof -
    have "sweep_key I' = sweep_key I" using that(4) by (simp add: sweep_key_def)
    with redis_server.renewed_rounds [OF assms(1) r assms(6,7) run]
    have "renewed view (sweep_key I') (inner_node_id I) ms T (cell a) x" by simp
    from redis_server.keep_lock_starves [OF assms(1) this that(3,5,2)] show ?thesis .
  qed
  with u show ?thesis by blast
qed

text \<open>A replica with the default settings that holds the lock, and a broken connection.\<close>

definition sweep_inner :: inner where
  "sweep_inner = new_inner default_host 1000 (default_config ''redis://h'')"

definition sweep_lease :: lease_state where
  "sweep_lease = \<lparr>lease_key = sweep_key sweep_inner, holder = inner_node_id sweep_inner, fence_token = 1,
     lease_ttl_ms = 60000, expires_text = [], released = False, renewing = True\<rparr>"

definition sweep_world :: "ref_state world" where
  "sweep_world = (ref_world 1000 \<lparr>table = [(sweep_key sweep_inner, RStr (inner_node_id sweep_inner), Some 60000)], log = []\<rparr>)
     \<lparr>links := [Refused ''broken pipe'']\<rparr>"

lemma sweep_facts:
  "renewed ref_view (sweep_key sweep_inner) (inner_node_id sweep_inner) 60000 60000 sweep_lease (sweep_world\<lparr>links := []\<rparr>)"
  "ttl_arg_ok (sweep_ttl (sweep_inner\<lparr>inner_node_id := n\<rparr>))"
proof -
  show "renewed ref_view (sweep_key sweep_inner) (inner_node_id sweep_inner) 60000 60000 sweep_lease (sweep_world\<lparr>links := []\<rparr>)"
    by (simp add: renewed_def sweep_lease_def sweep_world_def leased_def ref_view_def str_at_def ref_world_def quiet_def px_ok_def)
  have "sweep_ttl (sweep_inner\<lparr>inner_node_id := n\<rparr>) = 60000"
    by (simp add: sweep_ttl_def ttl_ms_def tick_interval_def sweeps_def sweep_inner_def new_inner_def default_config_def
        default_kv_sweep_interval_ms_def duration_max_def)
  then show "ttl_arg_ok (sweep_ttl (sweep_inner\<lparr>inner_node_id := n\<rparr>))" by (simp add: ttl_arg_ok_def)
qed

theorem sweep_lock_orphaned_witness:
  "\<exists>u a x y. keep_lock ref_ops dec (\<lparr>held_lease = Some sweep_lease, unindexed_seen = None\<rparr>, sweep_inner, sweep_world) =
       (False, \<lparr>held_lease = None, unindexed_seen = None\<rparr>, sweep_inner, u) \<and>
     task_rounds ref_ops dec 30000 1000 (drop_ref (new_arc sweep_lease), u) = (a, x) \<and>
     keep_lock ref_ops dec (\<lparr>held_lease = None, unindexed_seen = None\<rparr>, sweep_inner\<lparr>inner_node_id := ''n2''\<rparr>, after_ms ref_ops 20000 x) =
       (False, \<lparr>held_lease = None, unindexed_seen = None\<rparr>, sweep_inner\<lparr>inner_node_id := ''n2''\<rparr>, y)"
proof -
  let ?M = "\<lparr>held_lease = Some sweep_lease, unindexed_seen = None\<rparr>" and ?N = "\<lparr>held_lease = None, unindexed_seen = None\<rparr>"
  have "links sweep_world = [Refused ''broken pipe'']" by (simp add: sweep_world_def)
  from sweep_lock_orphaned [OF ref.redis_server_axioms this sweep_facts(1), of ?M 30000 dec] sweep_facts(2) [of "inner_node_id sweep_inner"]
  obtain u where u: "keep_lock ref_ops dec (?M, sweep_inner, sweep_world) = (False, ?N, sweep_inner, u)"
    and rest: "\<forall>n a x. task_rounds ref_ops dec 30000 n (drop_ref (new_arc sweep_lease), u) = (a, x) \<longrightarrow>
      (\<forall>t N I'. t \<le> 60000 \<and> held_lease N = None \<and> inner_prefix I' = inner_prefix sweep_inner \<and> ttl_arg_ok (sweep_ttl I') \<longrightarrow>
        (\<exists>y. keep_lock ref_ops dec (N, I', after_ms ref_ops t x) = (False, N, I', y) \<and>
          ref_view (server y) = ref_view (server (after_ms ref_ops t x))))"
    by auto
  obtain a x where x: "task_rounds ref_ops dec 30000 1000 (drop_ref (new_arc sweep_lease), u) = (a, x)" by fastforce
  have "20000 \<le> (60000 :: nat) \<and> held_lease ?N = None \<and> inner_prefix (sweep_inner\<lparr>inner_node_id := ''n2''\<rparr>) = inner_prefix sweep_inner \<and>
      ttl_arg_ok (sweep_ttl (sweep_inner\<lparr>inner_node_id := ''n2''\<rparr>))" using sweep_facts(2) by simp
  from rest [rule_format, OF x this] u x show ?thesis by blast
qed

end
