(* ===== verification/Stale_Handles.thy ===== *)
theory Stale_Handles
  imports Instance
begin

section \<open>A handle that outlives its lease\<close>

text \<open>
  The holder identity of a lease is the node id of the instance, the same for every lease the instance
  takes. What follows when an instance takes a lock again after a lease of its own has run out, and the
  first handle is released late.
\<close>

lemma lock_named: "\<not> blank (lock_name key)"
  by (auto simp: lock_name_def byte_in_def intro!: not_blank_ascii)

lemma populate_kept [simp]: "config (populate I) = config I" "inner_node_id (populate I) = inner_node_id I"
  "conn_cell (populate I) = conn_cell I"
  by (simp_all add: populate_def split: option.split)

lemma small_token: "0 \<le> n \<Longrightarrow> n \<le> 2 ^ 53 \<Longrightarrow> uint (word_of_int n :: u64) = n"
  by (simp add: uint_word_of_int)

text \<open>A renewal turn whose round trip is refused ends the task and leaves the handle unreleased.\<close>

lemma renewal_refused:
  assumes "renewing st" and "\<not> released st"
  shows "renewal_turn R rfc st (w\<lparr>links := [Refused e]\<rparr>) = (st\<lparr>renewing := False\<rparr>, pass_time (w\<lparr>links := []\<rparr>))"
  using assms by (simp add: renewal_turn_def renew_state_def invoke_def round_trip_def Let_def)

text \<open>Time takes the lease key away and leaves the fence counter.\<close>

lemma lease_runs_out:
  assumes "lease_wf lk fk c v" and "str_at v lk = Some (h, Some t)" and "t < d"
  shows "lease_wf lk fk c (ks_elapse d v)" and "\<not> live (ks_elapse d v) lk"
proof -
  show "lease_wf lk fk c (ks_elapse d v)" using assms(1) by (simp add: lease_wf_def counter_elapse elapse_readers(1))
  show "\<not> live (ks_elapse d v) lk" using assms(2,3) by (simp add: live_def ks_elapse_def str_at_live)
qed

context redis_server
begin

text \<open>One attempt at a free lock by a connected instance in a quiet world.\<close>

lemma try_lock_quiet:
  assumes "quiet w" and "conn_cell I" and keys: "lease_keys (inner_prefix I) ''locks'' key = (lk, fk)"
    and "ttl_arg_ok (ttl_ms (Some ttl))" and wf: "lease_wf lk fk c (view (server w))" and "0 \<le> c" and "c < 2 ^ 53"
    and free: "\<not> live (view (server w)) lk"
  obtains st u where "try_acquire_lock R rfc key ttl (I, w) = (Inr (Some st), (populate I, u))"
    and "lease_key st = lk" and "holder st = inner_node_id I" and "fence_token st = word_of_int (c + 1)"
    and "\<not> released st" and "renewing st" and "quiet u" and "lease_wf lk fk (c + 1) (view (server u))"
    and "str_at (view (server u)) lk = Some (inner_node_id I, Some (nat (ttl_ms (Some ttl))))"
proof -
  have i64: "in_i64 (c + 1)" using assms(6,7) by (simp add: in_i64_def)
  have token: "lua_reply R (c + 1) = c + 1" using assms(6,7) by (intro lua_reply_exact) simp
  obtain st u where u: "try_acquire_async R rfc (lock_name key) lk fk (inner_node_id I) ttl w = (Inr (Some st), u)"
    "lease_key st = lk" "holder st = inner_node_id I" "fence_token st = word_of_int (c + 1)" "\<not> released st" "renewing st"
    "quiet u" "view (server u) = ks_put fk (Some (RStr (dec (c + 1)), None))
       (ks_put lk (Some (RStr (inner_node_id I), Some (nat (ttl_ms (Some ttl))))) (view (server w)))"
    using try_acquire_quiet [OF assms(1) lock_named assms(4) wf i64, of rfc key "inner_node_id I"] free token by auto
  have "lk \<noteq> fk" using wf by (simp add: lease_wf_def)
  then have "lease_wf lk fk (c + 1) (view (server u))"
    "str_at (view (server u)) lk = Some (inner_node_id I, Some (nat (ttl_ms (Some ttl))))"
    using u(8) i64 by (simp_all add: lease_wf_def str_slot_def str_at_def ks_simps)
  moreover have "try_acquire_lock R rfc key ttl (I, w) = (Inr (Some st), (populate I, u))"
    using u(1) assms(2) keys
    by (simp add: try_acquire_lock_def try_acquire_named_def get_or_init_conn_def cbind_def with_inner_def on_world_def)
  ultimately show thesis using that u(2-7) by blast
qed

end

text \<open>
  C20. A stale handle ends a newer lease of its own node. An instance is granted a lock; one renewal of
  the lease is refused by the connection, its task gives up, and the lease runs out. The same instance
  is granted the lock again, with a later fence token. Releasing the first handle now deletes the second
  lease, because both carry the node id as their holder: the new handle still counts as held, but the
  lock is free, and another instance of the deployment is granted it.
\<close>

theorem stale_handle_releases_new_lease:
  assumes "redis_server R view" and "quiet w" and "conn_cell I"
    and "lease_keys (inner_prefix I) ''locks'' key = (lk, fk)" and "ttl_arg_ok (ttl_ms (Some ttl))"
    and "lease_wf lk fk c (view (server w))" and "0 \<le> c" and "c + 2 < 2 ^ 53" and "\<not> live (view (server w)) lk"
    and "nat (ttl_ms (Some ttl)) < d" and "conn_cell I'" and "inner_prefix I' = inner_prefix I"
    and "inner_node_id I' \<noteq> inner_node_id I"
  shows "\<exists>first J u stale x new J2 y stale' z other J3 t.
    try_acquire_lock R rfc key ttl (I, w) = (Inr (Some first), (J, u)) \<and>
    renewal_turn R rfc first (u\<lparr>links := [Refused e]\<rparr>) = (stale, x) \<and>
    try_acquire_lock R rfc key ttl (J, after_ms R d x) = (Inr (Some new), (J2, y)) \<and>
    fence_token first < fence_token new \<and> \<not> released new \<and> held_by (view (server y)) lk = Some (holder new) \<and>
    release_state R stale y = (Inr (), stale', z) \<and> \<not> live (view (server z)) lk \<and>
    try_acquire_lock R rfc key ttl (I', z) = (Inr (Some other), (J3, t)) \<and>
    held_by (view (server t)) lk = Some (holder other) \<and> holder other \<noteq> holder new"
proof -
  note attempt = redis_server.try_lock_quiet [OF assms(1) _ _ _ assms(5), where rfc = rfc]
  obtain first u where first: "try_acquire_lock R rfc key ttl (I, w) = (Inr (Some first), (populate I, u))"
    "lease_key first = lk" "holder first = inner_node_id I" "fence_token first = word_of_int (c + 1)"
    "\<not> released first" "renewing first" "quiet u" "lease_wf lk fk (c + 1) (view (server u))"
    "str_at (view (server u)) lk = Some (inner_node_id I, Some (nat (ttl_ms (Some ttl))))"
    by (rule attempt [OF assms(2-4,6,7) _ assms(9)]) (use assms(8) in auto)
  let ?stale = "first\<lparr>renewing := False\<rparr>" and ?x = "pass_time (u\<lparr>links := []\<rparr>)"
  have turn: "renewal_turn R rfc first (u\<lparr>links := [Refused e]\<rparr>) = (?stale, ?x)"
    by (rule renewal_refused [OF first(6,5)])
  let ?xd = "after_ms R d ?x"
  have "quiet ?xd" using first(7) by (simp add: quiet_def after_ms_def)
  moreover have "view (server ?xd) = ks_elapse d (view (server u))"
    using redis_server.elapse_view [OF assms(1)] by (simp add: after_ms_def)
  ultimately have xd: "quiet ?xd" "lease_wf lk fk (c + 1) (view (server ?xd))" "\<not> live (view (server ?xd)) lk"
    using lease_runs_out [OF first(8,9) assms(10)] by simp_all
  obtain new y where new: "try_acquire_lock R rfc key ttl (populate I, ?xd) = (Inr (Some new), (populate (populate I), y))"
    "holder new = inner_node_id I" "fence_token new = word_of_int (c + 1 + 1)" "\<not> released new" "quiet y"
    "lease_wf lk fk (c + 1 + 1) (view (server y))"
    "str_at (view (server y)) lk = Some (inner_node_id I, Some (nat (ttl_ms (Some ttl))))"
    by (rule attempt [OF xd(1) _ _ xd(2) _ _ xd(3), of "populate I" key]) (use assms(3,4,7,8) in auto)
  have slot: "str_slot (view (server y)) lk" using new(6) by (simp add: lease_wf_def)
  have held: "held_by (view (server y)) lk = Some (inner_node_id I)" using new(7) by (simp add: held_by_def)
  obtain z where z: "release_state R ?stale y = (Inr (), ?stale\<lparr>released := True, renewing := False\<rparr>, z)" "quiet z"
    "view (server z) = ks_put lk None (view (server y))"
    using redis_server.release_quiet [OF assms(1) new(5), of ?stale] first(2,3,5) slot held by auto
  have free: "lease_wf lk fk (c + 1 + 1) (view (server z))" "\<not> live (view (server z)) lk"
    using new(6) z(3) by (auto simp: lease_wf_def slot_put ks_simps)
  obtain other t where other: "try_acquire_lock R rfc key ttl (I', z) = (Inr (Some other), (populate I', t))"
    "holder other = inner_node_id I'"
    "str_at (view (server t)) lk = Some (inner_node_id I', Some (nat (ttl_ms (Some ttl))))"
    by (rule attempt [OF z(2) assms(11) _ free(1) _ _ free(2)]) (use assms(4,7,8,12) in auto)
  have less: "fence_token first < fence_token new"
    unfolding first(4) new(3) word_less_def using assms(7,8) by (subst (1 2) small_token) simp_all
  show ?thesis
    using first(1) turn new(1) less new(4) held new(2) z(1) free(2) other assms(13)
    by (metis held_by_def fst_conv option.simps(9))
qed

text \<open>Two connected instances of one deployment on the empty reference server.\<close>

definition lock_node :: "string \<Rightarrow> inner" where
  "lock_node n = (new_inner default_host 1000 (default_config ''redis://h''))\<lparr>inner_node_id := n, conn_cell := True\<rparr>"

theorem stale_handle_witness:
  "\<exists>first J u stale x new J2 y stale' z other J3 t.
    try_acquire_lock ref_ops dec ''x'' 500000000 (lock_node ''n1'', ref_world 1000 ref_empty) = (Inr (Some first), (J, u)) \<and>
    renewal_turn ref_ops dec first (u\<lparr>links := [Refused ''broken pipe'']\<rparr>) = (stale, x) \<and>
    try_acquire_lock ref_ops dec ''x'' 500000000 (J, after_ms ref_ops 501 x) = (Inr (Some new), (J2, y)) \<and>
    release_state ref_ops stale y = (Inr (), stale', z) \<and>
    try_acquire_lock ref_ops dec ''x'' 500000000 (lock_node ''n2'', z) = (Inr (Some other), (J3, t))"
proof -
  let ?I = "lock_node ''n1''" and ?w = "ref_world 1000 ref_empty"
  obtain lk fk where keys: "lease_keys (inner_prefix ?I) ''locks'' ''x'' = (lk, fk)" by fastforce
  have free: "lease_wf lk fk 0 (ref_view (server ?w))" "\<not> live (ref_view (server ?w)) lk"
    using keys by (auto simp: lease_wf_def str_slot_def counter_at_def live_def lease_keys_def)
  have "conn_cell (lock_node n)" "inner_node_id (lock_node n) = n" "inner_prefix (lock_node n) = inner_prefix ?I" for n
    by (simp_all add: lock_node_def)
  with stale_handle_releases_new_lease [OF ref.redis_server_axioms _ _ keys _ free(1) _ _ free(2),
      of 500000000 501 "lock_node ''n2''" dec "''broken pipe''"]
  show ?thesis by (simp add: ttl_arg_ok_def ttl_ms_def) blast
qed

end
