(* ===== verification/Index_Gate.thy ===== *)
theory Index_Gate
  imports Instance
begin

section \<open>When listings may trust the key index\<close>

text \<open>
  A replica's listings read the key index when its readiness flag says so. The flag follows a mark in
  Redis, which a replica sets after a backfill. \<open>gate R view K c w\<close> is the invariant of a fleet whose
  replicas all write the index: the mark is there only if the index misses no live key, the others keep
  it that way, and with \<open>c\<close> the index is complete now. It is kept by everything a tick does.
\<close>

definition marks_right :: "redis_kv \<Rightarrow> bool \<Rightarrow> keyspace \<Rightarrow> bool" where
  "marks_right K c v \<longleftrightarrow> kv_wf K v \<and> (c \<or> live v (complete_key K) \<longrightarrow> kv_complete K v)"

definition gate :: "'s redis \<Rightarrow> ('s \<Rightarrow> keyspace) \<Rightarrow> redis_kv \<Rightarrow> bool \<Rightarrow> 's world \<Rightarrow> bool" where
  "gate R view K c w \<longleftrightarrow> others_ok R K w \<and>
     stable (marks_right K False \<circ> view) w \<and> stable (marks_right K c \<circ> view) w"

lemma marks_right_less: "marks_right K c v \<Longrightarrow> marks_right K False v"
  by (simp add: marks_right_def)

lemma gate_fields: "server u = server w \<Longrightarrow> env u = env w \<Longrightarrow> gate R view K c w \<Longrightarrow> gate R view K c u"
  by (simp add: gate_def others_ok_def stable_def)

lemma gate_trip [keeps_intros]: "keeps (gate R view K c) m \<Longrightarrow> keeps (gate R view K c) (round_trip sh m)"
  by (rule keeps_trip) (auto intro: gate_fields)

lemma others_exec: "others_ok R K w \<Longrightarrow> others_ok R K (snd (exec m w))"
  by (cases "env w") (auto simp: others_ok_def exec_def split: prod.splits)

lemma gate_exec:
  assumes "\<And>s. marks_right K c (view s) \<Longrightarrow> marks_right K c (view (snd (m s)))"
  shows "keeps (gate R view K c) (exec m)"
  unfolding keeps_def gate_def
proof (intro allI impI conjI; elim conjE)
  fix w
  assume st: "stable (marks_right K c \<circ> view) w"
  have c: "stable (marks_right K c \<circ> view) (snd (exec m w))"
    by (rule keepsD [OF keeps_exec st]) (simp add: assms)
  then show "stable (marks_right K c \<circ> view) (snd (exec m w))" .
  assume "stable (marks_right K False \<circ> view) w"
  then have "\<forall>e \<in> set (env (snd (exec m w))). \<forall>s. (marks_right K False \<circ> view) s \<longrightarrow> (marks_right K False \<circ> view) (e s)"
    by (cases "env w") (auto simp: stable_def exec_def split: prod.splits)
  with c show "stable (marks_right K False \<circ> view) (snd (exec m w))"
    by (auto simp: stable_def intro: marks_right_less)
qed (rule others_exec)

lemma gate_yields:
  assumes "\<And>s. marks_right K c (view s) \<Longrightarrow> marks_right K c (view (snd (m s)))"
    and "\<And>s x. marks_right K c (view s) \<Longrightarrow> fst (m s) = Inr x \<Longrightarrow> Q x"
  shows "yields (gate R view K c) (round_trip sh (exec m)) Q"
  using yields_trip [of "marks_right K c \<circ> view" m Q sh] gate_trip [OF gate_exec, of K c view m R sh] assms
  by (auto simp: yields_def keeps_def gate_def)

lemma keeps_as_strings [keeps_intros]: "keeps P (as_strings R ks)" "keeps P (as_opt_strings R vs)"
  by (simp_all add: as_strings_def as_opt_strings_def keeps_ret keeps_raise)

lemma keeps_case_prod [keeps_intros]: "(\<And>a b. keeps P (f a b)) \<Longrightarrow> keeps P (case x of (a, b) \<Rightarrow> f a b)"
  by (cases x) simp

lemma pkeeps_case_prod [keeps_intros]: "(\<And>a b. pkeeps P (f a b)) \<Longrightarrow> pkeeps P (case x of (a, b) \<Rightarrow> f a b)"
  by (cases x) simp

subsection \<open>Commands that open nothing\<close>

text \<open>A step that leaves the store well-formed, no key newly missing from the index, and sets no mark.\<close>

definition unopened :: "redis_kv \<Rightarrow> keyspace \<Rightarrow> keyspace \<Rightarrow> bool" where
  "unopened K v u \<longleftrightarrow> kv_wf K u \<and> unlisted K u \<subseteq> unlisted K v \<and> (live u (complete_key K) \<longrightarrow> live v (complete_key K))"

definition opens_nothing :: "redis_kv \<Rightarrow> (keyspace, 'a) cmd \<Rightarrow> bool" where
  "opens_nothing K n \<longleftrightarrow> (\<forall>v. kv_wf K v \<longrightarrow> unopened K v (snd (n v)))"

lemma unopened_right: "unopened K v u \<Longrightarrow> marks_right K c v \<Longrightarrow> marks_right K c u"
  unfolding unopened_def marks_right_def kv_complete_unlisted by blast

lemma opens_nothing_right: "opens_nothing K n \<Longrightarrow> marks_right K c v \<Longrightarrow> marks_right K c (snd (n v))"
  using unopened_right [of K v "snd (n v)" c] by (simp add: opens_nothing_def marks_right_def)

lemma opens_nothing_read: "(\<And>v. snd (n v) = v) \<Longrightarrow> opens_nothing K n"
  by (simp add: opens_nothing_def unopened_def)

lemma opens_nothing_ret: "opens_nothing K (ret x)"
  by (rule opens_nothing_read) (simp add: ret_def)

lemma opens_nothing_bind:
  assumes "opens_nothing K n" and "\<And>x. opens_nothing K (f x)"
  shows "opens_nothing K (cbind n f)"
  unfolding opens_nothing_def
proof (intro allI impI)
  fix v
  assume v: "kv_wf K v"
  obtain r u where n: "n v = (r, u)" by (metis prod.exhaust)
  have u: "unopened K v u" using assms(1) v n unfolding opens_nothing_def by (metis snd_conv)
  show "unopened K v (snd (cbind n f v))"
  proof (cases r)
    case (Inr x)
    have "unopened K u (snd (f x u))" using assms(2) u unfolding opens_nothing_def by (simp add: unopened_def)
    with u n Inr show ?thesis by (auto simp: cbind_def unopened_def)
  qed (use u n in \<open>simp add: cbind_def\<close>)
qed

lemma mark_outside_store: "keys_apart K \<Longrightarrow> \<not> store_key K (complete_key K)"
  by (auto simp: keys_apart_def store_key_def)

lemma opens_nothing_other:
  assumes "only_key k n" and "\<not> store_key K k" and "k \<noteq> complete_key K"
  shows "opens_nothing K n"
  unfolding opens_nothing_def
proof (intro allI impI)
  fix v
  assume v: "kv_wf K v"
  have "snd (n v) = ks_put k (objs (snd (n v)) k) v" using assms(1) unfolding only_key_def by blast
  then have o: "objs (snd (n v)) j = objs v j" if "j \<noteq> k" for j using that by (metis ks_put_objs)
  then have "\<And>j. store_key K j \<Longrightarrow> objs (snd (n v)) j = objs v j" using assms(2) by metis
  from store_same [OF this] v o assms(3) show "unopened K v (snd (n v))"
    by (auto simp: unopened_def live_def)
qed

text \<open>The mark itself: taking it away opens nothing, setting it is right when the index is complete.\<close>

lemma put_mark:
  assumes "kv_wf K v"
  shows "kv_wf K (ks_put (complete_key K) e v)" and "unlisted K (ks_put (complete_key K) e v) = unlisted K v"
proof -
  have "objs (ks_put (complete_key K) e v) j = objs v j" if "store_key K j" for j
    using that mark_outside_store [OF kv_wfD(1) [OF assms]] by (auto simp: ks_simps)
  from store_same [OF this] assms show "kv_wf K (ks_put (complete_key K) e v)"
    and "unlisted K (ks_put (complete_key K) e v) = unlisted K v" by simp_all
qed

lemma unopened_unmark: "kv_wf K v \<Longrightarrow> unopened K v (ks_put (complete_key K) None v)"
  by (simp add: unopened_def put_mark live_def ks_simps)

lemma marks_right_mark: "marks_right K True v \<Longrightarrow> marks_right K True (ks_put (complete_key K) e v)"
  by (simp add: marks_right_def kv_complete_unlisted put_mark)

text \<open>The upkeep scripts, on data keys.\<close>

lemma upkeep_mark:
  assumes "kv_wf K v" and "\<forall>k \<in> set ks. data_key K k"
    and "\<And>k u. kv_wf K u \<Longrightarrow> data_key K k \<Longrightarrow> kv_wf K (snd (body k u)) \<and>
      (\<exists>e ia xa. (snd (body k u) = u \<or> snd (body k u) = touch K k e ia xa u))"
  shows "objs (snd (for_count body ks n v)) (complete_key K) = objs v (complete_key K)"
proof -
  have apart: "keys_apart K" using kv_wfD(1) [OF assms(1)] .
  have "kv_wf K (snd (for_count body ks n v)) \<and> objs (snd (for_count body ks n v)) (complete_key K) = objs v (complete_key K)"
  proof (rule for_count_inv [where P = "\<lambda>u. kv_wf K u \<and> objs u (complete_key K) = objs v (complete_key K)"])
    fix k u
    assume u: "kv_wf K u \<and> objs u (complete_key K) = objs v (complete_key K)" and k: "k \<in> set ks"
    have dk: "data_key K k" using assms(2) k by blast
    then have "complete_key K \<noteq> k" using apart by (auto simp: keys_apart_def)
    with assms(3) [of u k] touch_objs [of K u k "complete_key K"] mark_outside_store [OF apart] u dk
    show "kv_wf K (snd (body k u)) \<and> objs (snd (body k u)) (complete_key K) = objs v (complete_key K)"
      by (auto simp: store_key_def)
  qed (use assms(1) in simp)
  then show ?thesis ..
qed

lemma upkeep_opens_nothing:
  assumes "\<forall>k \<in> set ks. data_key K k"
  shows "opens_nothing K (sweep_lua (ks_ops R) (index_key K) (expiry_key K) now ks)"
    and "opens_nothing K (backfill_lua (ks_ops R) (index_key K) (expiry_key K) now ks)"
proof -
  obtain js where js: "ks = map (full_key K) js" using assms by (metis data_key_iff ex_map_conv)
  have "objs (snd (sweep_lua (ks_ops R) (index_key K) (expiry_key K) now ks v)) (complete_key K) = objs v (complete_key K)"
    "objs (snd (backfill_lua (ks_ops R) (index_key K) (expiry_key K) now ks v)) (complete_key K) = objs v (complete_key K)"
    if v: "kv_wf K v" for v
    unfolding sweep_lua_def backfill_lua_def
    by (rule upkeep_mark [OF v assms]; rule conjI; (rule upkeep_one_wf; assumption)?;
        force simp: sweep_one_ks backfill_one_ks split: option.splits)+
  then show "opens_nothing K (sweep_lua (ks_ops R) (index_key K) (expiry_key K) now ks)"
    "opens_nothing K (backfill_lua (ks_ops R) (index_key K) (expiry_key K) now ks)"
    using sweep_script.keeps_wf [of K _ R now js] sweep_script.keeps_unlisted [of K _ R now js]
      backfill_script.keeps_wf [of K _ R now js] backfill_script.keeps_unlisted [of K _ R now js]
    by (auto simp: opens_nothing_def unopened_def js live_def)
qed

subsection \<open>What a tick sends\<close>

text \<open>The names of one prefix: the registry and the sweep lock are outside the store.\<close>

lemma names_apart:
  assumes "kv_names cfg K" and "cfg_key_prefix cfg \<noteq> []" and "lease_keys (cfg_key_prefix cfg) ''locks'' name = (lk, fk)"
  shows "\<not> store_key K (peers_index_key (cfg_key_prefix cfg))" and "peers_index_key (cfg_key_prefix cfg) \<noteq> complete_key K"
    and "\<not> store_key K lk" and "lk \<noteq> complete_key K" and "\<not> store_key K fk" and "fk \<noteq> complete_key K"
  using assms
  by (auto simp: kv_names_def store_key_def data_key_def full_key_def set_index_ready_def with_connection_manager_def
      peers_index_key_def lease_keys_def)

context redis_server
begin

lemma gate_cmd: "sim view m n \<Longrightarrow> opens_nothing K n \<Longrightarrow> keeps (gate R view K c) (exec m)"
  by (rule gate_exec) (simp add: sim_view opens_nothing_right)

lemma gate_script: "sim view m n \<Longrightarrow> opens_nothing K n \<Longrightarrow> keeps (gate R view K c) (invoke R m)"
  unfolding invoke_def by (intro gate_trip gate_cmd)

lemma gate_reads [keeps_intros]:
  "keeps (gate R view K c) (exec (redis_zrangebyscore R z lo hi lim))"
  "keeps (gate R view K c) (invoke R (redis_mget R ks))"
  "keeps (gate R view K c) (invoke R (redis_exists R k))"
  by (rule gate_cmd [OF zrangebyscore_sim] gate_script [OF mget_sim] gate_script [OF exists_sim];
      rule opens_nothing_read; rule read_commands)+

lemma gate_zremrangebyscore [keeps_intros]:
  "\<not> store_key K k \<Longrightarrow> k \<noteq> complete_key K \<Longrightarrow> keeps (gate R view K c) (exec (redis_zremrangebyscore R k lo hi))"
  by (rule gate_cmd [OF zremrangebyscore_sim opens_nothing_other [OF one_key_commands(8)]])

lemma lease_opens_nothing:
  assumes "\<not> store_key K lk" and "lk \<noteq> complete_key K"
  shows "opens_nothing K (renew_script (ks_ops R) lk h ttl)"
    and "\<not> store_key K fk \<Longrightarrow> fk \<noteq> complete_key K \<Longrightarrow> opens_nothing K (acquire_script (ks_ops R) lk fk h ttl)"
  unfolding renew_script_def acquire_script_def ks_ops_simps
  using assms
  by (auto intro!: opens_nothing_bind opens_nothing_ret opens_nothing_read [OF read_commands(1)]
      opens_nothing_other [OF one_key_commands(1)] opens_nothing_other [OF one_key_commands(3)]
      opens_nothing_other [OF one_key_commands(5)] split: option.splits)

lemma gate_renew:
  "px_ok ttl \<Longrightarrow> \<not> store_key K lk \<Longrightarrow> lk \<noteq> complete_key K \<Longrightarrow> keeps (gate R view K c) (invoke R (renew_script R lk h ttl))"
  by (rule gate_script [OF renew_sim lease_opens_nothing(1)])

lemma gate_acquire:
  assumes "px_ok (ttl_ms (Some ttl))" and "\<not> store_key K lk" and "lk \<noteq> complete_key K" and "\<not> store_key K fk" and "fk \<noteq> complete_key K"
  shows "keeps (gate R view K c) (try_acquire_async R rfc3339 name lk fk h ttl)"
  unfolding try_acquire_async_def Let_def
  by (intro keeps_intros gate_script [OF acquire_sim lease_opens_nothing(2)] assms)

lemma gate_sweep: "pkeeps (gate R view K c) (sweep R K)"
proof -
  have "yields (gate R view K c) (map_err redis_err (cbind (invoke R (redis_zrangebyscore R (expiry_key K) NegInf hi lim))
      (as_strings R))) (\<lambda>ks. \<forall>k \<in> set ks. data_key K k)" for hi lim
    unfolding invoke_def
  proof (intro yields_map_err yields_filter gate_yields)
    fix s x
    assume s: "marks_right K c (view s)"
    note run = zrangebyscore_sim [of "expiry_key K" NegInf hi lim]
    from run show "marks_right K c (view (snd (redis_zrangebyscore R (expiry_key K) NegInf hi lim s)))"
      using s by (simp add: sim_view read_commands)
    assume "fst (redis_zrangebyscore R (expiry_key K) NegInf hi lim s) = Inr x"
    with run have "fst (ks_zrangebyscore (expiry_key K) NegInf (dbl_bound hi) lim (view s)) = Inr x" by (simp add: sim_reply)
    then have "set x \<subseteq> members (view s) (expiry_key K)" by (rule zrange_members)
    with s show "\<forall>k \<in> set x. data_key K k" by (auto simp: marks_right_def kv_wf_def)
  qed (auto simp: as_strings_def)
  then show ?thesis
    unfolding sweep_def sweep_turn_def Let_def
    by (intro keeps_intros keeps_after gate_script [OF sweep_lua_sim upkeep_opens_nothing(1)])
qed

text \<open>The mark: removing it, reading it, and setting it when the index is complete.\<close>

lemma gate_unmark: "keeps (gate R view K c) (snd (invalidate_index R K))"
proof -
  have "opens_nothing K (ks_del (complete_key K))"
    using unopened_unmark by (auto simp: opens_nothing_def ks_del_def unopened_def)
  from gate_script [OF del_sim this] show ?thesis
    unfolding invalidate_index_def snd_conv by (intro keeps_intros)
qed

lemma gate_mark: "keeps (gate R view K True) (mark_index_complete R K t)"
proof -
  have "sim view (redis_set R (complete_key K) x False None) (ks_set (complete_key K) x False None)" for x
    by (rule set_sim) (simp add: px_opt_ok_def)
  then have "view (snd (redis_set R (complete_key K) x False None s)) = ks_put (complete_key K) (Some (RStr x, None)) (view s)" for x s
    by (subst sim_view) (auto simp: ks_set_def)
  then have "keeps (gate R view K True) (invoke R (redis_set R (complete_key K) x False None))" for x
    unfolding invoke_def by (intro gate_trip gate_exec) (simp add: marks_right_mark)
  then show ?thesis unfolding mark_index_complete_def by (intro keeps_intros)
qed

lemma gate_marked:
  assumes "gate R view K c w" and "index_complete R K w = (Inr True, u)"
  shows "gate R view K c u" and "kv_complete K (view (server u))"
proof -
  show "gate R view K c u"
    using keepsD [of "gate R view K c" "index_complete R K", OF _ assms(1)] assms(2)
    unfolding index_complete_def by (simp add: keeps_intros)
  let ?s = "case env w of [] \<Rightarrow> server w | e # _ \<Rightarrow> e (server w)"
  have s: "marks_right K c (view ?s)"
    using assms(1) by (auto simp: gate_def stable_def split: list.splits)
  obtain n where n: "redis_exists R (complete_key K) ?s = (Inr n, server u)" "0 < n"
    using assms(2)
    by (auto simp: index_complete_def invoke_def round_trip_def exec_def Let_def cbind_def map_err_def ret_def
        split: list.splits link.splits prod.splits sum.splits)
  from simD [OF exists_sim n(1)] have "live (view ?s) (complete_key K)" "view (server u) = view ?s"
    using n(2) by (auto simp: ks_exists_def live_def split: if_splits option.splits)
  with s show "kv_complete K (view (server u))" by (auto simp: marks_right_def)
qed

end

context scan_server
begin

lemma gate_scan [keeps_intros]: "keeps (gate R view K c) (invoke R (redis_scan R cur pat cnt))"
proof -
  have "view (snd (redis_scan R cur pat cnt s)) = view s" for s using scan_view by (metis prod.collapse)
  then show ?thesis unfolding invoke_def by (intro gate_trip gate_exec) simp
qed

lemma gate_listing:
  assumes "\<not> store_key K (peers_index_key pfx)" and "peers_index_key pfx \<noteq> complete_key K"
  shows "pkeeps (gate R view K c) (list_registrations R J pfx legacy)"
proof -
  have rd: "keeps (gate R view K c) (read_registrations R J pfx keys)" for keys
    unfolding read_registrations_def by (intro keeps_intros)
  have sc: "pkeeps (gate R view K c) (loop (peer_scan_turn R pat) a)" for pat a
    unfolding peer_scan_turn_def by (intro keeps_intros)
  have "pkeeps (gate R view K c) (legacy_registrations R J pfx legacy)"
    unfolding legacy_registrations_def Let_def
    by (intro pkeeps_preading) (auto split: option.splits intro!: keeps_intros rd sc)
  with assms rd show ?thesis
    unfolding list_registrations_def current_ids_def by (intro keeps_intros) simp_all
qed

lemma gate_backfill: "pkeeps (gate R view K c) (backfill_index R K)"
proof -
  have pass: "cbind (as_strings R b) (\<lambda>ks. ret (n, ks)) = ret (n, b) \<or>
      (\<exists>e. cbind (as_strings R b) (\<lambda>ks. ret (n, ks)) = raise e)" for b and n :: nat
    by (cases "list_all valid_utf8 b") (simp_all add: as_strings_def cbind_def ret_def raise_def fun_eq_iff)
  have y: "yields (gate R view K c) (scan_keys R cur (backfill_pattern K)) (\<lambda>(nxt, ks). \<forall>k \<in> set ks. data_key K k)" for cur
    unfolding scan_keys_def invoke_def
  proof (intro yields_map_err yields_filter gate_yields)
    fix s x
    assume "marks_right K c (view s)"
    then show "marks_right K c (view (snd (redis_scan R cur (backfill_pattern K) SCAN_COUNT s)))"
      using scan_view [of cur "backfill_pattern K" SCAN_COUNT s] by (metis prod.collapse)
    assume "fst (redis_scan R cur (backfill_pattern K) SCAN_COUNT s) = Inr x"
    then show "case x of (nxt, ks) \<Rightarrow> \<forall>k \<in> set ks. data_key K k"
      using scan_found [of cur "backfill_pattern K" SCAN_COUNT s "fst x" "snd x"]
      by (cases "redis_scan R cur (backfill_pattern K) SCAN_COUNT s") (auto simp: backfill_matches)
  qed (use pass in auto)
  have "keeps (gate R view K c) (backfill_turn R K (backfill_pattern K) a)" for a
    unfolding backfill_turn_def Let_def
    by (cases a; simp only: prod.case; rule keeps_after [OF y])
       (auto intro!: keeps_intros gate_script [OF backfill_lua_sim upkeep_opens_nothing(2)])
  then show ?thesis unfolding backfill_index_def Let_def backfill_pattern_def by (intro keeps_intros)
qed

text \<open>A gate stands for a complete index as soon as the index is complete: nobody takes keys out of it.\<close>

lemma gate_raise:
  assumes "gate R view K b w" and "c \<longrightarrow> kv_complete K (view (server w))"
  shows "gate R view K c w"
proof -
  have "marks_right K c (view (e s))" if e: "e \<in> set (env w)" and s: "marks_right K c (view s)" for e s
  proof -
    have "(server_step R K)\<^sup>*\<^sup>* s (e s)" using assms(1) e by (simp add: gate_def others_ok_def)
    then have "kv_wf K (view (e s)) \<and> unlisted K (view (e s)) \<subseteq> unlisted K (view s)"
      using s by (induction rule: rtranclp_induct) (auto simp: marks_right_def dest: step_store)
    moreover have "marks_right K False (view (e s))"
      using assms(1) e marks_right_less [OF s] by (auto simp: gate_def stable_def)
    ultimately show ?thesis using s by (auto simp: marks_right_def kv_complete_unlisted)
  qed
  with assms show ?thesis by (auto simp: gate_def stable_def marks_right_def)
qed

lemma gate_backfilled:
  assumes "gate R view K c w" and "backfill_index R K w = Some (Inr n, u)"
  shows "gate R view K True u"
proof -
  have w: "others_ok R K w" "kv_wf K (view (server w))"
    using assms(1) by (auto simp: gate_def stable_def marks_right_def)
  then show ?thesis
    using gate_raise [OF pkeepsD [OF gate_backfill assms(1,2)]] backfill_complete [OF w assms(2)] by simp
qed

end

lemma gate_less: "gate R view K c w \<Longrightarrow> gate R view K False w"
  by (simp add: gate_def)

lemma gate_complete: "gate R view K True w \<Longrightarrow> kv_complete K (view (server w))"
  by (simp add: gate_def stable_def marks_right_def)

end
