(* ===== verification/Index_Trust.thy ===== *)
theory Index_Trust
  imports Index_Gate
begin

section \<open>Replicas that trust the index\<close>

text \<open>
  The gate, on a whole instance: \<open>sound\<close> says that the instance is well-formed and that its readiness
  flag is set only over a complete index. A tick of the maintenance task and \<open>complete_key_index\<close> keep
  it, whatever the links and the other replicas do.
\<close>

subsection \<open>The flag is not part of the names\<close>

lemma set_ready_twice [simp]: "set_index_ready (set_index_ready K b) c = set_index_ready K c"
  and set_ready_same [simp]: "set_index_ready K (index_ready K) = K"
  and set_ready_fields [simp]: "index_ready (set_index_ready K b) = b" "key_prefix (set_index_ready K b) = key_prefix K"
    "index_key (set_index_ready K b) = index_key K" "expiry_key (set_index_ready K b) = expiry_key K"
    "complete_key (set_index_ready K b) = complete_key K" "full_key (set_index_ready K b) = full_key K"
  by (simp_all add: set_index_ready_def full_key_def fun_eq_iff)

lemma flag_free [simp]:
  "data_key (set_index_ready K b) = data_key K" "store_key (set_index_ready K b) = store_key K"
  "unlisted (set_index_ready K b) = unlisted K" "kv_wf (set_index_ready K b) = kv_wf K"
  "marks_right (set_index_ready K b) = marks_right K" "run_event R (set_index_ready K b) e = run_event R K e"
proof -
  show dk: "data_key (set_index_ready K b) = data_key K" by (simp add: data_key_def fun_eq_iff)
  show st: "store_key (set_index_ready K b) = store_key K" by (simp add: store_key_def fun_eq_iff dk)
  show un: "unlisted (set_index_ready K b) = unlisted K" by (simp add: unlisted_def fun_eq_iff dk)
  show wf: "kv_wf (set_index_ready K b) = kv_wf K" by (simp add: kv_wf_def keys_apart_ready fun_eq_iff dk)
  show "marks_right (set_index_ready K b) = marks_right K"
    by (simp add: marks_right_def kv_complete_unlisted fun_eq_iff wf un)
  show "run_event R (set_index_ready K b) e = run_event R K e" by (cases e) simp_all
qed

lemma step_flag: "server_step R (set_index_ready K b) s t \<Longrightarrow> server_step R K s t"
  by (induction rule: server_step.induct) (auto intro: server_step.intros)

lemma gate_flag [simp]: "gate R view (set_index_ready K b) = gate R view K"
proof -
  have "server_step R (set_index_ready K b) = server_step R K"
    using step_flag [of R K b] step_flag [of R "set_index_ready K b" "index_ready K"] by (auto simp: fun_eq_iff)
  then have "others_ok R (set_index_ready K b) = others_ok R K" by (simp only: others_ok_def [abs_def])
  then show ?thesis by (simp add: gate_def [abs_def])
qed

lemma gate_names: "kv_names cfg K \<Longrightarrow> gate R view K = gate R view (with_connection_manager (cfg_key_prefix cfg))"
  by (auto simp: kv_names_def)

subsection \<open>Sound instances\<close>

definition sound :: "'s redis \<Rightarrow> ('s \<Rightarrow> keyspace) \<Rightarrow> redis_backend_config \<Rightarrow> 's replica \<Rightarrow> bool" where
  "sound R view cfg S \<longleftrightarrow> inst cfg S \<and> gate R view (with_connection_manager (cfg_key_prefix cfg)) (ready_now (fst S)) (snd S)"

text \<open>A held sweep lock is this prefix's, with a lifetime Redis takes.\<close>

definition lock_ok :: "redis_backend_config \<Rightarrow> maintenance \<Rightarrow> bool" where
  "lock_ok cfg M \<longleftrightarrow> (\<forall>st. held_lease M = Some st \<longrightarrow>
     lease_key st = fst (lease_keys (cfg_key_prefix cfg) ''locks'' SWEEP_LOCK) \<and> px_ok (lease_ttl_ms st))"

lemma soundI:
  "inst cfg S \<Longrightarrow> kv_names cfg K \<Longrightarrow> gate R view K (ready_now (fst S)) (snd S) \<Longrightarrow> sound R view cfg S"
  by (simp add: sound_def gate_names)

lemma soundD:
  assumes "sound R view cfg S"
  shows "inst cfg S" and "kv_names cfg K \<Longrightarrow> gate R view K (ready_now (fst S)) (snd S)"
  using assms by (simp_all add: sound_def gate_names)

lemma ready_now_simps [simp]:
  "ready_now (I\<lparr>peer_scan := p\<rparr>) = ready_now I"
  "ready_now (set_kv K I) \<longleftrightarrow> primitives I \<noteq> None \<and> index_ready K"
  by (simp_all add: ready_now_def key_value_store_def set_kv_def split: option.splits)

lemma fresh_names: "kv_names cfg (with_connection_manager (cfg_key_prefix cfg))"
  unfolding kv_names_def by (rule exI [of _ False]) (simp add: set_index_ready_def with_connection_manager_def)

lemma prefix_set: "inst cfg S \<Longrightarrow> cfg_key_prefix cfg \<noteq> []"
  by (auto simp: inner_wf_def validate_def split: if_splits)

lemma conn_ready: "get_or_init_conn R S = (r, T) \<Longrightarrow> ready_now (fst T) \<Longrightarrow> ready_now (fst S)"
  by (auto simp: get_or_init_conn_def populate_def ready_now_def key_value_store_def with_connection_manager_def
      split: prod.splits if_splits option.splits sum.splits)

lemma lock_lifetime:
  assumes "kv_sweep_interval_ms cfg < 2 ^ 52"
  shows "px_ok (ttl_ms (Some (min (tick_interval cfg * 2) duration_max)))"
proof -
  define n where "n = unat (if sweeps cfg then kv_sweep_interval_ms cfg else IDLE_INTERVAL_MS)"
  have "n < 2 ^ 52" using unat_mono [OF assms] by (simp add: n_def IDLE_INTERVAL_MS_def)
  moreover have "tick_interval cfg = n * 1000000" by (simp add: tick_interval_def n_def)
  ultimately show ?thesis by (simp add: duration_max_def ttl_ms_def px_ok_def)
qed

subsection \<open>A tick, piece by piece\<close>

lemma keep_lock_seen: "keep_lock R rfc3339 (M, I, w) = (b, M', T) \<Longrightarrow> unindexed_seen M' = unindexed_seen M"
  by (auto simp: keep_lock_def Let_def split: option.splits prod.splits sum.splits)

lemma acquired_lease:
  assumes "try_acquire_async R rfc3339 name lk fk h ns u = (Inr (Some st), x)"
  shows "lease_key st = lk" and "lease_ttl_ms st = ttl_ms (Some ns)"
  using assms
  by (auto simp: try_acquire_async_def Let_def cbind_def reading_def ret_def raise_def map_err_def
      split: if_splits prod.splits sum.splits option.splits)

lemma renewed_lease:
  "renew_state R rfc3339 st w = (q, st', u) \<Longrightarrow> (u = w \<and> q = Inl LeaseExpired \<or>
   snd (invoke R (renew_script R (lease_key st) (holder st) (lease_ttl_ms st)) w) = u) \<and>
   lease_key st' = lease_key st \<and> lease_ttl_ms st' = lease_ttl_ms st"
  by (auto simp: renew_state_def split: if_splits prod.splits sum.splits)

lemma required:
  assumes "require_kv R S = (Inr K, T)"
  shows "key_value_store (fst T) = Some K" and "get_or_init_conn R T = (Inr (), T)"
  using assms
  by (auto simp: require_kv_def cbind_def with_inner_def ret_def raise_def get_or_init_conn_def populate_def key_value_store_def
      split: prod.splits sum.splits option.splits if_splits)

text \<open>The call, once the store is there and the peers are known.\<close>

lemma complete_key_index_runs:
  assumes "require_kv R S = (Inr K, (I, w))"
  defines "F \<equiv> (I\<lparr>peer_scan := forget (peer_scan I)\<rparr>, w)"
  shows "on_peer_scan (list_registrations R J) F = None \<Longrightarrow> complete_key_index R J S = None"
    and "on_peer_scan (list_registrations R J) F = Some (Inl e, T) \<Longrightarrow> complete_key_index R J S = Some (Inl e, T)"
    and "on_peer_scan (list_registrations R J) F = Some (Inr regs, T) \<Longrightarrow> unindexed_peer regs \<Longrightarrow>
      complete_key_index R J S = Some (Inl (Precondition ''a peer that does not write the key index is registered''), T)"
    and "on_peer_scan (list_registrations R J) F = Some (Inr regs, (I', x)) \<Longrightarrow> \<not> unindexed_peer regs \<Longrightarrow>
      complete_key_index R J S = (case backfill_index R K x of
          None \<Rightarrow> None
        | Some (Inl e, y) \<Rightarrow> Some (Inl e, (I', y))
        | Some (Inr n, y) \<Rightarrow> (case mark_index_complete R K (nat (now_ms x)) y of
              (Inl e, z) \<Rightarrow> Some (Inl e, (I', z))
            | (Inr _, z) \<Rightarrow> Some (Inr n, (set_kv (set_index_ready K True) I', z))))"
  using required(2) [OF assms(1)] assms(1)
  by (simp_all add: complete_key_index_def pbind_def pure_def update_inner_def preading_def pon_world_def on_world_def
      cbind_def ret_def raise_def F_def split: option.splits prod.splits sum.splits)

context scan_server
begin

lemma sound_conn:
  assumes "sound R view cfg S" and "get_or_init_conn R S = (r, T)"
  shows "sound R view cfg T"
proof -
  let ?K = "with_connection_manager (cfg_key_prefix cfg)"
  have T: "inst cfg T" using keepsD [OF keeps_conn soundD(1) [OF assms(1)], of R] assms(2) by simp
  have "gate R view ?K (ready_now (fst S)) (snd S)" by (rule soundD(2) [OF assms(1) fresh_names])
  then have g: "gate R view ?K (ready_now (fst S)) (snd T)"
    by (rule gate_fields [rotated 2]) (use conn_up [of R "fst S" "snd S" r "fst T" "snd T"] assms(2) in auto)
  have "gate R view ?K (ready_now (fst T)) (snd T)"
    using g gate_less [OF g] conn_ready [OF assms(2)] by (cases "ready_now (fst T)") auto
  with T show ?thesis by (simp add: sound_def)
qed

lemma gate_peer_scan:
  assumes i: "inst cfg S" and K: "kv_names cfg K" and "gate R view K c (snd S)"
    and "on_peer_scan (list_registrations R J) S = Some (r, T)"
  shows "gate R view K c (snd T)" and "ready_now (fst T) = ready_now (fst S)" and "primitives (fst T) = primitives (fst S)"
proof -
  obtain I w where S: "S = (I, w)" by (cases S)
  obtain lk fk where lk: "lease_keys (cfg_key_prefix cfg) ''locks'' SWEEP_LOCK = (lk, fk)" by (simp add: lease_keys_def)
  note apart = names_apart [OF K prefix_set [OF i] lk]
  from assms(4) S obtain q u where q: "list_registrations R J (cfg_key_prefix cfg) (peer_scan I) w = Some (q, u)"
    and T: "snd T = u" "ready_now (fst T) = ready_now I" "primitives (fst T) = primitives I"
    using i by (auto simp: on_peer_scan_def split: option.splits prod.splits sum.splits)
  show "ready_now (fst T) = ready_now (fst S)" "primitives (fst T) = primitives (fst S)" using T S by simp_all
  show "gate R view K c (snd T)" using pkeepsD [OF gate_listing [OF apart(1,2)] _ q] assms(3) S T(1) by simp
qed

lemma sound_listing:
  assumes "sound R view cfg S" and "on_peer_scan (list_registrations R J) S = Some (r, T)"
  shows "sound R view cfg T"
  using gate_peer_scan [OF soundD(1) [OF assms(1)] fresh_names soundD(2) [OF assms(1) fresh_names] assms(2)]
    pkeepsD [OF pkeeps_peer_scan soundD(1) [OF assms(1)] assms(2)]
  by (simp add: sound_def)

lemma sound_gate_index:
  assumes "sound R view cfg S" and "kv_names cfg K"
  shows "sound R view cfg (gate_index R K b S)"
proof (rule soundI [OF gate_index_keeps [OF soundD(1) [OF assms(1)] assms(2)] assms(2)])
  obtain I w where S: "S = (I, w)" by (cases S)
  have g: "gate R view K (ready_now I) w" using soundD(2) [OF assms] S by simp
  show "gate R view K (ready_now (fst (gate_index R K b S))) (snd (gate_index R K b S))"
  proof (cases b)
    case True
    then show ?thesis using gate_less [OF keepsD [OF gate_unmark g]] S by (simp add: gate_index_def invalidate_index_def)
  next
    case False
    obtain r u where r: "index_complete R K w = (r, u)" by (metis prod.exhaust)
    have u: "gate R view K (ready_now I) u"
      using keepsD [of "gate R view K (ready_now I)" "index_complete R K", OF _ g] r
      unfolding index_complete_def by (simp add: keeps_intros)
    show ?thesis
    proof (cases "r = Inr True")
      case True
      with gate_raise [OF u] gate_marked(2) [OF g] gate_less [OF u] False r S show ?thesis by (simp add: gate_index_def)
    next
      case False
      then have "(\<exists>e. r = Inl e) \<or> r = Inr False" by (cases r) auto
      with u gate_less [OF u] \<open>\<not> b\<close> r S show ?thesis by (auto simp: gate_index_def)
    qed
  qed
qed

lemma sound_keep_lock:
  assumes "sound R view cfg (I, w)" and "lock_ok cfg M" and "kv_sweep_interval_ms cfg < 2 ^ 52"
    and "keep_lock R rfc3339 (M, I, w) = (b, M', T)"
  shows "sound R view cfg T \<and> lock_ok cfg M'"
proof -
  let ?K = "with_connection_manager (cfg_key_prefix cfg)" and ?c = "ready_now I"
  note i = soundD(1) [OF assms(1)]
  obtain lk fk where lk: "lease_keys (cfg_key_prefix cfg) ''locks'' SWEEP_LOCK = (lk, fk)" by (simp add: lease_keys_def)
  note apart = names_apart [OF fresh_names prefix_set [OF i] lk]
  have g: "gate R view ?K ?c w" using soundD(2) [OF assms(1) fresh_names] by simp
  let ?ns = "min (tick_interval cfg * 2) duration_max"
  have px: "px_ok (ttl_ms (Some ?ns))" by (rule lock_lifetime [OF assms(3)])
  have acq: "gate R view ?K ?c x \<and> (\<forall>st. q = Inr (Some st) \<longrightarrow> lease_key st = lk \<and> px_ok (lease_ttl_ms st))"
    if "gate R view ?K ?c u" "try_acquire_async R rfc3339 SWEEP_LOCK lk fk (inner_node_id I) ?ns u = (q, x)" for u q x
  proof -
    have "gate R view ?K ?c x"
      using keepsD [OF gate_acquire [OF px apart(3-6)] that(1), of rfc3339 SWEEP_LOCK "inner_node_id I"] that(2) by simp
    moreover have "lease_key st = lk \<and> px_ok (lease_ttl_ms st)" if "q = Inr (Some st)" for st
      using acquired_lease [of R rfc3339 SWEEP_LOCK lk fk "inner_node_id I" ?ns u st x] that px
        \<open>try_acquire_async R rfc3339 SWEEP_LOCK lk fk (inner_node_id I) ?ns u = (q, x)\<close> by simp
    ultimately show ?thesis by blast
  qed
  obtain h u where h: "(case held_lease M of None \<Rightarrow> (None, w)
      | Some st \<Rightarrow> (case renew_state R rfc3339 st w of (Inl e, st', u) \<Rightarrow> (None, u) | (Inr x, st', u) \<Rightarrow> (Some st', u))) = (h, u)"
    by (rule prod.exhaust)
  have ren: "gate R view ?K ?c u \<and> (\<forall>st. h = Some st \<longrightarrow> lease_key st = lk \<and> px_ok (lease_ttl_ms st))"
  proof (cases "held_lease M")
    case (Some st)
    obtain q st' y where r: "renew_state R rfc3339 st w = (q, st', y)" by (metis prod.exhaust)
    have st: "lease_key st = lk" "px_ok (lease_ttl_ms st)" using Some assms(2) lk by (auto simp: lock_ok_def)
    have "u = y" "h = Some st' \<and> q \<noteq> Inl LeaseExpired \<or> h = None" using h Some r by (auto split: sum.splits)
    with renewed_lease [OF r] st g keepsD [OF gate_renew [OF st(2) apart(3,4)] g, of "holder st"] show ?thesis by auto
  qed (use h g in simp)
  show ?thesis
  proof (cases h)
    case (Some st)
    with assms(4) have "M' = M\<lparr>held_lease := Some st\<rparr>" "T = (I, u)" unfolding keep_lock_def prod.case h by auto
    with Some ren i lk show ?thesis by (simp add: sound_def lock_ok_def)
  next
    case None
    obtain q x where q: "try_acquire_async R rfc3339 SWEEP_LOCK lk fk (inner_node_id I) ?ns u = (q, x)" by (metis prod.exhaust)
    have cfg: "config I = cfg" using i by simp
    have "keep_lock R rfc3339 (M, I, w) = (case q of Inr (Some st) \<Rightarrow> (True, M\<lparr>held_lease := Some st\<rparr>, I, x)
        | _ \<Rightarrow> (False, M\<lparr>held_lease := None\<rparr>, I, x))"
      unfolding keep_lock_def prod.case h None option.case cfg lk q ..
    with assms(4) have T: "T = (I, x)" and held: "\<forall>st. held_lease M' = Some st \<longrightarrow> q = Inr (Some st)"
      by (auto split: sum.splits option.splits)
    have "lock_ok cfg M'" unfolding lock_ok_def lk fst_conv using acq [OF _ q] ren held by blast
    moreover have "gate R view ?K ?c x" using acq [OF _ q] ren by blast
    ultimately show ?thesis using T i by (simp add: sound_def)
  qed
qed

lemma sound_marked:
  assumes "inst cfg (I, x)" and K: "kv_names cfg K" and "gate R view K True x"
    and "mark_index_complete R K t x = (r, y)"
  shows "sound R view cfg (I, y)" and "sound R view cfg (set_kv (set_index_ready K True) I, y)"
proof -
  have y: "gate R view K True y" using keepsD [OF gate_mark assms(3)] assms(4) by (metis snd_conv)
  have c: "gate R view K c y" for c by (rule gate_raise [OF y]) (simp add: gate_complete [OF y])
  have "inst cfg (I, y)" "inst cfg (set_kv (set_index_ready K True) I, y)"
    using assms(1) inner_wf_set_kv [of I "set_index_ready K True"] kv_names_mark [OF K] by auto
  with c K show "sound R view cfg (I, y)" "sound R view cfg (set_kv (set_index_ready K True) I, y)"
    by (auto intro!: soundI)
qed

lemma sound_complete_index:
  assumes s: "sound R view cfg S" and K: "kv_names cfg K" and "complete_index R J K S = Some T"
  shows "sound R view cfg T"
proof -
  obtain I w where S: "S = (I, w)" by (cases S)
  have g: "gate R view K (ready_now I) w" using soundD(2) [OF s K] S by simp
  obtain q u where q: "backfill_index R K w = Some (q, u)"
    using assms(3) S by (auto simp: complete_index_def split: option.splits)
  have i: "inst cfg (I, u)" using soundD(1) [OF s] S by simp
  show ?thesis
  proof (cases q)
    case (Inl e)
    with assms(3) S q have "T = (I, u)" by (simp add: complete_index_def)
    with i pkeepsD [OF gate_backfill g q] K show ?thesis by (auto intro: soundI)
  next
    case (Inr n)
    let ?F = "(I\<lparr>peer_scan := forget (peer_scan I)\<rparr>, u)"
    have u: "gate R view K True u" using gate_backfilled [OF g] q Inr by blast
    from assms(3) S q Inr obtain p U where p: "on_peer_scan (list_registrations R J) ?F = Some (p, U)"
      and T: "T = U \<or> (\<exists>r y. mark_index_complete R K (nat (now_ms w)) (snd U) = (r, y) \<and>
        (T = (fst U, y) \<or> T = (set_kv (set_index_ready K True) (fst U), y)))"
      by (fastforce simp: complete_index_def Let_def split: option.splits prod.splits sum.splits if_splits)
    have F: "inst cfg ?F" using i by simp
    have U: "gate R view K True (snd U)" using gate_peer_scan(1) [OF F K _ p] u by simp
    have iU: "inst cfg U" using pkeepsD [OF pkeeps_peer_scan F p] .
    have "sound R view cfg U"
      by (rule soundI [OF iU K gate_raise [OF U]]) (simp add: gate_complete [OF U])
    with T sound_marked [OF _ K U, of "fst U"] iU show ?thesis by auto
  qed
qed

lemma sound_tick_work:
  assumes s: "sound R view cfg S" and K: "kv_names cfg K" and "tick_work R J K b M S = Some (M', T)"
  shows "sound R view cfg T" and "M' = M"
proof -
  obtain I w where S: "S = (I, w)" by (cases S)
  obtain u where u: "(if sweeps (config I) then map_option snd (sweep R K w) else Some w) = Some u"
    and T: "complete_index R J K (I, u) = Some T \<or> T = (I, u)" and M: "M' = M"
    using assms(3) S by (auto simp: tick_work_def Let_def split: option.splits if_splits)
  show "M' = M" by (rule M)
  have g: "gate R view K (ready_now I) w" using soundD(2) [OF s K] S by simp
  have "gate R view K (ready_now I) u" using u g pkeepsD [OF gate_sweep g] by (auto split: if_splits)
  then have "sound R view cfg (I, u)" using soundD(1) [OF s] S K by (auto intro: soundI)
  with T sound_complete_index [OF _ K] show "sound R view cfg T" by blast
qed

lemma sound_tick:
  assumes s: "sound R view cfg S" and l: "lock_ok cfg M" and t: "kv_sweep_interval_ms cfg < 2 ^ 52"
    and tick: "maintenance_tick R J rfc3339 (M, S) = Some (M', T)"
  shows "sound R view cfg T \<and> lock_ok cfg M'"
proof -
  obtain r U where c: "get_or_init_conn R S = (r, U)" by (metis prod.exhaust)
  have U: "sound R view cfg U" by (rule sound_conn [OF s c])
  show ?thesis
  proof (cases "\<exists>K regs V. r = Inr () \<and> key_value_store (fst U) = Some K \<and>
      on_peer_scan (list_registrations R J) U = Some (Inr regs, V)")
    case True
    then obtain K regs V where k: "r = Inr ()" "key_value_store (fst U) = Some K"
      "on_peer_scan (list_registrations R J) U = Some (Inr regs, V)" by blast
    have K: "kv_names cfg K" using kv_names_store [of "fst U" K] soundD(1) [OF U] k(2) by auto
    let ?b = "unindexed_peer regs"
    let ?G = "gate_index R K ?b V" and ?M = "if ?b then M\<lparr>unindexed_seen := Some (mono (snd V))\<rparr> else M"
    have G: "sound R view cfg ?G" by (rule sound_gate_index [OF sound_listing [OF U k(3)] K])
    have M: "lock_ok cfg ?M" using l by (simp add: lock_ok_def)
    obtain a M2 W where lk: "keep_lock R rfc3339 (?M, ?G) = (a, M2, W)" by (metis prod.exhaust)
    have W: "sound R view cfg W" "lock_ok cfg M2"
      using sound_keep_lock [of cfg "fst ?G" "snd ?G" ?M rfc3339 a M2 W] G M t lk by auto
    have "a \<Longrightarrow> tick_work R J K ?b M2 W = Some (M', T)" "\<not> a \<Longrightarrow> T = W \<and> M' = M2"
      using tick c k lk by (auto simp: maintenance_tick_def Let_def split: if_splits)
    with W sound_tick_work [OF W(1) K, of J ?b M2 M' T] show ?thesis by (cases a) simp_all
  next
    case False
    have "sound R view cfg V" if "on_peer_scan (list_registrations R J) U = Some (q, V)" for q V
      by (rule sound_listing [OF U that])
    with False U l tick c show ?thesis
      by (auto simp: maintenance_tick_def split: sum.splits option.splits prod.splits)
  qed
qed

subsection \<open>Completion on demand\<close>

lemma sound_require:
  assumes "sound R view cfg S" and "require_kv R S = (r, T)"
  shows "sound R view cfg T"
proof -
  obtain q U where c: "get_or_init_conn R S = (q, U)" by (metis prod.exhaust)
  have "T = U" using assms(2) c by (auto simp: require_kv_def cbind_def with_inner_def ret_def raise_def split: sum.splits option.splits)
  with sound_conn [OF assms(1) c] show ?thesis by simp
qed

lemma sound_complete_key_index:
  assumes s: "sound R view cfg S" and run: "complete_key_index R J S = Some (r, T)"
  shows "sound R view cfg T" and "r = Inr n \<Longrightarrow> ready_now (fst T)"
proof -
  obtain q I w where q: "require_kv R S = (q, (I, w))" by (metis prod.exhaust)
  have Iw: "sound R view cfg (I, w)" by (rule sound_require [OF s q])
  have "sound R view cfg T \<and> (\<forall>n. r = Inr n \<longrightarrow> ready_now (fst T))"
  proof (cases q)
    case (Inl e)
    with run q Iw show ?thesis by (auto simp: complete_key_index_def pbind_def pure_def)
  next
    case (Inr K)
    note runs = complete_key_index_runs [OF q [unfolded Inr], of J]
    let ?F = "(I\<lparr>peer_scan := forget (peer_scan I)\<rparr>, w)"
    have store: "key_value_store I = Some K" using required(1) q Inr by fastforce
    then have K: "kv_names cfg K" "primitives I \<noteq> None"
      using kv_names_store [of I K] soundD(1) [OF Iw] by (auto simp: key_value_store_def)
    have F: "sound R view cfg ?F" using Iw by (simp add: sound_def)
    obtain p U where p: "on_peer_scan (list_registrations R J) ?F = Some (p, U)"
      using runs(1) run by (cases "on_peer_scan (list_registrations R J) ?F") auto
    have U: "sound R view cfg U" by (rule sound_listing [OF F p])
    have prim: "primitives (fst U) \<noteq> None"
      using gate_peer_scan(3) [OF soundD(1) [OF F] K(1) soundD(2) [OF F K(1)] p] K(2) by simp
    show ?thesis
    proof (cases "\<exists>regs. p = Inr regs \<and> \<not> unindexed_peer regs")
      case False
      then have "T = U \<and> (\<exists>e. r = Inl e)" using runs(2,3) p run by (cases p) auto
      with U show ?thesis by auto
    next
      case True
      obtain I' x where I': "U = (I', x)" by (cases U)
      have g: "gate R view K (ready_now I') x" using soundD(2) [OF U K(1)] I' by simp
      obtain t y where b: "backfill_index R K x = Some (t, y)"
        using True p I' runs(4) run by (cases "backfill_index R K x") auto
      show ?thesis
      proof (cases t)
        case (Inl e)
        then have "T = (I', y)" "r = Inl e" using True p I' runs(4) run b by auto
        moreover have "sound R view cfg (I', y)"
          by (rule soundI [OF _ K(1)]) (use pkeepsD [OF gate_backfill g b] soundD(1) [OF U] I' in auto)
        ultimately show ?thesis by simp
      next
        case (Inr n)
        obtain m z where m: "mark_index_complete R K (nat (now_ms x)) y = (m, z)" by (metis prod.exhaust)
        have "(T = (I', z) \<and> (\<exists>e. r = Inl e)) \<or> T = (set_kv (set_index_ready K True) I', z)"
          using True p I' runs(4) run b Inr m by (cases m) auto
        moreover have y: "gate R view K True y" using gate_backfilled [OF g] b Inr by blast
        ultimately show ?thesis using sound_marked [OF _ K(1) y m, of I'] soundD(1) [OF U] I' prim by auto
      qed
    qed
  qed
  then show "sound R view cfg T" and "r = Inr n \<Longrightarrow> ready_now (fst T)" by simp_all
qed

end

end
