(* ===== verification/Index_Properties.thy ===== *)
theory Index_Properties
  imports Index_Trust
begin

section \<open>The key index and the fleet\<close>

text \<open>The properties of the maintenance task and of completion on demand, with concrete runs of both.\<close>

subsection \<open>Properties\<close>

text \<open>
  C35. A replica reads the key index only when the index misses no live key. In a fleet of
  index-writing replicas, where the mark in Redis stands only over a complete index and everybody else
  keeps it so, a tick of the maintenance task, whatever fails and whoever acts in between, keeps the
  mark right, and leaves the replica's readiness flag set only if every live key of the store is in the
  index.
\<close>

theorem tick_trusts_complete_index:
  assumes "scan_server R view matches" and "inner_wf I" and "K = with_connection_manager (inner_prefix I)"
    and "others_ok R K w" and "stable (marks_right K False \<circ> view) w"
    and "ready_now I \<longrightarrow> kv_complete K (view (server w))"
    and "lock_ok (config I) M" and "kv_sweep_interval_ms (config I) < 2 ^ 52"
    and "maintenance_tick R J rfc3339 (M, I, w) = Some (M', I', u)"
  shows "stable (marks_right K False \<circ> view) u \<and> lock_ok (config I) M' \<and>
    (ready_now I' \<longrightarrow> (\<forall>k. live (view (server u)) (full_key K k) \<longrightarrow> full_key K k \<in> members (view (server u)) (index_key K)))"
proof -
  have "gate R view K False w" using assms(4,5) by (simp add: gate_def)
  then have "sound R view (config I) (I, w)"
    using scan_server.gate_raise [OF assms(1)] assms(2,3,6) by (simp add: sound_def)
  from scan_server.sound_tick [OF assms(1) this assms(7-9)]
  have "gate R view K (ready_now I') u" and "lock_ok (config I) M'" by (simp_all add: sound_def assms(3))
  then show ?thesis by (auto simp: gate_def stable_def marks_right_def kv_complete_def)
qed

text \<open>
  C36. A peer that does not write the key index closes the gate: a tick whose peer list shows one
  leaves the readiness flag off, so that listings scan, whether or not Redis could be told, and
  remembers when it saw the peer.
\<close>

theorem unindexed_peer_closes_gate:
  assumes "get_or_init_conn R S = (Inr (), T)" and "on_peer_scan (list_registrations R J) T = Some (Inr regs, U)"
    and "(node, reg) \<in> set regs" and "\<not> reg_kv_index reg" and "maintenance_tick R J rfc3339 (M, S) = Some (M', V)"
  shows "\<not> ready_now (fst V) \<and> unindexed_seen M' = Some (mono (snd U))"
proof -
  have b: "unindexed_peer regs" using assms(3,4) by (auto simp: unindexed_peer_def list_ex_iff)
  obtain K where K: "key_value_store (fst T) = Some K"
    using conn_up(5) [of R "fst S" "snd S" "Inr ()" "fst T" "snd T"] assms(1) by auto
  let ?G = "gate_index R K True U" and ?M = "M\<lparr>unindexed_seen := Some (mono (snd U))\<rparr>"
  obtain a M2 W where lk: "keep_lock R rfc3339 (?M, ?G) = (a, M2, W)" by (metis prod.exhaust)
  have G: "\<not> ready_now (fst ?G)" by (auto simp: gate_index_def invalidate_index_def split: prod.splits)
  have W: "fst W = fst ?G" "unindexed_seen M2 = Some (mono (snd U))"
    using keep_lock_inner [of R rfc3339 ?M "fst ?G" "snd ?G"] keep_lock_seen [of R rfc3339 ?M "fst ?G" "snd ?G"] lk by auto
  have "a \<Longrightarrow> tick_work R J K True M2 W = Some (M', V)" "\<not> a \<Longrightarrow> V = W \<and> M' = M2"
    using assms(1,2,5) K b lk by (auto simp: maintenance_tick_def split: if_splits)
  moreover have "tick_work R J K True M2 W = Some (M', V) \<Longrightarrow> fst V = fst W \<and> M' = M2"
    by (auto simp: tick_work_def Let_def split: prod.splits option.splits if_splits)
  ultimately show ?thesis using W G by (cases a) auto
qed

text \<open>
  C37. Completion on demand: \<open>complete_key_index\<close> that reports success has turned listings to an index
  that misses no live key; one that fails leaves them where the index is right; and while a peer
  that does not write the index is registered, it is refused and writes nothing more.
\<close>

theorem complete_key_index_completes:
  assumes "scan_server R view matches" and "inner_wf I" and "K = with_connection_manager (inner_prefix I)"
    and "others_ok R K w" and "stable (marks_right K False \<circ> view) w"
    and "ready_now I \<longrightarrow> kv_complete K (view (server w))"
    and "complete_key_index R J (I, w) = Some (r, I', u)"
  shows "((\<exists>n. r = Inr n) \<longrightarrow> ready_now I') \<and>
    (ready_now I' \<longrightarrow> (\<forall>k. live (view (server u)) (full_key K k) \<longrightarrow> full_key K k \<in> members (view (server u)) (index_key K))) \<and>
    (\<forall>L J' x regs T. require_kv R (I, w) = (Inr L, (J', x)) \<and>
       on_peer_scan (list_registrations R J) (J'\<lparr>peer_scan := forget (peer_scan J')\<rparr>, x) = Some (Inr regs, T) \<and>
       unindexed_peer regs \<longrightarrow> (\<exists>reason. r = Inl (Precondition reason)) \<and> (I', u) = T)"
proof -
  have "gate R view K False w" using assms(4,5) by (simp add: gate_def)
  then have s: "sound R view (config I) (I, w)"
    using scan_server.gate_raise [OF assms(1)] assms(2,3,6) by (simp add: sound_def)
  note run = scan_server.sound_complete_key_index [OF assms(1) s assms(7)]
  from run(1) have "gate R view K (ready_now I') u" by (simp add: sound_def assms(3))
  then have "ready_now I' \<longrightarrow> (\<forall>k. live (view (server u)) (full_key K k) \<longrightarrow> full_key K k \<in> members (view (server u)) (index_key K))"
    by (auto simp: gate_def stable_def marks_right_def kv_complete_def)
  then show ?thesis using run(2) complete_key_index_runs(3) [of R "(I, w)"] assms(7) by auto
qed

subsection \<open>A run of the maintenance task\<close>

text \<open>
  A replica that comes up on a server with one key from before the index: its first tick takes the
  sweep lock (\<open>locked\<close>), backfills (\<open>indexed\<close>) and sets the mark (\<open>marked\<close>).
\<close>

definition idle_config :: redis_backend_config where
  "idle_config = (default_config ''redis://h'')\<lparr>cfg_key_prefix := ''p'', kv_sweep_interval_ms := 0\<rparr>"

definition idle_inner :: inner where
  "idle_inner = new_inner default_host 1000 idle_config"

definition up_inner :: "(nat \<times> registration list) option \<Rightarrow> bool \<Rightarrow> inner" where
  "up_inner l b = idle_inner\<lparr>conn_cell := True,
     primitives := Some \<lparr>kv_of = set_index_ready (with_connection_manager ''p'') b, bus_prefix = ''p''\<rparr>,
     peer_scan := \<lparr>max_age = min LEGACY_SCAN_INTERVAL 60000000000, last_scan = l\<rparr>\<rparr>"

definition locked :: ref_state where
  "locked = \<lparr>table = [(''p:a'', RStr ''1'', None), (''plocks/mcpg-kv-sweep'', RStr ''mcpg-h'', Some 60000),
     (''plocks/mcpg-kv-sweep:fence'', RStr ''1'', None)], log = []\<rparr>"

definition indexed :: ref_state where
  "indexed = \<lparr>table = table locked @ [(''p#kv-index'', RZset [(''p:a'', 0)], None)], log = []\<rparr>"

definition marked :: ref_state where
  "marked = \<lparr>table = table indexed @ [(''p#kv-index-complete'', RStr ''1000'', None)], log = []\<rparr>"

definition idle_lease :: lease_state where
  "idle_lease = \<lparr>lease_key = ''plocks/mcpg-kv-sweep'', holder = ''mcpg-h'', fence_token = 1, lease_ttl_ms = 60000,
     expires_text = ''t'', released = False, renewing = True\<rparr>"

lemmas run_defs = cbind_def map_err_def ret_def raise_def reading_def preading_def pbind_def pure_def invoke_def
  round_trip_def exec_def pass_time_def pipe2_def Let_def ref_world_def

lemmas ref_defs = ref_ops_def ref_read_def ref_cmd_def ref_view_def ref_write_def ks_command_defs score_range_def ks_simps
  old_key_def locked_def indexed_def marked_def

lemmas up_defs = up_inner_def idle_inner_def new_inner_def idle_config_def

lemma up_conn: "get_or_init_conn ref_ops (idle_inner, ref_world 1000 s) = (Inr (), up_inner None False, ref_world 1000 s)"
  by (simp add: get_or_init_conn_def up_defs run_defs populate_def set_index_ready_def with_connection_manager_def legacy_new_def
      default_config_def default_peer_ttl_ms_def)

lemma up_simps:
  "key_value_store (up_inner l b) = Some (set_index_ready (with_connection_manager ''p'') b)"
  "set_kv (set_index_ready (with_connection_manager ''p'') c) (up_inner l b) = up_inner l c"
  "ready_now (up_inner l b) = b" "\<not> sweeps (config (up_inner l b))"
  "(up_inner l b)\<lparr>peer_scan := forget (peer_scan (up_inner l b))\<rparr> = up_inner None b"
  "\<not> unindexed_peer []" "now_ms (ref_world 1000 s) = 1000"
  by (simp_all add: key_value_store_def up_defs set_kv_def ready_now_def sweeps_def forget_def unindexed_peer_def now_ms_def)

lemma no_reads: "read_registrations R J pfx [] w = (Inr [], w)"
  by (simp add: read_registrations_def ret_def)

lemma no_ids:
  "current_ids ref_ops ''p'' (ref_world 1000 old_key) = (Inr [], ref_world 1000 old_key)"
  "current_ids ref_ops ''p'' (ref_world 1000 locked) = (Inr [], ref_world 1000 locked)"
  "current_ids ref_ops ''p'' (ref_world 1000 indexed) = (Inr [], ref_world 1000 indexed)"
  by (simp_all add: current_ids_def run_defs ref_defs peers_index_key_def as_strings_def now_ms_def)

lemma no_legacy:
  "s = old_key \<or> s = locked \<or> s = indexed \<Longrightarrow>
   legacy_registrations ref_ops one_json ''p'' \<lparr>max_age = m, last_scan = None\<rparr> (ref_world 1000 s) =
     Some (Inr ([], \<lparr>max_age = m, last_scan = Some (0, [])\<rparr>), ref_world 1000 s)"
  by (elim disjE; simp add: legacy_registrations_def legacy_new_def run_defs loop.simps peer_scan_turn_def ref_scan
      old_key_def indexed_def locked_def peers_pattern_def glob.simps as_strings_def no_reads)

lemma no_peers:
  assumes "s = old_key \<or> s = locked \<or> s = indexed"
  shows "on_peer_scan (list_registrations ref_ops one_json) (up_inner None b, ref_world 1000 s) =
    Some (Inr [], up_inner (Some (0, [])) b, ref_world 1000 s)"
proof -
  have "current_ids ref_ops ''p'' (ref_world 1000 s) = (Inr [], ref_world 1000 s)" using assms no_ids by auto
  with no_legacy [OF assms] show ?thesis
    by (simp add: on_peer_scan_def list_registrations_def pbind_def pure_def no_reads up_defs ret_def)
qed

lemma not_marked:
  "index_complete ref_ops (set_index_ready (with_connection_manager ''p'') b) (ref_world 1000 old_key) =
     (Inr False, ref_world 1000 old_key)"
  by (simp add: index_complete_def run_defs ref_defs set_index_ready_def with_connection_manager_def)

lemma takes_lock:
  "try_acquire_async ref_ops (\<lambda>t. ''t'') SWEEP_LOCK ''plocks/mcpg-kv-sweep'' ''plocks/mcpg-kv-sweep:fence'' ''mcpg-h''
     60000000000 (ref_world 1000 old_key) = (Inr (Some idle_lease), ref_world 1000 locked)"
proof -
  have "\<not> blank SWEEP_LOCK" unfolding SWEEP_LOCK_def by (rule not_blank_ascii) (simp add: byte_in_def)
  moreover have one: "dec 1 = ''1''" by code_simp
  moreover have "parse_i64 ''1'' = Some 1" by (simp add: parse_i64_Some one in_i64_def)
  ultimately show ?thesis
    by (simp add: try_acquire_async_def run_defs ref_defs acquire_script_def lua_reply_def ttl_ms_def rfc3339_after_def in_i64_def idle_lease_def)
qed

lemma keeps_lock:
  "keep_lock ref_ops (\<lambda>t. ''t'') (\<lparr>held_lease = None, unindexed_seen = None\<rparr>, up_inner l b, ref_world 1000 old_key) =
     (True, \<lparr>held_lease = Some idle_lease, unindexed_seen = None\<rparr>, up_inner l b, ref_world 1000 locked)"
proof -
  have "\<not> blank ''h''" by (rule not_blank_ascii) (simp add: byte_in_def)
  then have "min (tick_interval (config (up_inner l b)) * 2) duration_max = 60000000000" "inner_node_id (up_inner l b) = ''mcpg-h''"
    "lease_keys (inner_prefix (up_inner l b)) ''locks'' SWEEP_LOCK = (''plocks/mcpg-kv-sweep'', ''plocks/mcpg-kv-sweep:fence'')"
    by (simp_all add: up_defs tick_interval_def sweeps_def IDLE_INTERVAL_MS_def duration_max_def resolved_node_id_def
        default_host_def default_config_def default_service_name_def lease_keys_def SWEEP_LOCK_def)
  then show ?thesis using takes_lock by (simp add: keep_lock_def)
qed

lemma backfills:
  "backfill_index ref_ops (set_index_ready (with_connection_manager ''p'') b) (ref_world 1000 locked) =
     Some (Inr 1, ref_world 1000 indexed)"
  by (simp add: backfill_index_def loop.simps backfill_turn_def scan_keys_def run_defs ref_scan glob.simps as_strings_def
      valid_utf8_ascii byte_in_def set_index_ready_def with_connection_manager_def backfill_lua_def backfill_one_def now_ms_def ref_defs)

lemma sets_mark:
  "mark_index_complete ref_ops (set_index_ready (with_connection_manager ''p'') b) 1000 (ref_world 1000 indexed) =
     (Inr (), ref_world 1000 marked)"
proof -
  have "dec 1000 = ''1000''" by code_simp
  then show ?thesis by (simp add: mark_index_complete_def run_defs ref_defs set_index_ready_def with_connection_manager_def)
qed

lemma first_tick:
  "maintenance_tick ref_ops one_json (\<lambda>t. ''t'') (\<lparr>held_lease = None, unindexed_seen = None\<rparr>, idle_inner, ref_world 1000 old_key) =
     Some (\<lparr>held_lease = Some idle_lease, unindexed_seen = None\<rparr>, up_inner (Some (0, [])) True, ref_world 1000 marked)"
  by (simp add: maintenance_tick_def up_conn up_simps no_peers gate_index_def not_marked keeps_lock tick_work_def
      complete_index_def backfills sets_mark)

lemma on_demand:
  "complete_key_index ref_ops one_json (idle_inner, ref_world 1000 locked) =
     Some (Inr 1, up_inner (Some (0, [])) True, ref_world 1000 marked)"
proof -
  have "require_kv ref_ops (idle_inner, ref_world 1000 locked) =
      (Inr (set_index_ready (with_connection_manager ''p'') False), (up_inner None False, ref_world 1000 locked))"
    by (simp add: require_kv_def cbind_def up_conn with_inner_def up_simps ret_def)
  from complete_key_index_runs(4) [OF this, of one_json] no_peers [of locked] backfills sets_mark
  show ?thesis by (simp add: up_simps)
qed

lemma idle_wf: "inner_wf idle_inner" "inner_prefix idle_inner = ''p''" "\<not> ready_now idle_inner"
proof -
  have "\<not> blank ''redis://h''" "\<not> blank default_service_name"
    by (auto simp: default_service_name_def byte_in_def intro!: not_blank_ascii)
  then show "inner_wf idle_inner" "inner_prefix idle_inner = ''p''" "\<not> ready_now idle_inner"
    by (simp_all add: idle_inner_def idle_config_def new_inner_def inner_wf_def validate_def default_config_def
        default_lease_ttl_ms_def default_peer_ttl_ms_def default_subscribe_pattern_buffer_def ready_now_def key_value_store_def)
qed

lemma locked_wf: "kv_wf (with_connection_manager ''p'') (ref_view locked)"
  unfolding kv_wf_def using keys_apart_prefix [of "''p''"]
  by (auto simp: ref_view_def locked_def with_connection_manager_def zset_ok_def all_scores_def str_slot_def
      members_def zset_at_def data_key_def full_key_def)

theorem tick_trusts_complete_index_witness:
  "ready_now (up_inner (Some (0, [])) True) \<and> live (ref_view marked) ''p:a'' \<and> ''p:a'' \<in> members (ref_view marked) ''p#kv-index''"
proof -
  let ?K = "with_connection_manager ''p''"
  have "stable (marks_right ?K False \<circ> ref_view) (ref_world 1000 old_key)"
    using old_key_facts(2) by (auto simp: stable_def marks_right_def live_def old_key_facts(1) with_connection_manager_def)
  from tick_trusts_complete_index [OF refscan.scan_server_axioms idle_wf(1) _ _ this _ _ _ first_tick]
  have "\<forall>k. live (ref_view marked) (full_key ?K k) \<longrightarrow> full_key ?K k \<in> members (ref_view marked) (index_key ?K)"
    using idle_wf(2,3) by (simp add: others_ok_def lock_ok_def up_simps idle_inner_def idle_config_def new_inner_def)
  moreover have "live (ref_view marked) ''p:a''" by (simp add: live_def ref_view_def marked_def indexed_def locked_def)
  ultimately show ?thesis
    by (auto simp: up_simps full_key_def with_connection_manager_def)
qed

theorem complete_key_index_completes_witness:
  "complete_key_index ref_ops one_json (idle_inner, ref_world 1000 locked) =
     Some (Inr 1, up_inner (Some (0, [])) True, ref_world 1000 marked) \<and> ready_now (up_inner (Some (0, [])) True)"
proof -
  have "stable (marks_right (with_connection_manager ''p'') False \<circ> ref_view) (ref_world 1000 locked)"
    using locked_wf by (auto simp: stable_def marks_right_def live_def ref_view_def locked_def with_connection_manager_def)
  from complete_key_index_completes [OF refscan.scan_server_axioms idle_wf(1) _ _ this _ on_demand]
  have "ready_now (up_inner (Some (0, [])) True)" using idle_wf(2,3) by (simp add: others_ok_def)
  with on_demand show ?thesis by simp
qed

text \<open>A node of an older build shows up, and the links fail right after the peer list.\<close>

definition old_json :: registration_json where
  "old_json = one_json\<lparr>reg_from_str := \<lambda>t. if t = ''{}'' then Some (one_reg\<lparr>reg_kv_index := False\<rparr>) else None\<rparr>"

definition old_peer :: "ref_state world" where
  "old_peer = (ref_world 1000 \<lparr>table = [(''ppeers/old'', RStr ''{}'', Some 5000)], log = []\<rparr>)
     \<lparr>links := [Up, Up, Up, Up, Refused ''down'', Refused ''down'']\<rparr>"

definition old_seen :: "registration list" where
  "old_seen = [(''old'', one_reg\<lparr>reg_kv_index := False\<rparr>)]"

lemma old_peer_conn:
  "get_or_init_conn ref_ops (idle_inner, old_peer) =
     (Inr (), up_inner None False, old_peer\<lparr>links := [Up, Up, Up, Refused ''down'', Refused ''down'']\<rparr>)"
  by (simp add: get_or_init_conn_def up_defs run_defs old_peer_def populate_def set_index_ready_def with_connection_manager_def
      legacy_new_def default_config_def default_peer_ttl_ms_def)

lemma old_peer_listed:
  "on_peer_scan (list_registrations ref_ops old_json) (up_inner None b, old_peer\<lparr>links := Up # Up # Up # ls\<rparr>) =
     Some (Inr old_seen, up_inner (Some (0, old_seen)) b, old_peer\<lparr>links := ls\<rparr>)"
proof -
  have ids: "current_ids ref_ops ''p'' (old_peer\<lparr>links := Up # Up # Up # ls\<rparr>) = (Inr [], old_peer\<lparr>links := Up # Up # ls\<rparr>)"
    by (simp add: current_ids_def run_defs ref_defs old_peer_def peers_index_key_def as_strings_def now_ms_def)
  have "legacy_registrations ref_ops old_json ''p'' \<lparr>max_age = m, last_scan = None\<rparr> (old_peer\<lparr>links := Up # Up # ls\<rparr>) =
      Some (Inr (old_seen, \<lparr>max_age = m, last_scan = Some (0, old_seen)\<rparr>), old_peer\<lparr>links := ls\<rparr>)" for m
    by (simp add: legacy_registrations_def run_defs loop.simps peer_scan_turn_def ref_scan old_peer_def peers_pattern_def glob.simps
        as_strings_def as_opt_strings_def valid_utf8_ascii byte_in_def read_registrations_def ref_defs old_json_def one_json_def
        old_seen_def node_of_def strip_prefix_def)
  with ids show ?thesis
    by (simp add: on_peer_scan_def list_registrations_def pbind_def pure_def no_reads up_defs ret_def old_seen_def one_reg_def)
qed

lemma old_peer_tick:
  "\<exists>M' V. maintenance_tick ref_ops old_json (\<lambda>t. ''t'') (\<lparr>held_lease = None, unindexed_seen = None\<rparr>, idle_inner, old_peer) = Some (M', V)"
proof -
  let ?K = "set_index_ready (with_connection_manager ''p'') False" and ?I = "up_inner (Some (0, old_seen)) False"
  let ?w = "old_peer\<lparr>links := [Refused ''down'', Refused ''down'']\<rparr>"
  obtain b M2 W where lk: "keep_lock ref_ops (\<lambda>t. ''t'') (\<lparr>held_lease = None, unindexed_seen = Some 0\<rparr>, gate_index ref_ops ?K True (?I, ?w)) = (b, M2, W)"
    by (rule prod_cases3)
  have "unindexed_peer old_seen" "mono ?w = 0" by (simp_all add: old_seen_def unindexed_peer_def old_peer_def ref_world_def)
  moreover have "fst (gate_index ref_ops ?K True (?I, ?w)) = ?I" by (simp add: gate_index_def invalidate_index_def up_simps)
  then have "\<not> sweeps (config (fst W))"
    using keep_lock_inner [of ref_ops "\<lambda>t. ''t''" _ ?I "snd (gate_index ref_ops ?K True (?I, ?w))"] lk up_simps(4)
    by (metis prod.collapse)
  ultimately show ?thesis using lk
    by (cases b) (auto simp: maintenance_tick_def old_peer_conn old_peer_listed up_simps tick_work_def split: prod.splits)
qed

theorem unindexed_peer_closes_gate_witness:
  "\<exists>M' V. maintenance_tick ref_ops old_json (\<lambda>t. ''t'') (\<lparr>held_lease = None, unindexed_seen = None\<rparr>, idle_inner, old_peer) = Some (M', V) \<and>
     \<not> ready_now (fst V) \<and> unindexed_seen M' = Some 0"
proof -
  obtain M' V where t: "maintenance_tick ref_ops old_json (\<lambda>t. ''t'') (\<lparr>held_lease = None, unindexed_seen = None\<rparr>, idle_inner, old_peer) = Some (M', V)"
    using old_peer_tick by blast
  have "(''old'', one_reg\<lparr>reg_kv_index := False\<rparr>) \<in> set old_seen" by (simp add: old_seen_def)
  from unindexed_peer_closes_gate [OF old_peer_conn old_peer_listed this _ t] t show ?thesis
    by (simp add: old_peer_def ref_world_def)
qed

end
