(* ===== verification/Tick_Liveness.thy ===== *)
theory Tick_Liveness
  imports Index_Properties
begin

section \<open>A tick gets the index ready\<close>

text \<open>
  The maintenance task left alone: a tick on a connected instance returns, and when no peer without the
  index is registered and the sweep lock is free, it leaves the key index complete and the listings
  reading it. The tick is followed command by command; \<open>tick_ok\<close> is what its parts rely on, and each part
  keeps it.
\<close>

definition tick_ok :: "registration_json \<Rightarrow> string \<Rightarrow> keyspace \<Rightarrow> bool" where
  "tick_ok J pfx v \<longleftrightarrow> kv_wf (with_connection_manager pfx) v \<and> finite (dom (objs v)) \<and> peers_ok pfx v \<and>
     (\<forall>k. data_key (with_connection_manager pfx) k \<and> live v k \<longrightarrow> valid_utf8 k) \<and>
     (\<forall>k x r. data_key (with_connection_manager pfx) k \<and> objs v k = Some (x, Some r) \<longrightarrow> 0 < r) \<and>
     (\<forall>node reg. registered J pfx v node reg \<longrightarrow> reg_kv_index reg)"

text \<open>Keys that matter to neither the data nor the peers.\<close>

definition elsewhere :: "string \<Rightarrow> string \<Rightarrow> bool" where
  "elsewhere pfx k \<longleftrightarrow> \<not> store_key (with_connection_manager pfx) k \<and> k \<noteq> peers_index_key pfx \<and> (\<forall>n. k \<noteq> peer_key pfx n)"

lemma tick_ok_same:
  assumes "tick_ok J pfx v" and "kv_wf (with_connection_manager pfx) u" and "finite (dom (objs u))" and "peers_ok pfx u"
    and "\<And>k. data_key (with_connection_manager pfx) k \<Longrightarrow> objs u k = objs v k" and "\<And>n. objs u (peer_key pfx n) = objs v (peer_key pfx n)"
  shows "tick_ok J pfx u"
proof -
  have "registered J pfx u = registered J pfx v" by (simp add: fun_eq_iff registered_def str_at_def assms(6))
  moreover have "\<forall>k. data_key (with_connection_manager pfx) k \<and> live u k \<longrightarrow> valid_utf8 k"
    using assms(1,5) unfolding tick_ok_def live_def by metis
  moreover have "\<forall>k x r. data_key (with_connection_manager pfx) k \<and> objs u k = Some (x, Some r) \<longrightarrow> 0 < r"
    using assms(1,5) unfolding tick_ok_def by metis
  ultimately show ?thesis using assms(1-4) unfolding tick_ok_def by presburger
qed

lemma peers_ok_same:
  assumes "peers_ok pfx v" and "objs u (peers_index_key pfx) = objs v (peers_index_key pfx)" and "\<And>n. objs u (peer_key pfx n) = objs v (peer_key pfx n)"
  shows "peers_ok pfx u"
  using assms by (simp add: peers_ok_def zset_ok_def zset_at_def)

lemma tick_ok_put:
  assumes "tick_ok J pfx v" and "elsewhere pfx k"
  shows "tick_ok J pfx (ks_put k e v)"
proof (rule tick_ok_same [OF assms(1)])
  let ?K = "with_connection_manager pfx" and ?u = "ks_put k e v"
  have o: "objs ?u j = objs v j" if "j \<noteq> k" for j using that by (simp add: ks_simps)
  have store: "objs ?u j = objs v j" if "store_key ?K j" for j using that assms(2) o [of j] unfolding elsewhere_def by metis
  show "kv_wf ?K ?u" using store_same(2) [OF store] assms(1) by (simp add: tick_ok_def)
  show "finite (dom (objs ?u))" by (rule finite_put [where A = "{k}"]) (use assms(1) o in \<open>auto simp: tick_ok_def\<close>)
  show "objs ?u (peer_key pfx n) = objs v (peer_key pfx n)" for n using assms(2) o unfolding elsewhere_def by metis
  then show "peers_ok pfx ?u"
    using peers_ok_same [of pfx v ?u] assms o unfolding tick_ok_def elsewhere_def by metis
  show "objs ?u j = objs v j" if "data_key ?K j" for j using that store by (simp add: store_key_def)
qed

text \<open>The names are apart.\<close>

lemma peer_keys_apart:
  assumes "pfx \<noteq> []"
  shows "\<not> store_key (with_connection_manager pfx) (peers_index_key pfx)" and "\<not> store_key (with_connection_manager pfx) (peer_key pfx n)"
    and "elsewhere pfx (complete_key (with_connection_manager pfx))"
    and "lease_keys pfx ''locks'' name = (lk, fk) \<Longrightarrow> elsewhere pfx lk \<and> elsewhere pfx fk"
  using assms
  by (auto simp: elsewhere_def store_key_def data_key_def full_key_def with_connection_manager_def
      peers_index_key_def peer_key_def lease_keys_def)

lemma tick_ok_beside:
  assumes "tick_ok J pfx v" and "beside (with_connection_manager pfx) v u" and "pfx \<noteq> []"
  shows "tick_ok J pfx u"
proof (rule tick_ok_same [OF assms(1)])
  let ?K = "with_connection_manager pfx"
  have wf: "kv_wf ?K v" and o: "\<And>j. j \<noteq> index_key ?K \<Longrightarrow> j \<noteq> expiry_key ?K \<Longrightarrow> objs u j = objs v j"
    using assms(1,2) by (auto simp: tick_ok_def beside_def)
  show "kv_wf ?K u" using assms(2) by (simp add: beside_def)
  show "finite (dom (objs u))" using beside_bounded [OF assms(2)] assms(1) by (simp add: tick_ok_def)
  show "objs u k = objs v k" if "data_key ?K k" for k using that o data_key_not_index [OF wf] by auto
  show "objs u (peer_key pfx n) = objs v (peer_key pfx n)" for n
    using o peer_keys_apart(2) [OF assms(3), of n] by (auto simp: store_key_def)
  then show "peers_ok pfx u"
    using peers_ok_same [of pfx v u] assms(1) o [of "peers_index_key pfx"] peer_keys_apart(1) [OF assms(3)]
    by (auto simp: store_key_def tick_ok_def)
qed

lemma tick_ok_swept:
  assumes "tick_ok J pfx v" and "pfx \<noteq> []"
  shows "tick_ok J pfx (swept_peers pfx now v)"
proof (rule tick_ok_same [OF assms(1)])
  let ?K = "with_connection_manager pfx" and ?u = "swept_peers pfx now v"
  have store: "objs ?u k = objs v k" if "store_key ?K k" for k
    using swept_other [of k pfx now v] that peer_keys_apart(1) [OF assms(2)] by metis
  show "kv_wf ?K ?u" using store_same(2) [OF store] assms(1) by (simp add: tick_ok_def)
  show "objs ?u k = objs v k" if "data_key ?K k" for k using that store by (simp add: store_key_def)
qed (use assms(1) in \<open>simp_all add: tick_ok_def swept_finite swept_ok swept_other\<close>)

subsection \<open>Each part, left alone\<close>

lemma keeps_still [keeps_intros]: "keeps (still now) (invoke R m)"
  by (auto simp: keeps_def invoke_def round_trip_def exec_def still_def quiet_def pass_time_def Let_def
      split: list.splits link.splits prod.splits)

lemma backfill_still: "pkeeps (still now) (backfill_index R K)"
  unfolding backfill_index_def backfill_turn_def scan_keys_def Let_def by (intro keeps_intros)

lemma sweep_one_beside:
  assumes "beside K v u" and "data_key K k"
  shows "beside K v (snd (sweep_one (ks_ops R) (index_key K) (expiry_key K) now k u))"
proof -
  have wf: "kv_wf K u" using assms(1) by (simp add: beside_def)
  show ?thesis
    using assms(1) upkeep_one_wf(2) [OF wf assms(2), of R now] touch_objs [OF wf assms(2)]
    by (auto simp: beside_def sweep_one_ks [OF wf assms(2)] split: option.splits)
qed

context redis_server
begin

lemma sweep_beside: "pkeeps (stable (beside K v \<circ> view)) (sweep R K)"
proof -
  have "yields (stable (beside K v \<circ> view)) (map_err f (cbind (invoke R
      (redis_zrangebyscore R (expiry_key K) NegInf hi lim)) (as_strings R))) (\<lambda>ks. \<forall>k \<in> set ks. data_key K k)" for f hi lim
    by (rule due_yields) (auto simp: beside_def)
  moreover have "keeps (stable (beside K v \<circ> view)) (invoke R (sweep_lua R (index_key K) (expiry_key K) now ks))"
    if dk: "\<forall>k \<in> set ks. data_key K k" for now ks
  proof -
    have "beside K v (snd (sweep_lua (ks_ops R) (index_key K) (expiry_key K) now ks u))" if "beside K v u" for u
      unfolding sweep_lua_def
      by (rule for_count_inv [where P = "beside K v", OF sweep_one_beside that]) (use dk in auto)
    then show ?thesis unfolding invoke_def by (intro keeps_intros) (simp add: sim_view [OF sweep_lua_sim])
  qed
  ultimately show ?thesis
    unfolding sweep_def sweep_turn_def Let_def by (intro keeps_intros keeps_after)
qed

lemma index_complete_still:
  assumes "still now w"
  shows "\<exists>u. index_complete R K w = (Inr (live (view (server w)) (complete_key K)), u) \<and>
    view (server u) = view (server w) \<and> still now u"
  using invoke_still [OF assms exists_sim, of "complete_key K"]
  by (auto simp: index_complete_def cbind_def map_err_def ret_def ks_exists_def live_def)

lemma mark_still:
  assumes "still now w"
  shows "\<exists>u. mark_index_complete R K t w = (Inr (), u) \<and>
    view (server u) = ks_put (complete_key K) (Some (RStr (dec (int t)), None)) (view (server w)) \<and> still now u"
  using invoke_still [OF assms set_sim, of None "complete_key K" "dec (int t)" False]
  by (auto simp: mark_index_complete_def cbind_def map_err_def ret_def ks_set_def px_opt_ok_def)

lemma try_acquire_still:
  assumes "still now w" and "\<not> blank name" and "px_ok (ttl_ms (Some ttl))"
    and wf: "lease_wf lk fk c (view (server w))" and "in_i64 (c + 1)" and free: "\<not> live (view (server w)) lk"
  shows "\<exists>st u x y. try_acquire_async R rfc name lk fk h ttl w = (Inr (Some st), u) \<and> still now u \<and>
    view (server u) = ks_put fk x (ks_put lk y (view (server w)))"
proof -
  have "str_slot (view (server w)) lk" "lk \<noteq> fk" "counter_at (view (server w)) fk = Some (c, None)"
    using wf by (auto simp: lease_wf_def)
  note ks = acquire_ks [OF this(1) counter_slot [OF this(3)] this(2,3) assms(5), of R h "ttl_ms (Some ttl)"]
  from invoke_still [OF assms(1) acquire_sim [OF assms(3), of lk fk h]] obtain u where
    "invoke R (acquire_script R lk fk h (ttl_ms (Some ttl))) w = (Inr (Some (lua_reply R (c + 1))), u)" "still now u"
    "view (server u) = ks_put fk (Some (RStr (dec (c + 1)), None)) (ks_put lk (Some (RStr h, Some (nat (ttl_ms (Some ttl))))) (view (server w)))"
    using free by (auto simp: ks)
  with assms(2) show ?thesis
    by (auto simp: try_acquire_async_def Let_def cbind_def map_err_def ret_def reading_def)
qed

end

context scan_server
begin

lemma listing_still:
  assumes "still now w" and "0 \<le> now" and "now < 2 ^ 53" and ok: "tick_ok J pfx (view (server w))"
    and "glob_escape pfx = pfx" and "rescans legacy (mono w)"
  shows "\<exists>found legacy' u. list_registrations R J pfx legacy w = Some (Inr (found, legacy'), u) \<and>
    \<not> unindexed_peer found \<and> view (server u) = swept_peers pfx now (view (server w)) \<and> still now u"
proof -
  have "peers_ok pfx (view (server w))" "finite (dom (objs (view (server w))))" using ok by (simp_all add: tick_ok_def)
  from list_fresh [OF assms(1-3) this(1) assms(5) this(2) assms(6), of J] obtain found legacy' u where
    l: "list_registrations R J pfx legacy w = Some (Inr (found, legacy'), u)"
    "set found = shown_peers J pfx now (view (server w))"
    "view (server u) = swept_peers pfx now (view (server w))" "still now u" by blast
  have "\<not> unindexed_peer found"
    using ok l(2) by (auto simp: unindexed_peer_def list_ex_iff shown_peers_def tick_ok_def)
  with l show ?thesis by blast
qed

lemma complete_index_still:
  assumes "still now w" and now: "0 \<le> now" "now < 2 ^ 53" and ok: "tick_ok J (inner_prefix I) (view (server w))"
    and K: "kv_names (config I) K" and p: "inner_prefix I \<noteq> []" and plain: "glob_escape (inner_prefix I) = inner_prefix I"
    and "primitives I \<noteq> None"
  shows "\<exists>I' u. complete_index R J K (I, w) = Some (I', u) \<and> ready_now I'"
proof -
  let ?p = "inner_prefix I"
  let ?K = "with_connection_manager ?p"
  obtain b where b: "K = set_index_ready ?K b" using K by (auto simp: kv_names_def)
  have wf: "kv_wf K (view (server w))" using ok b by (simp add: tick_ok_def)
  have utf: "\<forall>k. data_key K k \<and> live (view (server w)) k \<longrightarrow> valid_utf8 k" using ok b by (simp add: tick_ok_def)
  have quiet: "quiet w" using assms(1) by (simp add: still_def)
  obtain n u where bf: "backfill_index R K w = Some (Inr n, u)"
    using backfill_ends [OF quiet wf _ utf] ok by (auto simp: tick_ok_def)
  have u: "still now u" by (rule pkeepsD [OF backfill_still assms(1) bf])
  have "beside K (view (server w)) (view (server u))" by (rule backfill_beside [OF quiet wf utf bf])
  then have "tick_ok J ?p (view (server u))"
    using tick_ok_beside [OF ok _ p] b by (simp add: beside_def)
  from listing_still [OF u now this plain, of "forget (peer_scan I)"] obtain found legacy' x where
    l: "list_registrations R J ?p (forget (peer_scan I)) u = Some (Inr (found, legacy'), x)" "\<not> unindexed_peer found" "still now x"
    by (auto simp: rescans_def forget_def)
  obtain y where "mark_index_complete R K (nat (now_ms w)) x = (Inr (), y)" using mark_still [OF l(3)] by blast
  with bf l assms(8) b show ?thesis
    by (auto simp: complete_index_def on_peer_scan_def Let_def)
qed

lemma tick_work_still:
  assumes st: "still now w" and now: "0 \<le> now" "now < 2 ^ 53" and ok: "tick_ok J (inner_prefix I) (view (server w))"
    and K: "kv_names (config I) K" and p: "inner_prefix I \<noteq> []" and plain: "glob_escape (inner_prefix I) = inner_prefix I"
    and up: "primitives I \<noteq> None" and utf: "\<forall>m \<in> members (view (server w)) (expiry_key K). valid_utf8 m"
    and "unindexed_seen M = None"
  shows "\<exists>I' u. tick_work R J K False M (I, w) = Some (M, I', u) \<and> ready_now I'"
proof -
  let ?K = "with_connection_manager (inner_prefix I)"
  obtain b where b: "K = set_index_ready ?K b" using K by (auto simp: kv_names_def)
  have wf: "kv_wf K (view (server w))" and later: "\<forall>k x r. data_key K k \<and> objs (view (server w)) k = Some (x, Some r) \<longrightarrow> 0 < r"
    using ok b by (simp_all add: tick_ok_def)
  have "\<exists>u. (if sweeps (config I) then map_option snd (sweep R K w) else Some w) = Some u \<and> still now u \<and>
      tick_ok J (inner_prefix I) (view (server u))"
  proof (cases "sweeps (config I)")
    case True
    have "\<forall>m \<in> due_keys K now (view (server w)). valid_utf8 m" using utf due_members by blast
    from sweep_still [OF st now wf this later] obtain r u where r: "sweep R K w = Some (r, u)" "still now u"
      by (auto simp: sweeping_def)
    have "env w = []" using st by (simp add: still_def quiet_def)
    then have "stable (beside K (view (server w)) \<circ> view) w" using wf by (simp add: stable_def beside_def)
    from pkeepsD [OF sweep_beside this r(1)] have "beside ?K (view (server w)) (view (server u))"
      by (simp add: stable_def beside_def b)
    with True r tick_ok_beside [OF ok _ p] show ?thesis by auto
  qed (use st ok in auto)
  then obtain u where u: "(if sweeps (config I) then map_option snd (sweep R K w) else Some w) = Some u" "still now u"
    "tick_ok J (inner_prefix I) (view (server u))" by blast
  from complete_index_still [OF u(2) now u(3) K p plain up] u(1) assms(10) show ?thesis
    by (auto simp: tick_work_def Let_def)
qed

lemma keep_lock_still:
  assumes "still now w" and "held_lease M = None" and "lease_keys (inner_prefix I) ''locks'' SWEEP_LOCK = (lk, fk)"
    and "lease_wf lk fk c (view (server w))" and "in_i64 (c + 1)" and "\<not> live (view (server w)) lk"
    and "kv_sweep_interval_ms (config I) < 2 ^ 52"
  shows "\<exists>st u x y. keep_lock R rfc (M, I, w) = (True, M\<lparr>held_lease := Some st\<rparr>, I, u) \<and> still now u \<and>
    view (server u) = ks_put fk x (ks_put lk y (view (server w)))"
proof -
  have name: "\<not> blank SWEEP_LOCK" by (auto simp: SWEEP_LOCK_def byte_in_def intro!: not_blank_ascii)
  from try_acquire_still [OF assms(1) name lock_lifetime [OF assms(7)] assms(4-6), of rfc "inner_node_id I"] obtain st u x y where
    "try_acquire_async R rfc SWEEP_LOCK lk fk (inner_node_id I) (min (tick_interval (config I) * 2) duration_max) w = (Inr (Some st), u)"
    "still now u" "view (server u) = ks_put fk x (ks_put lk y (view (server w)))" by blast
  then show ?thesis using assms(2,3) by (auto simp: keep_lock_def)
qed

text \<open>The whole tick.\<close>

lemma tick_still:
  assumes st: "still now w" and now: "0 \<le> now" "now < 2 ^ 53" and ok: "tick_ok J (inner_prefix I) (view (server w))"
    and I: "inner_wf I" "key_value_store I = Some K" and plain: "glob_escape (inner_prefix I) = inner_prefix I"
    and utf: "\<forall>m \<in> members (view (server w)) (expiry_key K). valid_utf8 m" and scan: "rescans (peer_scan I) (mono w)"
    and M: "held_lease M = None" "unindexed_seen M = None"
    and lk: "lease_keys (inner_prefix I) ''locks'' SWEEP_LOCK = (lk, fk)"
    and lock: "lease_wf lk fk c (view (server w))" "in_i64 (c + 1)" "\<not> live (view (server w)) lk"
    and t: "kv_sweep_interval_ms (config I) < 2 ^ 52"
  shows "\<exists>M' I' u. maintenance_tick R J rfc (M, I, w) = Some (M', I', u) \<and> ready_now I'"
proof -
  let ?p = "inner_prefix I" and ?v = "view (server w)"
  have K: "kv_names (config I) K" by (rule kv_names_store [OF _ I(2)]) (use I(1) in simp)
  have p: "?p \<noteq> []" using prefix_set [of "(I, w)" "config I"] I(1) by simp
  have up: "primitives I \<noteq> None" using I(2) by (auto simp: key_value_store_def)
  then have conn: "get_or_init_conn R (I, w) = (Inr (), I, w)"
    using I(1) by (auto simp: get_or_init_conn_def populate_def inner_wf_def)
  obtain regs legacy u where l: "list_registrations R J ?p (peer_scan I) w = Some (Inr (regs, legacy), u)"
    "\<not> unindexed_peer regs" "view (server u) = swept_peers ?p now ?v" "still now u"
    using listing_still [OF st now ok plain scan] by blast
  let ?u = "view (server u)" and ?I1 = "I\<lparr>peer_scan := legacy\<rparr>"
  have same: "objs ?u k = objs ?v k" if "k \<noteq> peers_index_key ?p" for k using l(3) swept_other that by simp
  have out: "elsewhere ?p lk" "elsewhere ?p fk" using peer_keys_apart(4) [OF p lk] by auto
  obtain x where x: "index_complete R K u = (Inr (live ?u (complete_key K)), x)" "view (server x) = ?u" "still now x"
    using index_complete_still [OF l(4)] by blast
  let ?I2 = "set_kv (set_index_ready K (live ?u (complete_key K))) ?I1"
  have I2: "config ?I2 = config I" "primitives ?I2 \<noteq> None" using up by (auto simp: set_kv_def)
  have gate: "gate_index R K False (?I1, u) = (?I2, x)" using x(1) by (simp add: gate_index_def)
  have at: "objs ?u lk = objs ?v lk" "objs ?u fk = objs ?v fk" using same out by (auto simp: elsewhere_def)
  then have "lease_wf lk fk c (view (server x))" "\<not> live (view (server x)) lk"
    using lock x(2) by (simp_all add: lease_wf_def str_slot_def counter_at_def live_def)
  from keep_lock_still [OF x(3) M(1) _ this(1) lock(2) this(2), of ?I2 rfc] obtain lease y a b where
    y: "keep_lock R rfc (M, ?I2, x) = (True, M\<lparr>held_lease := Some lease\<rparr>, ?I2, y)" "still now y"
    "view (server y) = ks_put fk a (ks_put lk b ?u)"
    using lk t I2(1) x(2) by auto
  have "tick_ok J ?p (view (server y))"
    unfolding y(3) l(3) by (intro tick_ok_put tick_ok_swept ok out p)
  moreover have "objs (view (server y)) (expiry_key K) = objs ?v (expiry_key K)"
  proof -
    have "store_key (with_connection_manager ?p) (expiry_key K)" using K by (auto simp: kv_names_def store_key_def)
    then have "expiry_key K \<noteq> lk" "expiry_key K \<noteq> fk" "expiry_key K \<noteq> peers_index_key ?p"
      using out peer_keys_apart(1) [OF p] unfolding elsewhere_def by metis+
    then show ?thesis using same by (simp add: y(3) ks_simps)
  qed
  then have "\<forall>m \<in> members (view (server y)) (expiry_key K). valid_utf8 m" using utf by (simp add: members_def zset_at_def)
  ultimately obtain I' z where "tick_work R J K False (M\<lparr>held_lease := Some lease\<rparr>) (?I2, y) =
      Some (M\<lparr>held_lease := Some lease\<rparr>, I', z)" "ready_now I'"
    using tick_work_still [OF y(2) now, of J ?I2 K "M\<lparr>held_lease := Some lease\<rparr>"] K p plain I2 M(2) by auto
  with l(1,2) gate y(1) show ?thesis
    by (simp add: maintenance_tick_def conn I(2) on_peer_scan_def)
qed

end

subsection \<open>Properties\<close>

text \<open>
  C12. A tick gets the index ready: on a connected instance, in a world that stands still, with no
  registered peer that lacks the index, the sweep lock free and no such peer remembered, a tick of the
  maintenance task returns with the readiness flag set over a key index that holds every live key,
  whatever the index missed before. (The mark in Redis, if there is one, is right; the server holds
  finitely many keys, with text for names; the cached peer scan is due for renewal.)
\<close>

theorem tick_readies_index:
  assumes "scan_server R view matches" and "still now w" and "0 \<le> now" and "now < 2 ^ 53"
    and "tick_ok J (inner_prefix I) (view (server w))" and "inner_wf I" and "key_value_store I = Some K"
    and "glob_escape (inner_prefix I) = inner_prefix I" and "\<forall>m \<in> members (view (server w)) (expiry_key K). valid_utf8 m"
    and "rescans (peer_scan I) (mono w)" and "held_lease M = None" and "unindexed_seen M = None"
    and "lease_keys (inner_prefix I) ''locks'' SWEEP_LOCK = (lk, fk)" and "lease_wf lk fk c (view (server w))"
    and "in_i64 (c + 1)" and "\<not> live (view (server w)) lk" and "kv_sweep_interval_ms (config I) < 2 ^ 52"
    and "ready_now I \<or> live (view (server w)) (complete_key K) \<longrightarrow> kv_complete K (view (server w))"
  shows "\<exists>M' I' u. maintenance_tick R J rfc3339 (M, I, w) = Some (M', I', u) \<and> ready_now I' \<and> kv_complete K (view (server u))"
proof -
  obtain M' I' u where tick: "maintenance_tick R J rfc3339 (M, I, w) = Some (M', I', u)" "ready_now I'"
    using scan_server.tick_still [OF assms(1-17)] by blast
  have K: "kv_names (config I) K" by (rule kv_names_store [OF _ assms(7)]) (use assms(6) in simp)
  then obtain b where b: "K = set_index_ready (with_connection_manager (inner_prefix I)) b" by (auto simp: kv_names_def)
  have "env w = []" using assms(2) by (simp add: still_def quiet_def)
  then have "gate R view K (ready_now I) w"
    using assms(5,18) b by (auto simp: gate_def others_ok_def stable_def marks_right_def tick_ok_def kv_complete_unlisted)
  then have "sound R view (config I) (I, w)" using assms(6) K by (intro soundI) auto
  from scan_server.sound_tick [OF assms(1) this _ assms(17) tick(1)] assms(11)
  have "sound R view (config I) (I', u)" by (simp add: lock_ok_def)
  with soundD(2) [OF this K] tick(2) have "gate R view K True u" by simp
  with tick gate_complete show ?thesis by blast
qed

text \<open>A server with one key from before the index; the replica sweeps every 30 seconds.\<close>

definition sweeping_inner :: inner where
  "sweeping_inner = (up_inner None False)\<lparr>config := idle_config\<lparr>kv_sweep_interval_ms := 30000\<rparr>\<rparr>"

lemma sweeping_inner_facts:
  "inner_wf sweeping_inner" "key_value_store sweeping_inner = Some (with_connection_manager ''p'')"
  "inner_prefix sweeping_inner = ''p''" "rescans (peer_scan sweeping_inner) n" "kv_sweep_interval_ms (config sweeping_inner) = 30000"
proof -
  have v: "validate idle_config = Inr ()" using idle_wf(1) by (simp add: inner_wf_def idle_inner_def new_inner_def)
  have K: "set_index_ready (with_connection_manager ''p'') False = with_connection_manager ''p''"
    by (simp add: set_index_ready_def with_connection_manager_def)
  have "validate (idle_config\<lparr>kv_sweep_interval_ms := 30000\<rparr>) = validate idle_config" by (simp add: validate_def)
  with v show "inner_wf sweeping_inner"
    by (auto simp: sweeping_inner_def up_inner_def inner_wf_def idle_inner_def new_inner_def idle_config_def)
  show "key_value_store sweeping_inner = Some (with_connection_manager ''p'')"
    "inner_prefix sweeping_inner = ''p''" "rescans (peer_scan sweeping_inner) n" "kv_sweep_interval_ms (config sweeping_inner) = 30000"
    by (simp_all add: sweeping_inner_def up_inner_def idle_config_def key_value_store_def rescans_def K)
qed

lemma old_key_tick_ok: "tick_ok one_json ''p'' (ref_view old_key)"
proof -
  have "peers_ok ''p'' (ref_view old_key)"
    by (simp add: peers_ok_def old_key_facts(1) zset_ok_def zset_at_def peers_index_key_def peer_key_def peer_text_def)
  moreover have "\<not> registered one_json ''p'' (ref_view old_key) node reg" for node reg
    by (simp add: registered_def old_key_facts(1) str_at_def peer_key_def)
  ultimately show ?thesis
    using old_key_facts(2,3) unfolding tick_ok_def by (auto simp: old_key_facts(1) split: if_splits)
qed

theorem tick_readies_index_witness:
  "\<exists>M' I' u. maintenance_tick ref_ops one_json (\<lambda>t. ''t'') (\<lparr>held_lease = None, unindexed_seen = None\<rparr>, sweeping_inner, ref_world 1000 old_key) =
       Some (M', I', u) \<and> ready_now I' \<and> kv_complete (with_connection_manager ''p'') (ref_view (server u))"
proof -
  let ?M = "\<lparr>held_lease = None, unindexed_seen = None\<rparr>" and ?K = "with_connection_manager ''p''"
  have w: "still 1000 (ref_world 1000 old_key)" "server (ref_world 1000 old_key) = old_key" by simp_all
  have "lease_wf ''plocks/mcpg-kv-sweep'' ''plocks/mcpg-kv-sweep:fence'' 0 (ref_view old_key)"
    "\<not> live (ref_view old_key) ''plocks/mcpg-kv-sweep''" "\<not> live (ref_view old_key) (complete_key ?K)"
    "members (ref_view old_key) (expiry_key ?K) = {}"
    by (simp_all add: lease_wf_def str_slot_def counter_at_def live_def old_key_facts(1) with_connection_manager_def members_def zset_at_def)
  moreover have "\<not> ready_now sweeping_inner" by (simp add: ready_now_def sweeping_inner_facts(2) with_connection_manager_def)
  ultimately show ?thesis
    using tick_readies_index [OF refscan.scan_server_axioms w(1), of one_json sweeping_inner ?K ?M "''plocks/mcpg-kv-sweep''"
        "''plocks/mcpg-kv-sweep:fence''" 0 "\<lambda>t. ''t''"] sweeping_inner_facts(1,2,4,5) old_key_tick_ok
    by (simp add: w(2) sweeping_inner_facts(3) lease_keys_def SWEEP_LOCK_def in_i64_def)
qed

end
