(* ===== verification/Kv_Scan.thy ===== *)
theory Kv_Scan
  imports Kv_Backfill
begin

section \<open>Listings that scan the keyspace\<close>

text \<open>
  \<open>scan_page\<close> of \<open>state/kv.rs\<close>, which a store's listings use while the key index is not ready: a \<open>SCAN\<close>
  iteration spread over pages, whose cursor carries the iteration's position and the keys that did not
  fit on a page. A pass ends, and lists exactly the live keys.
\<close>

definition scan_pattern :: "redis_kv \<Rightarrow> string \<Rightarrow> string" where
  "scan_pattern K pfx = glob_escape (full_key K pfx) @ ''*''"

text \<open>The keys a pass has to list.\<close>

definition live_keys :: "redis_kv \<Rightarrow> keyspace \<Rightarrow> string \<Rightarrow> string set" where
  "live_keys K v pfx = {k. live v k \<and> prefix (full_key K pfx) k}"

lemma live_keys_data: "k \<in> live_keys K v pfx \<Longrightarrow> data_key K k"
  by (auto simp: live_keys_def data_key_def full_key_def prefix_def split: if_splits)

text \<open>A page from the middle of its loop, and a pass from there on.\<close>

definition page_from :: "'s redis \<Rightarrow> cursor_json \<Rightarrow> redis_kv \<Rightarrow> string \<Rightarrow> nat \<Rightarrow> string list \<Rightarrow> nat \<Rightarrow> bool \<Rightarrow>
    (cluster_error, 's world, kv_page) peff" where
  "page_from R J K pfx n ps c fin =
     pbind (loop (scan_turn R (scan_pattern K pfx) n) (ps, c, fin)) (\<lambda>(keys, cur, fin).
       case (if fin \<and> drop n keys = [] then Inr None
             else case to_string J \<lparr>scan = cur, pending = drop n keys, done_pass = fin\<rparr> of
                    Inl e \<Rightarrow> Inl (Internal (''redis kv list cursor: '' @ e))
                  | Inr t \<Rightarrow> Inr (Some (CHR ''s'' # t))) of
         Inl e \<Rightarrow> pure (raise e)
       | Inr x \<Rightarrow> pure (cbind (fetch_entries R K (take n keys) False) (\<lambda>es. ret \<lparr>entries = es, next_page = x\<rparr>)))"

lemma scan_page_from: "scan_page R J K pfx st lim = page_from R J K pfx (unat lim) (pending st) (scan st) (done_pass st)"
  by (simp add: scan_page_def page_from_def scan_pattern_def Let_def)

definition pass_from :: "'s redis \<Rightarrow> cursor_json \<Rightarrow> redis_kv \<Rightarrow> string \<Rightarrow> u64 \<Rightarrow> string list \<Rightarrow> nat \<Rightarrow> bool \<Rightarrow>
    's world \<Rightarrow> (string \<times> entry) list \<Rightarrow> bool" where
  "pass_from R J K pfx lim ps c fin w es \<longleftrightarrow>
     (\<exists>pg u. page_from R J K pfx (unat (max lim 1)) ps c fin w = Some (Inr pg, u) \<and>
       (next_page pg = None \<and> es = entries pg \<or>
        (\<exists>t fs x. next_page pg = Some t \<and> listing_pass R J K pfx lim u (Some t) fs x \<and> es = entries pg @ fs)))"

text \<open>\<open>serde_json\<close> writes a cursor (its keys are Rust strings) as text that reads back as the cursor.\<close>

definition cursors_read_back :: "cursor_json \<Rightarrow> bool" where
  "cursors_read_back J \<longleftrightarrow> (\<forall>st. list_all valid_utf8 (pending st) \<longrightarrow> (\<exists>t. to_string J st = Inr t \<and> from_str J t = Some st))"

lemma pass_from_listing:
  assumes "pass_from R J K pfx lim (pending st) (scan st) (done_pass st) w es"
    and "kv_list_page R J K pfx cur lim = scan_page R J K pfx st (max lim 1)"
  shows "\<exists>u. listing_pass R J K pfx lim w cur es u"
proof -
  from assms(1) obtain pg u where pg: "kv_list_page R J K pfx cur lim w = Some (Inr pg, u)"
    and es: "next_page pg = None \<and> es = entries pg \<or>
        (\<exists>t fs x. next_page pg = Some t \<and> listing_pass R J K pfx lim u (Some t) fs x \<and> es = entries pg @ fs)"
    unfolding pass_from_def assms(2) scan_page_from by blast
  from es show ?thesis
    using listing_pass.last_page [OF pg] listing_pass.more_pages [OF pg] by blast
qed

lemma page_full:
  assumes "n \<le> length ps \<or> fin"
  shows "loop (scan_turn R pat n) (ps, c, fin) w = Some (Inr (ps, c, fin), w)"
  using assms by (subst loop.simps) (auto simp: scan_turn_def ret_def)

lemma page_from_full:
  assumes "n \<le> length ps \<or> fin" and "fetch_entries R K (take n ps) False w = (Inr es, u)"
  shows "fin \<and> drop n ps = [] \<Longrightarrow> page_from R J K pfx n ps c fin w = Some (Inr \<lparr>entries = es, next_page = None\<rparr>, u)"
    and "\<not> (fin \<and> drop n ps = []) \<Longrightarrow> to_string J \<lparr>scan = c, pending = drop n ps, done_pass = fin\<rparr> = Inr t \<Longrightarrow>
      page_from R J K pfx n ps c fin w = Some (Inr \<lparr>entries = es, next_page = Some (CHR ''s'' # t)\<rparr>, u)"
  using assms(2) unfolding page_from_def pbind_def page_full [OF assms(1)]
  by (auto simp: pure_def cbind_def ret_def)

lemma page_scans:
  assumes "length ps < n" and "scan_keys R c (scan_pattern K pfx) w = (Inr (c', batch), u)"
  shows "page_from R J K pfx n ps c False w = page_from R J K pfx n (ps @ batch) c' (c' = 0) u"
proof -
  have "loop (scan_turn R (scan_pattern K pfx) n) (ps, c, False) w =
      loop (scan_turn R (scan_pattern K pfx) n) (ps @ batch, c', c' = 0) u"
    using assms by (subst loop.simps) (auto simp: scan_turn_def cbind_def ret_def)
  then show ?thesis by (simp add: page_from_def pbind_def)
qed

context scan_server
begin

subsection \<open>The iteration ends\<close>

text \<open>From one position to the next: anybody's steps, then a \<open>SCAN\<close> that does not end the iteration.\<close>

definition scan_next :: "redis_kv \<Rightarrow> string \<Rightarrow> keyspace \<Rightarrow> nat \<times> 's \<Rightarrow> nat \<times> 's \<Rightarrow> bool" where
  "scan_next K pat v y x \<longleftrightarrow> (\<exists>s batch. (server_step R K)\<^sup>*\<^sup>* (snd x) s \<and> view s = v \<and>
     redis_scan R (fst x) pat SCAN_COUNT s = (Inr (fst y, batch), snd y) \<and> fst y \<noteq> 0)"

lemma scan_next_ends:
  assumes "finite (dom (objs v))"
  shows "Wellfounded.accp (scan_next K pat v) (0, s)"
proof (rule ccontr)
  let ?R = "scan_next K pat v"
  assume none: "\<not> Wellfounded.accp ?R (0, s)"
  have "\<exists>z. \<not> Wellfounded.accp ?R x \<longrightarrow> ?R z x \<and> \<not> Wellfounded.accp ?R z" for x
    by (metis not_accp_down)
  then obtain g where g: "\<And>x. \<not> Wellfounded.accp ?R x \<Longrightarrow> ?R (g x) x \<and> \<not> Wellfounded.accp ?R (g x)" by metis
  define f where "f i = (g ^^ i) (0, s)" for i
  have "\<not> Wellfounded.accp ?R (f i)" for i
    by (induction i) (use g none in \<open>auto simp: f_def\<close>)
  then have f: "f 0 = (0, s)" "\<And>i. ?R (f (Suc i)) (f i)" using g by (auto simp: f_def)
  obtain ss bs where chain: "\<And>i. (server_step R K)\<^sup>*\<^sup>* (snd (f i)) (ss i)" "\<And>i. view (ss i) = v"
    "\<And>i. redis_scan R (fst (f i)) pat SCAN_COUNT (ss i) = (Inr (fst (f (Suc i)), bs i), snd (f (Suc i)))"
    "\<And>i. fst (f (Suc i)) \<noteq> 0"
    using f(2) unfolding scan_next_def by metis
  have "\<exists>i. fst (f (Suc i)) = 0"
    by (rule scan_ends [where ts = "\<lambda>i. snd (f (Suc i))" and ss = ss and N = "card (dom (objs v))", OF chain(3)])
       (use chain(1,2) f(1) assms in auto)
  with chain(4) show False by blast
qed

lemma scan_next_meanwhile:
  assumes "Wellfounded.accp (scan_next K pat v) (c, s)" and "(server_step R K)\<^sup>*\<^sup>* s t"
  shows "Wellfounded.accp (scan_next K pat v) (c, t)"
proof (rule accp.accI)
  fix y
  assume "scan_next K pat v y (c, t)"
  with assms(2) have "scan_next K pat v y (c, s)" unfolding scan_next_def by (auto intro: rtranclp_trans)
  with assms(1) show "Wellfounded.accp (scan_next K pat v) y" by (rule accp_downward)
qed

subsection \<open>Reading a page's keys\<close>

lemma exec_step:
  assumes "env w = []"
  shows "env (snd (exec m w)) = []" and "server (snd (exec m w)) = snd (m (server w))"
  using assms by (simp_all add: exec_calm split: prod.splits)

lemma snd_pipe_all: "snd (pipe_all (m # ms) w) = snd (pipe_all ms (snd (m w)))"
  by (auto simp: pipe2_def pcall_def cbind_def ret_def raise_def split: prod.splits sum.splits)

lemma snd_pipe2: "snd (pipe2 m n w) = snd (n (snd (m w)))"
  by (simp add: pipe2_def split: prod.splits)

text \<open>Steps that do not show.\<close>

definition calm_step :: "redis_kv \<Rightarrow> 's \<Rightarrow> 's \<Rightarrow> bool" where
  "calm_step K s t \<longleftrightarrow> server_step R K s t \<and> view t = view s"

lemma calm_reads: "calm_step K s (snd (redis_get R k s))" "calm_step K s (snd (redis_pttl R k s))"
  using sim_view [OF get_sim, of k s] sim_view [OF pttl_sim, of k s]
  by (auto simp: calm_step_def ks_get_def ks_pttl_def intro: server_step.intros split: option.splits robj.splits)

lemma calm_steps:
  assumes "(calm_step K)\<^sup>*\<^sup>* s t"
  shows "(server_step R K)\<^sup>*\<^sup>* s t" and "view t = view s"
    and "scan_miss R view K pat cnt k c s \<Longrightarrow> live (view s) k \<Longrightarrow> scan_miss R view K pat cnt k c t"
proof -
  have "(server_step R K)\<^sup>*\<^sup>* s t \<and> view t = view s \<and>
      (scan_miss R view K pat cnt k c s \<longrightarrow> live (view s) k \<longrightarrow> scan_miss R view K pat cnt k c t)"
    using assms
  proof (induction rule: rtranclp_induct)
    case (step t u)
    then show ?case
      unfolding calm_step_def by (metis rtranclp.rtrancl_into_rtrancl scan_miss.meanwhile)
  qed simp
  then show "(server_step R K)\<^sup>*\<^sup>* s t" and "view t = view s"
    and "scan_miss R view K pat cnt k c s \<Longrightarrow> live (view s) k \<Longrightarrow> scan_miss R view K pat cnt k c t" by blast+
qed

lemma pairs_steps:
  "env w = [] \<Longrightarrow> (calm_step K)\<^sup>*\<^sup>* (server w)
     (server (snd (pipe_all (map (\<lambda>k. pipe2 (exec (redis_get R k)) (exec (redis_pttl R k))) ks) w)))"
proof (induction ks arbitrary: w)
  case Nil
  then show ?case by (simp add: ret_def)
next
  case (Cons k ks)
  let ?x = "snd (pipe2 (exec (redis_get R k)) (exec (redis_pttl R k)) w)"
  have x: "env ?x = []" "server ?x = snd (redis_pttl R k (snd (redis_get R k (server w))))"
    using Cons.prems by (simp_all add: snd_pipe2 exec_step)
  have "(calm_step K)\<^sup>*\<^sup>* (server w) (server ?x)" unfolding x(2)
    using calm_reads(1) [of K "server w" k] calm_reads(2) [of K "snd (redis_get R k (server w))" k] by simp
  also note Cons.IH [OF x(1)]
  finally show ?case unfolding list.map snd_pipe_all .
qed

text \<open>Reading without pruning.\<close>

lemma fetch_scan:
  assumes "quiet w" and "\<forall>k \<in> set ks. str_slot (view (server w)) k"
  shows "\<exists>u now. fetch_entries R K ks False w = (Inr (live_entries now K (view (server w)) ks), u) \<and>
    quiet u \<and> view (server u) = view (server w) \<and> (calm_step K)\<^sup>*\<^sup>* (server w) (server u)"
proof (cases "ks = []")
  case True
  with assms show ?thesis by (auto simp: fetch_entries_def ret_def live_entries_def)
next
  case False
  let ?v = "view (server w)" and ?w = "w\<lparr>links := tl (links w)\<rparr>"
  have env: "env w = []" and up: "\<forall>l \<in> set (tl (links w)). l = Up"
    using assms(1) by (cases "links w"; auto simp: quiet_def)+
  obtain s where pipe: "pipe_all (map (\<lambda>k. pipe2 (exec (redis_get R k)) (exec (redis_pttl R k))) ks) ?w =
      (Inr (map (\<lambda>k. (map_option fst (str_at ?v k), pttl_at ?v k)) ks), ?w\<lparr>server := s\<rparr>)" and s: "view s = ?v"
    using pairs_calm [of ?w ks] env assms(2) by auto
  have steps: "(calm_step K)\<^sup>*\<^sup>* (server w) s" using pairs_steps [of ?w K ks] env pipe by simp
  define u where "u = pass_time (?w\<lparr>server := s\<rparr>)"
  have "fetch_entries R K ks False w = (Inr (live_entries (wall u) K ?v ks), u)"
    using False pipe
    by (simp add: fetch_entries_def cbind_def [of "map_err _ _"] map_err_def round_trip_up [OF quiet_up [OF assms(1)]]
        reading_def sift_found ret_def flip: u_def)
  moreover have "quiet u" "view (server u) = ?v" "server u = s" using env up s by (simp_all add: u_def quiet_def)
  ultimately show ?thesis using steps by auto
qed

subsection \<open>A pass\<close>

text \<open>
  Between two pages: \<open>L\<close> is listed, \<open>ps\<close> rides in the cursor, and every other key to list is yet to be
  returned by the iteration.
\<close>

definition passing :: "redis_kv \<Rightarrow> string \<Rightarrow> keyspace \<Rightarrow> string set \<Rightarrow> string list \<Rightarrow> nat \<Rightarrow> bool \<Rightarrow> 's world \<Rightarrow> bool" where
  "passing K pfx v L ps c fin w \<longleftrightarrow> quiet w \<and> view (server w) = v \<and> set ps \<subseteq> live_keys K v pfx \<and>
     (\<forall>k \<in> live_keys K v pfx. k \<in> L \<or> k \<in> set ps \<or>
        \<not> fin \<and> scan_miss R view K (scan_pattern K pfx) SCAN_COUNT k c (server w))"

definition finishes :: "cursor_json \<Rightarrow> redis_kv \<Rightarrow> string \<Rightarrow> u64 \<Rightarrow> keyspace \<Rightarrow> string set \<Rightarrow> string list \<Rightarrow> nat \<Rightarrow> bool \<Rightarrow>
    's world \<Rightarrow> bool" where
  "finishes J K pfx lim v L ps c fin w \<longleftrightarrow> (\<exists>es ks. pass_from R J K pfx lim ps c fin w es \<and>
     key_values es = listed K v ks \<and> set ks \<subseteq> live_keys K v pfx \<and> live_keys K v pfx \<subseteq> L \<union> set ks)"

lemma scan_keys_passing:
  assumes pass: "passing K pfx v L ps c False w" and utf: "\<forall>k \<in> live_keys K v pfx. valid_utf8 k"
  shows "\<exists>c' batch u. scan_keys R c (scan_pattern K pfx) w = (Inr (c', batch), u) \<and>
    passing K pfx v L (ps @ batch) c' (c' = 0) u \<and>
    (c' \<noteq> 0 \<longrightarrow> scan_next K (scan_pattern K pfx) v (c', server u) (c, server w))"
proof -
  let ?pat = "scan_pattern K pfx" and ?s = "server w"
  have w: "quiet w" "view ?s = v" using pass by (simp_all add: passing_def)
  obtain c' batch t where sc: "redis_scan R c ?pat SCAN_COUNT ?s = (Inr (c', batch), t)" "view t = view ?s"
    using scan_replies by blast
  have match: "matches ?pat k \<longleftrightarrow> prefix (full_key K pfx) k" for k by (simp add: scan_pattern_def matches_prefix)
  have batch: "set batch \<subseteq> live_keys K v pfx"
    using scan_found [OF sc(1)] w(2) by (auto simp: live_keys_def match)
  then have "list_all valid_utf8 batch" using utf by (auto simp: list_all_iff)
  moreover obtain u where u: "invoke R (redis_scan R c ?pat SCAN_COUNT) w = (Inr (c', batch), u)" "server u = t" "quiet u"
    using quiet_trip [where m = "redis_scan R c ?pat SCAN_COUNT", OF w(1) sc(1), of "show_error R"] by (auto simp: invoke_def)
  ultimately have "scan_keys R c ?pat w = (Inr (c', batch), u)"
    by (simp add: scan_keys_def map_err_def cbind_def as_strings_def ret_def)
  moreover have "k \<in> set batch \<or> c' \<noteq> 0 \<and> scan_miss R view K ?pat SCAN_COUNT k c' t"
    if "scan_miss R view K ?pat SCAN_COUNT k c ?s" "k \<in> live_keys K v pfx" for k
    using scan_full [OF that(1) _, of batch t] scan_miss.passed_by [OF that(1) sc(1)] that(2) sc(1)
    by (auto simp: match live_keys_def)
  then have "passing K pfx v L (ps @ batch) c' (c' = 0) u"
    using pass batch u sc(2) unfolding passing_def by auto
  moreover have "scan_next K ?pat v (c', server u) (c, ?s)" if "c' \<noteq> 0"
    using that sc(1) u(2) w(2) unfolding scan_next_def by (intro exI [of _ ?s]) auto
  ultimately show ?thesis by blast
qed

text \<open>A page that is full or last: it is read, and the pass goes on from what did not fit.\<close>

lemma full_page_finishes:
  assumes J: "cursors_read_back J" and wf: "kv_wf K v" and utf: "\<forall>k \<in> live_keys K v pfx. valid_utf8 k"
    and pass: "passing K pfx v L ps c fin w"
    and full: "unat (max lim 1) \<le> length ps \<or> fin"
    and rest: "\<And>L' u. \<not> (fin \<and> drop (unat (max lim 1)) ps = []) \<Longrightarrow> (server_step R K)\<^sup>*\<^sup>* (server w) (server u) \<Longrightarrow>
      passing K pfx v L' (drop (unat (max lim 1)) ps) c fin u \<Longrightarrow> finishes J K pfx lim v L' (drop (unat (max lim 1)) ps) c fin u"
  shows "finishes J K pfx lim v L ps c fin w"
proof -
  let ?n = "unat (max lim 1)"
  let ?out = "take ?n ps" and ?rest = "drop ?n ps"
  have w: "quiet w" "view (server w) = v" "set ps \<subseteq> live_keys K v pfx" using pass by (simp_all add: passing_def)
  have out: "set ?out \<subseteq> live_keys K v pfx" using w(3) by (meson in_set_takeD subset_iff)
  then have slot: "\<forall>k \<in> set ?out. str_slot (view (server w)) k"
    using kv_wfD(5) [OF wf] live_keys_data w(2) by blast
  obtain u now where u: "fetch_entries R K ?out False w = (Inr (live_entries now K v ?out), u)" "quiet u"
    "view (server u) = v" "(calm_step K)\<^sup>*\<^sup>* (server w) (server u)"
    using fetch_scan [OF w(1) slot, of K] w(2) by auto
  note page = page_from_full [OF full u(1)]
  show ?thesis
  proof (cases "fin \<and> ?rest = []")
    case True
    then have "pass_from R J K pfx lim ps c fin w (live_entries now K v ?out)"
      using page(1) [OF True, of J pfx c] unfolding pass_from_def by auto
    moreover have "?out = ps" using True by simp
    moreover have "live_keys K v pfx \<subseteq> L \<union> set ps" using pass True unfolding passing_def by auto
    ultimately show ?thesis unfolding finishes_def using key_values_live w(3) by metis
  next
    case False
    let ?st = "\<lparr>scan = c, pending = ?rest, done_pass = fin\<rparr>"
    obtain t where t: "to_string J ?st = Inr t" "from_str J t = Some ?st"
      using J utf w(3) unfolding cursors_read_back_def by (force simp: list_all_iff dest: in_set_dropD)
    have set: "set ps = set ?out \<union> set ?rest" by (metis append_take_drop_id set_append)
    have "passing K pfx v (L \<union> set ?out) ?rest c fin u"
      using pass u(2,3) set calm_steps(3) [OF u(4)] unfolding passing_def live_keys_def by blast
    from rest [OF False calm_steps(1) [OF u(4)] this] obtain fs ks where
      fs: "pass_from R J K pfx lim ?rest c fin u fs" "key_values fs = listed K v ks" "set ks \<subseteq> live_keys K v pfx"
      "live_keys K v pfx \<subseteq> L \<union> set ?out \<union> set ks"
      unfolding finishes_def by blast
    have "kv_list_page R J K pfx (Some (CHR ''s'' # t)) lim = scan_page R J K pfx ?st (max lim 1)"
      using t(2) by (simp add: kv_list_page_def Let_def)
    then obtain x where "listing_pass R J K pfx lim u (Some (CHR ''s'' # t)) fs x"
      using pass_from_listing [of R J K pfx lim ?st u fs] fs(1) by auto
    then have "pass_from R J K pfx lim ps c fin w (live_entries now K v ?out @ fs)"
      using page(2) [OF False t(1), of pfx] unfolding pass_from_def by auto
    moreover have "key_values (live_entries now K v ?out @ fs) = listed K v (?out @ ks)"
      by (simp add: key_values_live listed_append fs(2))
    moreover have "set (?out @ ks) \<subseteq> live_keys K v pfx" using out fs(3) by simp
    moreover have "live_keys K v pfx \<subseteq> L \<union> set (?out @ ks)" using fs(4) by auto
    ultimately show ?thesis unfolding finishes_def by blast
  qed
qed

lemma limit_pos: "0 < unat (max lim (1 :: u64))"
  by (auto simp: unat_gt_0 max_def)

lemma last_pages_finish:
  assumes "cursors_read_back J" and "kv_wf K v" and "\<forall>k \<in> live_keys K v pfx. valid_utf8 k"
  shows "passing K pfx v L ps c True w \<Longrightarrow> finishes J K pfx lim v L ps c True w"
proof (induction "length ps" arbitrary: L ps w rule: less_induct)
  case less
  show ?case
  proof (rule full_page_finishes [OF assms less.prems])
    fix L' u
    assume "\<not> (True \<and> drop (unat (max lim 1)) ps = [])" and p: "passing K pfx v L' (drop (unat (max lim 1)) ps) c True u"
    then have "length (drop (unat (max lim 1)) ps) < length ps" using limit_pos [of lim] by (cases ps) auto
    from less.hyps [OF this p] show "finishes J K pfx lim v L' (drop (unat (max lim 1)) ps) c True u" .
  qed simp
qed

lemma pages_finish:
  assumes J: "cursors_read_back J" and wf: "kv_wf K v" and utf: "\<forall>k \<in> live_keys K v pfx. valid_utf8 k"
    and acc: "Wellfounded.accp (scan_next K (scan_pattern K pfx) v) x"
  shows "\<And>L ps w. (server_step R K)\<^sup>*\<^sup>* (snd x) (server w) \<Longrightarrow> passing K pfx v L ps (fst x) False w \<Longrightarrow>
    finishes J K pfx lim v L ps (fst x) False w"
  using acc
proof (induction rule: accp_induct_rule)
  case (1 x)
  let ?n = "unat (max lim 1)" and ?pat = "scan_pattern K pfx"
  show ?case using "1.prems"
  proof (induction "length ps" arbitrary: L ps w rule: less_induct)
    case less
    show ?case
    proof (cases "?n \<le> length ps")
      case True
      show ?thesis
      proof (rule full_page_finishes [OF J wf utf less.prems(2)])
        fix L' u
        assume u: "(server_step R K)\<^sup>*\<^sup>* (server w) (server u)" "passing K pfx v L' (drop ?n ps) (fst x) False u"
        have "length (drop ?n ps) < length ps" using True limit_pos [of lim] by simp
        from less.hyps [OF this rtranclp_trans [OF less.prems(1) u(1)] u(2)]
        show "finishes J K pfx lim v L' (drop ?n ps) (fst x) False u" .
      qed (use True in simp)
    next
      case False
      obtain c' batch u where u: "scan_keys R (fst x) ?pat w = (Inr (c', batch), u)"
        "passing K pfx v L (ps @ batch) c' (c' = 0) u" "c' \<noteq> 0 \<longrightarrow> scan_next K ?pat v (c', server u) (fst x, server w)"
        using scan_keys_passing [OF less.prems(2) utf] by blast
      have "finishes J K pfx lim v L (ps @ batch) c' (c' = 0) u"
      proof (cases "c' = 0")
        case True
        with u(2) last_pages_finish [OF J wf utf] show ?thesis by simp
      next
        case c: False
        with u(3) less.prems(1) have "scan_next K ?pat v (c', server u) x"
          unfolding scan_next_def by (auto intro: rtranclp_trans)
        from "1.IH" [OF this, of u] u(2) c show ?thesis by simp
      qed
      then show ?thesis
        using page_scans [OF _ u(1), of ps ?n J] False unfolding finishes_def pass_from_def by simp
    qed
  qed
qed

lemma scan_pass:
  assumes "cursors_read_back J" and "quiet w" and "kv_wf K (view (server w))" and "finite (dom (objs (view (server w))))"
    and "\<forall>k \<in> live_keys K (view (server w)) pfx. valid_utf8 k" and "\<not> index_ready K"
  shows "\<exists>es ks u. listing_pass R J K pfx lim w None es u \<and> key_values es = listed K (view (server w)) ks \<and>
    set ks = live_keys K (view (server w)) pfx"
proof -
  let ?v = "view (server w)"
  have "passing K pfx ?v {} [] 0 False w"
    using assms(2) by (auto simp: passing_def live_keys_def intro: scan_miss.opened)
  then have "finishes J K pfx lim ?v {} [] 0 False w"
    using pages_finish [OF assms(1,3,5) scan_next_ends [OF assms(4)], of "server w" w] by simp
  moreover have "kv_list_page R J K pfx None lim = scan_page R J K pfx default_cursor (max lim 1)"
    using assms(6) by (simp add: kv_list_page_def Let_def)
  ultimately show ?thesis
    using pass_from_listing [of R J K pfx lim default_cursor w _ None] unfolding finishes_def default_cursor_def by fastforce
qed

end

subsection \<open>Properties\<close>

lemma listed_live:
  assumes "kv_wf K v" and "set ks = live_keys K v pfx"
  shows "set (listed K v ks) = (\<lambda>key. (key, fst (the (contents K v key)))) ` keys_under K v pfx"
proof -
  have live: "live v k \<longleftrightarrow> str_at v k \<noteq> None" if "data_key K k" for k
    using live_str_at kv_wfD(5) [OF assms(1)] that by blast
  have "live_keys K v pfx = full_key K ` keys_under K v pfx"
  proof (intro equalityI subsetI)
    fix k
    assume k: "k \<in> live_keys K v pfx"
    then obtain key where "k = full_key K key" using live_keys_data [OF k] by (auto simp: data_key_iff)
    with k live [OF live_keys_data [OF k]] show "k \<in> full_key K ` keys_under K v pfx"
      by (auto simp: live_keys_def keys_under_def contents_def full_key_prefix_iff)
  next
    fix k
    assume "k \<in> full_key K ` keys_under K v pfx"
    then show "k \<in> live_keys K v pfx"
      using live by (auto simp: live_keys_def keys_under_def contents_def full_key_prefix_iff data_key_iff)
  qed
  with assms(2) show ?thesis unfolding listed_filter by (auto simp: contents_def keys_under_def image_iff)
qed

text \<open>
  C10. A listing pass that scans returns, and lists exactly the live keys under the prefix with their
  values, whatever the page size and however the server's \<open>SCAN\<close> spreads them over its steps: nothing is
  lost between pages, and the store's own keys never show. (In a quiet world, for a store whose listings
  do not read the index, with finitely many keys on the server, keys that are text, and cursors that
  read back. \<open>SCAN\<close> may return a key twice, and then the listing shows it twice.)
\<close>

theorem scan_listing_pass:
  assumes "scan_server R view matches" and "cursors_read_back J" and "quiet w" and "kv_wf K (view (server w))"
    and "finite (dom (objs (view (server w))))" and "\<forall>k \<in> live_keys K (view (server w)) pfx. valid_utf8 k"
    and "\<not> index_ready K"
  shows "\<exists>es u. listing_pass R J K pfx lim w None es u \<and>
    set (key_values es) = (\<lambda>key. (key, fst (the (contents K (view (server w)) key)))) ` keys_under K (view (server w)) pfx"
  using scan_server.scan_pass [OF assms, of lim] listed_live [OF assms(4)] by metis

text \<open>A cursor format that reads back: the position in unary, then each key after its length.\<close>

definition unary_keys :: "string list \<Rightarrow> string" where
  "unary_keys ks = concat (map (\<lambda>k. replicate (length k) CHR ''a'' @ CHR ''b'' # k) ks)"

function read_keys :: "string \<Rightarrow> string list" where
  "read_keys s = (if s = [] then []
     else let n = length (takeWhile (\<lambda>c. c = CHR ''a'') s); r = drop (n + 1) s in take n r # read_keys (drop n r))"
  by pat_completeness auto
termination by (relation "measure length") auto

declare read_keys.simps [simp del]

definition unary_json :: cursor_json where
  "unary_json = \<lparr>to_string = \<lambda>st. Inr (replicate (scan st) CHR ''a'' @ (if done_pass st then CHR ''1'' else CHR ''0'') # unary_keys (pending st)),
     from_str = \<lambda>s. let n = length (takeWhile (\<lambda>c. c = CHR ''a'') s); r = drop n s in
       case r of [] \<Rightarrow> None | d # ks \<Rightarrow> Some \<lparr>scan = n, pending = read_keys ks, done_pass = d = CHR ''1''\<rparr>\<rparr>"

lemma take_as: "c \<noteq> CHR ''a'' \<Longrightarrow> takeWhile (\<lambda>c. c = CHR ''a'') (replicate n CHR ''a'' @ c # s) = replicate n CHR ''a''"
  by (induction n) simp_all

lemma read_unary_keys: "read_keys (unary_keys ks) = ks"
proof (induction ks)
  case (Cons k ks)
  have "unary_keys (k # ks) = replicate (length k) CHR ''a'' @ CHR ''b'' # k @ unary_keys ks" by (simp add: unary_keys_def)
  then show ?case using Cons.IH by (subst read_keys.simps) (simp add: take_as Let_def)
qed (simp add: unary_keys_def read_keys.simps)

lemma unary_reads_back: "cursors_read_back unary_json"
  unfolding cursors_read_back_def
proof (intro allI impI)
  fix st :: scan_cursor
  show "\<exists>t. to_string unary_json st = Inr t \<and> from_str unary_json t = Some st"
    by (cases st) (auto simp: unary_json_def take_as read_unary_keys Let_def)
qed

definition scanning_store :: redis_kv where
  "scanning_store = with_connection_manager ''p''"

theorem scan_listing_pass_witness:
  "\<exists>es u. listing_pass ref_ops unary_json scanning_store [] 1 two_keys None es u \<and>
     set (key_values es) = {(''a'', ''1''), (''b'', ''2'')}"
proof -
  have K: "ready_store = set_index_ready scanning_store True" by (simp add: ready_store_def scanning_store_def)
  have same: "kv_wf scanning_store v = kv_wf ready_store v" "contents scanning_store v = contents ready_store v"
    "full_key scanning_store = full_key ready_store" for v
    by (simp_all add: K set_index_ready_def kv_wf_def contents_def full_key_def keys_apart_def data_key_def fun_eq_iff)
  have wf: "kv_wf scanning_store (ref_view (server two_keys))" using two_keys_facts(2) same by simp
  have "finite (dom (objs (ref_view (server two_keys))))" by (simp add: two_keys_objs)
  moreover have "\<forall>k \<in> live_keys scanning_store (ref_view (server two_keys)) []. valid_utf8 k"
    by (auto simp: live_keys_def live_def two_keys_objs valid_utf8_ascii byte_in_def split: if_splits)
  moreover have "keys_under scanning_store (ref_view (server two_keys)) [] = {''a'', ''b''}"
    by (auto simp: keys_under_def same two_keys_facts(5))
  moreover have "\<not> index_ready scanning_store" by (simp add: scanning_store_def with_connection_manager_def)
  ultimately show ?thesis
    using scan_listing_pass [OF refscan.scan_server_axioms unary_reads_back two_keys_facts(1) wf, of "[]" 1]
    by (simp add: same two_keys_facts(5))
qed

end
