(* ===== verification/Kv_Pass.thy ===== *)
theory Kv_Pass
  imports Kv_Scan
begin

section \<open>Listing passes among a running fleet\<close>

text \<open>
  A listing pass takes many round trips, and the fleet does not wait for it. Whichever way the pass
  reads (the key index, or \<open>SCAN\<close>), and whatever the others do between its commands: a key that is there
  all along is listed.
\<close>

text \<open>
  What is known of a key all along is a predicate \<open>Q\<close> on its object: that it exists, that it never
  expires, that it holds one of certain values. \<open>sparing\<close> is a step of anybody that keeps it so.
\<close>

definition stays :: "(robj \<times> nat option \<Rightarrow> bool) \<Rightarrow> string \<Rightarrow> keyspace \<Rightarrow> bool" where
  "stays Q k v \<longleftrightarrow> (\<exists>x. objs v k = Some x \<and> Q x)"

definition sparing :: "'s redis \<Rightarrow> ('s \<Rightarrow> keyspace) \<Rightarrow> redis_kv \<Rightarrow> (robj \<times> nat option \<Rightarrow> bool) \<Rightarrow> string \<Rightarrow> 's \<Rightarrow> 's \<Rightarrow> bool" where
  "sparing R view K Q k s t \<longleftrightarrow> server_step R K s t \<and>
     (kv_wf K (view s) \<and> stays Q k (view s) \<longrightarrow> stays Q k (view t))"

definition others_spare :: "'s redis \<Rightarrow> ('s \<Rightarrow> keyspace) \<Rightarrow> redis_kv \<Rightarrow> (robj \<times> nat option \<Rightarrow> bool) \<Rightarrow> string \<Rightarrow> 's world \<Rightarrow> bool" where
  "others_spare R view K Q k w \<longleftrightarrow> (\<forall>e \<in> set (env w). \<forall>s. (sparing R view K Q k)\<^sup>*\<^sup>* s (e s))"

lemma stays_live: "stays Q k v \<Longrightarrow> live v k"
  by (auto simp: stays_def live_def)

text \<open>An entry for \<open>k\<close> with a value that \<open>Q\<close> allows.\<close>

definition key_listed :: "redis_kv \<Rightarrow> (robj \<times> nat option \<Rightarrow> bool) \<Rightarrow> string \<Rightarrow> (string \<times> entry) list \<Rightarrow> bool" where
  "key_listed K Q k es \<longleftrightarrow> (\<exists>e t. (logical_key K k, e) \<in> set es \<and> Q (RStr (bytes e), t))"

lemma key_listed_append: "key_listed K Q k (es @ fs) \<longleftrightarrow> key_listed K Q k es \<or> key_listed K Q k fs"
  by (auto simp: key_listed_def)

subsection \<open>Rules for what operations yield\<close>

lemma yields_pipe2:
  "yields P m A \<Longrightarrow> yields P n B \<Longrightarrow> yields P (pipe2 m n) (\<lambda>(a, b). A a \<and> B b)"
  unfolding yields_def by (auto simp: pipe2_def split: prod.splits sum.splits)

lemma yields_pipe_all:
  "(\<And>j. j \<in> set ks \<Longrightarrow> yields P (f j) (A j)) \<Longrightarrow> yields P (pipe_all (map f ks)) (list_all2 A ks)"
proof (induction ks)
  case Nil
  then show ?case by (simp add: yields_def ret_def)
next
  case (Cons j ks)
  then have "yields P (pipe2 (f j) (pipe_all (map f ks))) (\<lambda>(a, as). A j a \<and> list_all2 A ks as)"
    by (intro yields_pipe2) auto
  then show ?case
    by (auto simp: yields_def cbind_def pcall_def ret_def raise_def split: prod.splits sum.splits)
qed

lemma yields_round_trip:
  assumes "yields P m A" and "\<And>w u. server u = server w \<Longrightarrow> env u = env w \<Longrightarrow> P w \<Longrightarrow> P u"
  shows "yields P (round_trip sh m) A"
  unfolding yields_def
proof (intro allI impI conjI)
  fix w
  assume w: "P w"
  then show "P (snd (round_trip sh m w))"
    using keeps_trip [OF yields_keeps [OF assms(1)] assms(2)] by (simp add: keeps_def)
  fix x
  assume "fst (round_trip sh m w) = Inr x"
  then have "fst (m (w\<lparr>links := tl (links w)\<rparr>)) = Inr x"
    by (auto simp: round_trip_def Let_def split: list.splits link.splits prod.splits)
  moreover have "P (w\<lparr>links := tl (links w)\<rparr>)" by (rule assms(2) [OF _ _ w]) simp_all
  ultimately show "A x" using assms(1) by (auto simp: yields_def)
qed

subsection \<open>What a reply says of a key\<close>

definition replies_ok :: "(robj \<times> nat option \<Rightarrow> bool) \<Rightarrow> string \<Rightarrow> string \<Rightarrow> string option \<times> int \<Rightarrow> bool" where
  "replies_ok Q k j r \<longleftrightarrow> (j = k \<longrightarrow> (\<exists>x t. fst r = Some x \<and> Q (RStr x, t)) \<and> - 1 \<le> snd r)"

lemma entry_of_ok:
  "replies_ok Q k k (b, p) \<Longrightarrow> \<exists>e t. entry_of now b p = Some e \<and> Q (RStr (bytes e), t)"
  by (auto simp: replies_ok_def entry_of_def)

lemma sift_lists:
  assumes "list_all2 (replies_ok Q k) ks rs" and "k \<in> set ks"
  shows "key_listed K Q k (fst (sift K now (zip ks rs)))"
  using assms
proof (induction rule: list_all2_induct)
  case (Cons j ks r rs)
  obtain b p where r: "r = (b, p)" by fastforce
  have tl: "key_listed K Q k (fst (sift K now (zip ks rs))) \<Longrightarrow> ?case"
    by (auto simp: key_listed_def r split: prod.splits option.splits)
  show ?case
  proof (cases "j = k")
    case True
    with Cons.hyps(1) r obtain e t where "entry_of now b p = Some e" "Q (RStr (bytes e), t)"
      using entry_of_ok [of Q k b p now] by auto
    then show ?thesis by (auto simp: key_listed_def r True split: prod.splits)
  qed (use Cons tl in simp)
qed simp

context scan_server
begin

subsection \<open>The others and the pass\<close>

text \<open>\<open>spared K Q k I\<close>: the invariant \<open>I\<close> survives sparing steps. \<open>among\<close>: it holds now, and the others spare \<open>k\<close>.\<close>

definition spared :: "redis_kv \<Rightarrow> (robj \<times> nat option \<Rightarrow> bool) \<Rightarrow> string \<Rightarrow> ('s \<Rightarrow> bool) \<Rightarrow> bool" where
  "spared K Q k I \<longleftrightarrow> (\<forall>s t. I s \<longrightarrow> sparing R view K Q k s t \<longrightarrow> I t) \<and>
     (\<forall>s. I s \<longrightarrow> kv_wf K (view s) \<and> stays Q k (view s))"

definition among :: "redis_kv \<Rightarrow> (robj \<times> nat option \<Rightarrow> bool) \<Rightarrow> string \<Rightarrow> ('s \<Rightarrow> bool) \<Rightarrow> 's world \<Rightarrow> bool" where
  "among K Q k I w \<longleftrightarrow> others_spare R view K Q k w \<and> I (server w)"

lemma spared_steps: "spared K Q k I \<Longrightarrow> (sparing R view K Q k)\<^sup>*\<^sup>* s t \<Longrightarrow> I s \<Longrightarrow> I t"
  by (rotate_tac, induction rule: rtranclp_induct) (auto simp: spared_def)

lemma spared_wf: "spared K Q k I \<Longrightarrow> I s \<Longrightarrow> kv_wf K (view s)" "spared K Q k I \<Longrightarrow> I s \<Longrightarrow> stays Q k (view s)"
  by (simp_all add: spared_def)

text \<open>An execution: the others' steps before it, then the command.\<close>

lemma exec_among:
  assumes "others_spare R view K Q k w"
  obtains s where "(sparing R view K Q k)\<^sup>*\<^sup>* (server w) s" and "fst (exec m w) = fst (m s)"
    and "server (snd (exec m w)) = snd (m s)" and "others_spare R view K Q k (snd (exec m w))"
proof -
  let ?s = "case env w of [] \<Rightarrow> server w | e # _ \<Rightarrow> e (server w)"
  have "(sparing R view K Q k)\<^sup>*\<^sup>* (server w) ?s" using assms by (auto simp: others_spare_def split: list.splits)
  moreover have "fst (exec m w) = fst (m ?s)" "server (snd (exec m w)) = snd (m ?s)" "env (snd (exec m w)) = tl (env w)"
    by (simp_all add: exec_def split: prod.splits)
  moreover from this(3) have "others_spare R view K Q k (snd (exec m w))"
    using assms by (cases "env w") (auto simp: others_spare_def)
  ultimately show thesis using that by blast
qed

lemma among_trip: "server u = server w \<Longrightarrow> env u = env w \<Longrightarrow> among K Q k I w \<Longrightarrow> among K Q k I u"
  by (simp add: among_def others_spare_def)

lemma yields_exec:
  assumes "spared K Q k I" and "\<And>s. I s \<Longrightarrow> I (snd (m s))" and "\<And>s x. I s \<Longrightarrow> fst (m s) = Inr x \<Longrightarrow> A x"
  shows "yields (among K Q k I) (exec m) A"
  unfolding yields_def
proof (intro allI impI)
  fix w
  assume w: "among K Q k I w"
  then obtain s where s: "(sparing R view K Q k)\<^sup>*\<^sup>* (server w) s" "fst (exec m w) = fst (m s)"
    "server (snd (exec m w)) = snd (m s)" "others_spare R view K Q k (snd (exec m w))"
    using exec_among [of K Q k w m] by (auto simp: among_def)
  have "I s" using spared_steps [OF assms(1) s(1)] w by (simp add: among_def)
  with s assms(2,3) show "among K Q k I (snd (exec m w)) \<and> (\<forall>x. fst (exec m w) = Inr x \<longrightarrow> A x)"
    by (auto simp: among_def)
qed

text \<open>A round trip that is answered.\<close>

lemma invoke_spared:
  assumes "spared K Q k I" and "among K Q k I w" and "invoke R m w = (Inr x, u)"
  obtains s where "I s" and "m s = (Inr x, server u)" and "others_spare R view K Q k u"
proof -
  let ?w = "w\<lparr>links := tl (links w)\<rparr>"
  have "others_spare R view K Q k ?w" using assms(2) by (simp add: among_def others_spare_def)
  then obtain s where s: "(sparing R view K Q k)\<^sup>*\<^sup>* (server ?w) s" "fst (exec m ?w) = fst (m s)"
    "server (snd (exec m ?w)) = snd (m s)" "others_spare R view K Q k (snd (exec m ?w))"
    by (rule exec_among)
  have "I s" using spared_steps [OF assms(1) s(1)] assms(2) by (simp add: among_def)
  moreover have "fst (exec m ?w) = Inr x" "u = pass_time (snd (exec m ?w))"
    using assms(3) by (auto simp: invoke_def round_trip_def Let_def split: list.splits link.splits prod.splits)
  ultimately show thesis using s that [of s] by (auto simp: others_spare_def prod_eq_iff)
qed

subsection \<open>Reading a page's keys\<close>

lemma sparing_calm: "server_step R K s t \<Longrightarrow> view t = view s \<Longrightarrow> sparing R view K Q k s t"
  by (simp add: sparing_def)

lemma spared_reads:
  assumes "spared K Q k I" and "I s"
  shows "I (snd (redis_get R j s))" and "I (snd (redis_pttl R j s))"
  using assms calm_reads [of K s j] unfolding spared_def calm_step_def by (blast intro: sparing_calm)+

lemma spared_prune:
  assumes "spared K Q k I" and "I s" and "data_key K k" and "\<forall>j \<in> set js. data_key K j"
  shows "I (snd (prune_lua R (index_key K) (expiry_key K) js s))"
proof -
  let ?e = "EPrune (map (logical_key K) js)"
  have wf: "kv_wf K (view s)" using spared_wf [OF assms(1,2)] by blast
  obtain key where key: "k = full_key K key" using assms(3) by (auto simp: data_key_iff)
  have run: "run_event R K ?e = prune_lua R (index_key K) (expiry_key K) js"
    using data_keys_only(2) [OF kv_wfD(1) [OF wf] assms(4)] by simp
  have "server_step R K s (snd (run_event R K ?e s))" by (rule server_step.store) simp
  moreover have "objs (view (snd (run_event R K ?e s))) k = objs (view s) k"
    using event_other [OF wf, of key ?e R] sim_view [OF event_sim, of ?e K s] key by simp
  ultimately have "sparing R view K Q k s (snd (run_event R K ?e s))" by (simp add: sparing_def stays_def)
  with assms(1,2) show ?thesis unfolding run spared_def by blast
qed

lemma pair_replies:
  assumes sp: "spared K Q k I" and "data_key K k"
  shows "yields (among K Q k I) (pipe2 (exec (redis_get R j)) (exec (redis_pttl R j))) (replies_ok Q k j)"
proof -
  have at: "\<exists>x t. objs (view s) k = Some (RStr x, t) \<and> Q (RStr x, t)" if s: "I s" for s
  proof -
    obtain x t where "objs (view s) k = Some (x, t)" "Q (x, t)"
      using spared_wf(2) [OF sp s] by (auto simp: stays_def)
    moreover have "str_slot (view s) k" using kv_wfD(5) [OF spared_wf(1) [OF sp s] assms(2)] .
    ultimately show ?thesis by (cases x) (auto simp: str_slot_def)
  qed
  have "yields (among K Q k I) (exec (redis_get R j)) (\<lambda>b. j = k \<longrightarrow> (\<exists>x t. b = Some x \<and> Q (RStr x, t)))"
  proof (rule yields_exec [OF sp spared_reads(1) [OF sp]])
    fix s b
    assume "I s" and b: "fst (redis_get R j s) = Inr b"
    from b have "fst (ks_get j (view s)) = Inr b" using get_sim [of j] by (simp add: sim_def) (metis fst_map_prod id_apply)
    with at [OF \<open>I s\<close>] show "j = k \<longrightarrow> (\<exists>x t. b = Some x \<and> Q (RStr x, t))" by (auto simp: ks_get_def)
  qed
  moreover have "yields (among K Q k I) (exec (redis_pttl R j)) (\<lambda>p. j = k \<longrightarrow> - 1 \<le> p)"
  proof (rule yields_exec [OF sp spared_reads(2) [OF sp]])
    fix s p
    assume "I s" and p: "fst (redis_pttl R j s) = Inr p"
    from p have "fst (ks_pttl j (view s)) = Inr p" using pttl_sim [of j] by (simp add: sim_def) (metis fst_map_prod id_apply)
    with at [OF \<open>I s\<close>] show "j = k \<longrightarrow> - 1 \<le> p" by (auto simp: ks_pttl_def split: option.splits)
  qed
  ultimately have "yields (among K Q k I) (pipe2 (exec (redis_get R j)) (exec (redis_pttl R j)))
      (\<lambda>(b, p). (j = k \<longrightarrow> (\<exists>x t. b = Some x \<and> Q (RStr x, t))) \<and> (j = k \<longrightarrow> - 1 \<le> p))"
    by (rule yields_pipe2)
  then show ?thesis by (auto simp: yields_def replies_ok_def split: prod.splits)
qed

lemma fetch_lists:
  assumes sp: "spared K Q k I" and dk: "data_key K k" and w: "among K Q k I w"
    and ks: "pr \<longrightarrow> (\<forall>j \<in> set ks. data_key K j)" and run: "fetch_entries R K ks pr w = (Inr es, u)"
  shows "among K Q k I u" and "k \<in> set ks \<Longrightarrow> key_listed K Q k es"
proof -
  let ?pipe = "pipe_all (map (\<lambda>j. pipe2 (exec (redis_get R j)) (exec (redis_pttl R j))) ks)"
  have "among K Q k I u \<and> (k \<in> set ks \<longrightarrow> key_listed K Q k es)"
  proof (cases "ks = []")
    case True
    with run w show ?thesis by (simp add: fetch_entries_def ret_def)
  next
    case False
    have "yields (among K Q k I) (map_err redis_err (round_trip (show_error R) ?pipe)) (list_all2 (replies_ok Q k) ks)"
      by (intro yields_map_err yields_round_trip yields_pipe_all pair_replies [OF sp dk]) (rule among_trip)
    moreover obtain rs x where rs: "map_err redis_err (round_trip (show_error R) ?pipe) w = (Inr rs, x)"
      using run False by (auto simp: fetch_entries_def cbind_def split: prod.splits sum.splits)
    ultimately have x: "among K Q k I x" "list_all2 (replies_ok Q k) ks rs"
      using w by (fastforce simp: yields_def)+
    obtain out gone where sift: "sift K (wall x) (zip ks rs) = (out, gone)" by fastforce
    let ?prune = "prune_lua R (index_key K) (expiry_key K) gone"
    have gone: "set gone \<subseteq> set ks" using sift_gone [OF sift] by (auto dest!: subsetD set_zip_leftD)
    have out: "k \<in> set ks \<longrightarrow> key_listed K Q k out" using sift_lists [OF x(2), of K "wall x"] sift by simp
    have es: "es = out" "u = (if pr \<and> gone \<noteq> [] then snd (invoke R ?prune x) else x)"
      using run False rs sift
      by (auto simp: fetch_entries_def cbind_def reading_def pcall_def ret_def split: prod.splits if_splits)
    have "among K Q k I (snd (invoke R ?prune x))" if "pr"
    proof -
      have "yields (among K Q k I) (exec ?prune) (\<lambda>_. True)"
        by (rule yields_exec [OF sp spared_prune [OF sp _ dk]]) (use gone ks that in auto)
      then have "yields (among K Q k I) (invoke R ?prune) (\<lambda>_. True)"
        unfolding invoke_def by (rule yields_round_trip) (rule among_trip)
      with x(1) show ?thesis by (simp add: yields_def)
    qed
    with es x(1) out show ?thesis by auto
  qed
  then show "among K Q k I u" and "k \<in> set ks \<Longrightarrow> key_listed K Q k es" by simp_all
qed

subsection \<open>Pages of the index\<close>

definition indexed_inv :: "redis_kv \<Rightarrow> (robj \<times> nat option \<Rightarrow> bool) \<Rightarrow> string \<Rightarrow> 's \<Rightarrow> bool" where
  "indexed_inv K Q k s \<longleftrightarrow> kv_wf K (view s) \<and> kv_complete K (view s) \<and> stays Q k (view s)"

lemma indexed_spared: "spared K Q k (indexed_inv K Q k)"
  unfolding spared_def indexed_inv_def
proof (intro conjI allI impI, goal_cases)
  case (1 s t)
  then show ?case using step_store(1) by (auto simp: sparing_def)
next
  case (2 s t)
  then show ?case using step_store(2) [of K s t] unfolding kv_complete_unlisted sparing_def by blast
next
  case (3 s t)
  then show ?case by (simp add: sparing_def)
qed simp_all

text \<open>The key is in the first \<open>n\<close> of a sorted range, or beyond them.\<close>

lemma range_page:
  assumes "sorted xs" and "k \<in> set xs" and "0 < n" and keys: "keys = take (Suc n) xs"
  shows "k \<in> set (take n keys) \<or> n < length keys \<and> take n keys \<noteq> [] \<and> last (take n keys) < k"
proof (cases "k \<in> set (take n keys)")
  case False
  have tk: "take n keys = take n xs" by (simp add: keys min_def)
  have "set xs = set (take n xs) \<union> set (drop n xs)" by (metis append_take_drop_id set_append)
  with tk False assms(2) have d: "k \<in> set (drop n xs)" by auto
  then have n: "n < length xs" by (cases "n < length xs") simp_all
  then have ne: "take n xs \<noteq> []" using assms(3) by auto
  have "\<forall>x \<in> set (take n xs). \<forall>y \<in> set (drop n xs). x \<le> y"
    using assms(1) sorted_append [of "take n xs" "drop n xs"] by simp
  then have "last (take n xs) \<le> k" using d last_in_set [OF ne] by blast
  moreover have "last (take n xs) \<noteq> k" using last_in_set [OF ne] False tk by auto
  ultimately have "last (take n keys) < k" unfolding tk by simp
  moreover have "n < length keys" using n by (simp add: keys)
  ultimately show ?thesis using ne tk by simp
qed simp

lemma index_page_lists:
  assumes w: "among K Q k (indexed_inv K Q k) w" and dk: "data_key K k" and utf: "valid_utf8 k"
    and pk: "prefix (full_key K pfx) k" and ahead: "\<forall>a. after = Some a \<longrightarrow> a < k"
    and lim: "limit < 2 ^ 63 - 1" "0 < unat limit" and run: "index_page R K pfx after limit w = (Inr pg, u)"
  shows "among K Q k (indexed_inv K Q k) u \<and>
    (key_listed K Q k (entries pg) \<or> (\<exists>a. next_page pg = Some (CHR ''i'' # a) \<and> a < k))"
proof -
  let ?I = "indexed_inv K Q k" and ?n = "unat limit"
  let ?lo = "case after of Some a \<Rightarrow> LexExcl a | None \<Rightarrow> LexIncl (full_key K pfx)"
  let ?hi = "LexExcl (full_key K pfx @ [CHR 0xFF])"
  let ?m = "redis_zrangebylex R (index_key K) ?lo ?hi (Suc ?n)"
  have small: "Suc ?n < 2 ^ 63" and suc: "unat (limit + 1) = Suc ?n"
    using lim(1) by (simp_all add: word_less_nat_alt unat_word_ariths)
  obtain keys x es where keys: "invoke R ?m w = (Inr keys, x)"
    and es: "fetch_entries R K (take ?n keys) True x = (Inr es, u)"
    and pg: "pg = \<lparr>entries = es, next_page = (if ?n < length keys \<and> take ?n keys \<noteq> [] then Some (CHR ''i'' # last (take ?n keys)) else None)\<rparr>"
    using run unfolding index_page_def Let_def suc
    by (auto simp: cbind_def map_err_def as_strings_def ret_def raise_def split: prod.splits sum.splits if_splits)
  obtain s where s: "?I s" "?m s = (Inr keys, server x)" and ox: "others_spare R view K Q k x"
    by (rule invoke_spared [OF indexed_spared w keys])
  have wf: "kv_wf K (view s)" and st: "stays Q k (view s)" and cp: "kv_complete K (view s)"
    using s(1) by (simp_all add: indexed_inv_def)
  let ?l = "zset_at (view s) (index_key K)"
  have read: "ks_zrangebylex (index_key K) ?lo ?hi (Suc ?n) (view s) = (Inr keys, view (server x))"
    using zrangebylex_sim [OF kv_wfD(4) [OF wf] small, of ?lo ?hi] s(2) by simp
  have "zset_slot (view s) (index_key K)" using kv_wfD(2) [OF wf] by simp
  with read have range: "keys = take (Suc ?n) (lex_range ?lo ?hi ?l)" "view (server x) = view s"
    by (auto simp: ks_zrangebylex_def zread_def zset_at_def zset_slot_def split: option.splits robj.splits)
  have x: "among K Q k ?I x" using ox s(1) range(2) by (simp add: among_def indexed_inv_def)
  have "k \<in> members (view s) (index_key K)"
    using cp stays_live [OF st] dk by (auto simp: kv_complete_unlisted unlisted_def)
  moreover have "above_lex ?lo k" "below_lex ?hi k"
    using ahead prefix_range [OF valid_utf8_no_ff [OF utf], of "full_key K pfx"] pk by (auto split: option.splits)
  ultimately have "k \<in> set (lex_range ?lo ?hi ?l)" by (auto simp: lex_range_def members_def)
  moreover have "sorted (lex_range ?lo ?hi ?l)" by (simp add: lex_range_def sorted_wrt_filter)
  ultimately have "k \<in> set (take ?n keys) \<or> ?n < length keys \<and> take ?n keys \<noteq> [] \<and> last (take ?n keys) < k"
    using range_page [OF _ _ lim(2) range(1)] by blast
  moreover have dks: "\<forall>j \<in> set (take ?n keys). data_key K j"
    using kv_wfD(6) [OF wf] lex_range_subset [of ?lo ?hi ?l] unfolding range(1) members_def
    by (meson in_set_takeD subset_iff)
  ultimately show ?thesis using fetch_lists [OF indexed_spared dk x _ es] pg by auto
qed

subsection \<open>Pages of a scan\<close>

text \<open>Before the iteration has returned the key, and after.\<close>

definition missed_inv :: "redis_kv \<Rightarrow> (robj \<times> nat option \<Rightarrow> bool) \<Rightarrow> string \<Rightarrow> string \<Rightarrow> nat \<Rightarrow> 's \<Rightarrow> bool" where
  "missed_inv K Q k pat c s \<longleftrightarrow> kv_wf K (view s) \<and> stays Q k (view s) \<and> scan_miss R view K pat SCAN_COUNT k c s"

definition found_inv :: "redis_kv \<Rightarrow> (robj \<times> nat option \<Rightarrow> bool) \<Rightarrow> string \<Rightarrow> 's \<Rightarrow> bool" where
  "found_inv K Q k s \<longleftrightarrow> kv_wf K (view s) \<and> stays Q k (view s)"

lemma found_spared: "spared K Q k (found_inv K Q k)"
  unfolding spared_def found_inv_def using step_store(1) by (auto simp: sparing_def)

lemma missed_spared: "spared K Q k (missed_inv K Q k pat c)"
  unfolding spared_def missed_inv_def
  using step_store(1) stays_live by (auto simp: sparing_def intro: scan_miss.meanwhile)

text \<open>Where a key is in the middle of a pass: among the keys at hand, or still to be returned.\<close>

definition to_come :: "redis_kv \<Rightarrow> (robj \<times> nat option \<Rightarrow> bool) \<Rightarrow> string \<Rightarrow> string \<Rightarrow> string list \<times> nat \<times> bool \<Rightarrow> 's world \<Rightarrow> bool" where
  "to_come K Q k pat a w \<longleftrightarrow> (case a of (ps, c, fin) \<Rightarrow>
     k \<in> set ps \<and> among K Q k (found_inv K Q k) w \<or> \<not> fin \<and> among K Q k (missed_inv K Q k pat c) w)"

lemma scan_turn_to_come:
  assumes a: "to_come K Q k pat (ps, c, fin) w" and match: "matches pat k"
    and turn: "scan_turn R pat n (ps, c, fin) w = (Inr r, u)"
  shows "case r of Inl b \<Rightarrow> b = (ps, c, fin) \<and> u = w | Inr b \<Rightarrow> to_come K Q k pat b u"
proof (cases "length ps < n \<and> \<not> fin")
  case False
  with turn show ?thesis by (auto simp: scan_turn_def ret_def)
next
  case True
  then obtain c' batch where run: "invoke R (redis_scan R c pat SCAN_COUNT) w = (Inr (c', batch), u)"
    and r: "r = Inr (ps @ batch, c', c' = 0)"
    using turn
    by (auto simp: scan_turn_def scan_keys_def cbind_def map_err_def as_strings_def ret_def raise_def
        split: prod.splits sum.splits if_splits)
  have found: "to_come K Q k pat (ps @ batch, c', c' = 0) u"
    if at: "k \<in> set (ps @ batch)" and w: "among K Q k (found_inv K Q k) w"
  proof -
    obtain s where "found_inv K Q k s" "redis_scan R c pat SCAN_COUNT s = (Inr (c', batch), server u)" "others_spare R view K Q k u"
      by (rule invoke_spared [OF found_spared w run])
    with scan_view have "among K Q k (found_inv K Q k) u" by (auto simp: among_def found_inv_def)
    with at show ?thesis by (simp add: to_come_def)
  qed
  show ?thesis
  proof (cases "k \<in> set ps")
    case True
    then have "among K Q k (found_inv K Q k) w"
      using a by (auto simp: to_come_def among_def found_inv_def missed_inv_def)
    with True found r show ?thesis by simp
  next
    case False
    then have w: "among K Q k (missed_inv K Q k pat c) w" using a by (simp add: to_come_def)
    obtain s where s: "missed_inv K Q k pat c s" "redis_scan R c pat SCAN_COUNT s = (Inr (c', batch), server u)"
      "others_spare R view K Q k u"
      by (rule invoke_spared [OF missed_spared w run])
    have miss: "scan_miss R view K pat SCAN_COUNT k c s" using s(1) by (simp add: missed_inv_def)
    show ?thesis
    proof (cases "k \<in> set batch")
      case True
      with w found r show ?thesis by (simp add: among_def found_inv_def missed_inv_def)
    next
      case nb: False
      then have "c' \<noteq> 0" using scan_full [OF miss match] s(2) by auto
      moreover have "scan_miss R view K pat SCAN_COUNT k c' (server u)"
        using scan_miss.passed_by [OF miss s(2) \<open>c' \<noteq> 0\<close> nb] .
      ultimately have "to_come K Q k pat (ps @ batch, c', c' = 0) u"
        using s scan_view [OF s(2)] by (simp add: to_come_def among_def missed_inv_def)
      with r show ?thesis by simp
    qed
  qed
qed

lemma scan_page_lists:
  assumes a: "to_come K Q k (scan_pattern K pfx) (pending st, scan st, done_pass st) w" and dk: "data_key K k"
    and pk: "prefix (full_key K pfx) k" and run: "scan_page R J K pfx st limit w = Some (Inr pg, u)"
  shows "key_listed K Q k (entries pg) \<or> (\<exists>t st'. next_page pg = Some (CHR ''s'' # t) \<and> to_string J st' = Inr t \<and>
    to_come K Q k (scan_pattern K pfx) (pending st', scan st', done_pass st') u)"
proof -
  let ?pat = "scan_pattern K pfx" and ?n = "unat limit"
  have match: "matches ?pat k" using pk by (simp add: scan_pattern_def matches_prefix)
  obtain keys c fin x where loop: "loop (scan_turn R ?pat ?n) (pending st, scan st, done_pass st) w = Some (Inr (keys, c, fin), x)"
    using run unfolding scan_page_from page_from_def
    by (auto simp: pbind_def split: option.splits sum.splits prod.splits)
  then have x: "to_come K Q k ?pat (keys, c, fin) x"
  proof (rule loop_rule [where I = "to_come K Q k ?pat", OF _ a])
    show "to_come K Q k ?pat b y" if "to_come K Q k ?pat a z" "scan_turn R ?pat ?n a z = (Inr (Inr b), y)" for a z b y
      using scan_turn_to_come [OF _ match, of K Q "fst a" "fst (snd a)" "snd (snd a)" z ?n "Inr b" y] that by simp
    show "to_come K Q k ?pat b y" if "to_come K Q k ?pat a z" "scan_turn R ?pat ?n a z = (Inr (Inl b), y)" for a z b y
      using scan_turn_to_come [OF _ match, of K Q "fst a" "fst (snd a)" "snd (snd a)" z ?n "Inl b" y] that by simp
  qed
  let ?st = "\<lparr>scan = c, pending = drop ?n keys, done_pass = fin\<rparr>"
  obtain es where es: "fetch_entries R K (take ?n keys) False x = (Inr es, u)" "entries pg = es"
    and nxt: "fin \<and> drop ?n keys = [] \<or> (\<exists>t. to_string J ?st = Inr t \<and> next_page pg = Some (CHR ''s'' # t))"
    using run loop unfolding scan_page_from page_from_def
    by (auto simp: pbind_def pure_def cbind_def ret_def raise_def split: if_splits sum.splits prod.splits)
  show ?thesis
  proof (cases "k \<in> set keys")
    case True
    then have "among K Q k (found_inv K Q k) x"
      using x by (auto simp: to_come_def among_def found_inv_def missed_inv_def)
    note fetch = fetch_lists [OF found_spared dk this _ es(1)]
    have "k \<in> set (take ?n keys) \<or> k \<in> set (drop ?n keys)" using True by (metis Un_iff append_take_drop_id set_append)
    with fetch nxt es(2) show ?thesis by (auto simp: to_come_def intro!: exI [of _ ?st])
  next
    case False
    then have "\<not> fin" "among K Q k (missed_inv K Q k ?pat c) x" using x by (simp_all add: to_come_def)
    with fetch_lists(1) [OF missed_spared dk _ _ es(1)] nxt show ?thesis
      by (auto simp: to_come_def intro!: exI [of _ ?st])
  qed
qed

subsection \<open>A whole pass\<close>

text \<open>What the cursor between two pages says of a key that was not listed yet.\<close>

definition ahead :: "cursor_json \<Rightarrow> redis_kv \<Rightarrow> (robj \<times> nat option \<Rightarrow> bool) \<Rightarrow> string \<Rightarrow> string \<Rightarrow> string option \<Rightarrow> 's world \<Rightarrow> bool" where
  "ahead J K Q k pfx cur w \<longleftrightarrow> (case cur of
     None \<Rightarrow> among K Q k (if index_ready K then indexed_inv K Q k else found_inv K Q k) w
   | Some c \<Rightarrow> (\<exists>a. c = CHR ''i'' # a \<and> a < k \<and> among K Q k (indexed_inv K Q k) w) \<or>
       (\<exists>t st. c = CHR ''s'' # t \<and> to_string J st = Inr t \<and>
         to_come K Q k (scan_pattern K pfx) (pending st, scan st, done_pass st) w))"

lemma page_ahead:
  assumes J: "\<forall>st t. to_string J st = Inr t \<longrightarrow> from_str J t = Some st" and dk: "data_key K k" and utf: "valid_utf8 k"
    and pk: "prefix (full_key K pfx) k" and lim: "lim < 2 ^ 63 - 1"
    and ah: "ahead J K Q k pfx cur w" and run: "kv_list_page R J K pfx cur lim w = Some (Inr pg, u)"
  shows "key_listed K Q k (entries pg) \<or> (\<exists>c. next_page pg = Some c \<and> ahead J K Q k pfx (Some c) u)"
proof -
  have n: "max lim 1 < 2 ^ 63 - 1" "0 < unat (max lim 1)" using lim limit_pos by (auto simp: max_def)
  note index = index_page_lists [OF _ dk utf pk _ n] and scan = scan_page_lists [OF _ dk pk]
  consider (index) after where "\<forall>a. after = Some a \<longrightarrow> a < k" "among K Q k (indexed_inv K Q k) w"
      "index_page R K pfx after (max lim 1) w = (Inr pg, u)"
    | (scan) st where "to_come K Q k (scan_pattern K pfx) (pending st, scan st, done_pass st) w"
      "scan_page R J K pfx st (max lim 1) w = Some (Inr pg, u)"
  proof (cases cur)
    case None
    show ?thesis
    proof (cases "index_ready K")
      case True
      with None ah run that(1) [of None] show ?thesis by (simp add: ahead_def kv_list_page_def pure_def)
    next
      case False
      with None ah have "among K Q k (missed_inv K Q k (scan_pattern K pfx) 0) w"
        by (auto simp: ahead_def among_def found_inv_def missed_inv_def intro: scan_miss.opened stays_live)
      with None False run that(2) [of default_cursor] show ?thesis
        by (simp add: kv_list_page_def to_come_def default_cursor_def)
    qed
  next
    case (Some c)
    with ah consider (i) a where "c = CHR ''i'' # a" "a < k" "among K Q k (indexed_inv K Q k) w"
      | (s) t st where "c = CHR ''s'' # t" "from_str J t = Some st"
        "to_come K Q k (scan_pattern K pfx) (pending st, scan st, done_pass st) w"
      using J by (auto simp: ahead_def)
    then show ?thesis
    proof cases
      case i
      with Some run that(1) [of "Some a"] show ?thesis by (simp add: kv_list_page_def pure_def)
    next
      case s
      with Some run that(2) [of st] show ?thesis by (simp add: kv_list_page_def)
    qed
  qed
  then show ?thesis
  proof cases
    case index
    with index_page_lists [OF index(2) dk utf pk index(1) n index(3)] show ?thesis by (auto simp: ahead_def)
  next
    case scan
    with scan_page_lists [OF scan(1) dk pk scan(2)] show ?thesis by (auto simp: ahead_def)
  qed
qed

lemma pass_lists:
  assumes "listing_pass R J K pfx lim w cur es u" and "ahead J K Q k pfx cur w"
    and "\<forall>st t. to_string J st = Inr t \<longrightarrow> from_str J t = Some st" and "data_key K k" and "valid_utf8 k"
    and "prefix (full_key K pfx) k" and "lim < 2 ^ 63 - 1"
  shows "key_listed K Q k es"
  using assms(1,2)
proof (induction rule: listing_pass.induct)
  case (last_page cur w pg u)
  with page_ahead [OF assms(3-7)] show ?case by fastforce
next
  case (more_pages cur w pg u c es v)
  with page_ahead [OF assms(3-7) more_pages.prems more_pages.hyps(1)] show ?case by (auto simp: key_listed_append)
qed

lemma whole_pass_lists:
  assumes "kv_wf K (view (server w))" and "index_ready K \<longrightarrow> kv_complete K (view (server w))"
    and "stays Q (full_key K key) (view (server w))" and "others_spare R view K Q (full_key K key) w"
    and "listing_pass R J K pfx lim w None es u"
    and "\<forall>st t. to_string J st = Inr t \<longrightarrow> from_str J t = Some st" and "valid_utf8 (full_key K key)"
    and "prefix pfx key" and "lim < 2 ^ 63 - 1"
  shows "\<exists>e t. (key, e) \<in> set es \<and> Q (RStr (bytes e), t)"
proof -
  have "ahead J K Q (full_key K key) pfx None w"
    using assms(1-4) by (simp add: ahead_def among_def indexed_inv_def found_inv_def)
  from pass_lists [OF assms(5) this assms(6) data_key_full assms(7) _ assms(9)] assms(8)
  show ?thesis by (simp add: key_listed_def full_key_prefix_iff)
qed

end

subsection \<open>Properties\<close>

text \<open>
  C7. A listing pass among a running fleet misses nothing: whatever the replicas, the other components
  and time do between its commands, and whether it reads the index or scans, a pass that comes to its
  end lists every key under the prefix that was there all along, with a value the key had. (\<open>Q\<close> is what
  the others leave true of the key: that it exists, that it does not expire, that it holds one of
  certain values. The index, if read, was complete at the start; the cursors' text reads back.)
\<close>

theorem listing_misses_none:
  assumes "scan_server R view matches" and "\<forall>st t. to_string J st = Inr t \<longrightarrow> from_str J t = Some st"
    and "kv_wf K (view (server w))" and "index_ready K \<longrightarrow> kv_complete K (view (server w))"
    and "stays Q (full_key K key) (view (server w))" and "others_spare R view K Q (full_key K key) w"
    and "valid_utf8 (full_key K key)" and "prefix pfx key" and "lim < 2 ^ 63 - 1"
    and "listing_pass R J K pfx lim w None es u"
  shows "\<exists>e t. (key, e) \<in> set es \<and> Q (RStr (bytes e), t)"
  using scan_server.whole_pass_lists [OF assms(1,3-6,10,2,7-9)] .

text \<open>While the pass reads, another replica deletes the other key, and time passes.\<close>

definition busy_keys :: "ref_state world" where
  "busy_keys = two_keys\<lparr>env := [\<lambda>s. snd (run_event ref_ops ready_store (EDel ''b'') s),
     \<lambda>s. snd (run_event ref_ops ready_store (EElapse 5) s)]\<rparr>"

theorem listing_misses_none_witness:
  "\<exists>es u e. listing_pass ref_ops no_json ready_store [] 5 busy_keys None es u \<and> (''a'', e) \<in> set es \<and> bytes e = ''1''"
proof -
  let ?Q = "\<lambda>x. x = (RStr ''1'', None)" and ?K = ready_store
  have key: "full_key ?K ''a'' = ''p:a''" by (simp add: full_key_def)
  have step: "sparing ref_ops ref_view ?K ?Q (full_key ?K ''a'') s (snd (run_event ref_ops ?K e s))"
    if "e = EDel ''b'' \<or> e = EElapse 5" for e s
  proof -
    have "objs (ref_view (snd (run_event ref_ops ?K e s))) (full_key ?K ''a'') = Some (RStr ''1'', None)"
      if "kv_wf ?K (ref_view s)" "objs (ref_view s) (full_key ?K ''a'') = Some (RStr ''1'', None)"
      using that \<open>e = _ \<or> _\<close> event_other [OF that(1), of "''a''" e ref_ops] sim_view [OF ref.event_sim, of e ?K s]
      by (auto simp: ks_elapse_def)
    then show ?thesis using that by (auto simp: sparing_def stays_def intro!: server_step.store)
  qed
  have spare: "others_spare ref_ops ref_view ?K ?Q (full_key ?K ''a'') busy_keys"
    using step [of "EDel ''b''"] step [of "EElapse 5"] unfolding others_spare_def busy_keys_def by (simp add: r_into_rtranclp)
  have page: "case kv_list_page ref_ops no_json ?K [] None 5 busy_keys of Some (Inr pg, u) \<Rightarrow> next_page pg = None | _ \<Rightarrow> False"
    by code_simp
  then obtain pg u where "kv_list_page ref_ops no_json ?K [] None 5 busy_keys = Some (Inr pg, u)" "next_page pg = None"
    by (auto split: option.splits prod.splits sum.splits)
  then have run: "listing_pass ref_ops no_json ?K [] 5 busy_keys None (entries pg) u" by (rule listing_pass.last_page)
  have s: "server busy_keys = server two_keys" by (simp add: busy_keys_def)
  have "stays ?Q (full_key ?K ''a'') (ref_view (server busy_keys))" by (simp add: s stays_def key two_keys_objs)
  moreover have "valid_utf8 (full_key ?K ''a'')" unfolding key by (simp add: valid_utf8_ascii byte_in_def)
  ultimately show ?thesis
    using listing_misses_none [OF refscan.scan_server_axioms _ _ _ _ spare _ _ _ run] run two_keys_facts(2,3)
    by (auto simp: s no_json_def)
qed

end
