(* ===== verification/Fleet_Listing.thy ===== *)
theory Fleet_Listing
  imports Index_Properties Kv_Pass
begin

section \<open>Listings of a running instance\<close>

text \<open>
  The maintenance task decides whether listings read the key index; the listings rely on its decision.
  Both together: an instance from its construction on, whatever its upkeep did, lists every key that is
  there all along.
\<close>

text \<open>
  What changes an instance's readiness flag, from its start: connecting, ticks of the maintenance task
  (\<open>run\<close> of \<open>maintenance.rs\<close>), completion on demand; clocks and links move in between, and so does the
  task that renews the held sweep lock, on the lease state it shares with the ticks.
\<close>

inductive upkeep :: "'s redis \<Rightarrow> registration_json \<Rightarrow> (int \<Rightarrow> string) \<Rightarrow>
    maintenance \<times> 's replica \<Rightarrow> maintenance \<times> 's replica \<Rightarrow> bool" for R J rfc3339 where
  connect: "get_or_init_conn R S = (r, T) \<Longrightarrow> upkeep R J rfc3339 (M, S) (M, T)"
| tick: "maintenance_tick R J rfc3339 (M, S) = Some (M', T) \<Longrightarrow> upkeep R J rfc3339 (M, S) (M', T)"
| on_demand: "complete_key_index R J S = Some (r, T) \<Longrightarrow> upkeep R J rfc3339 (M, S) (M, T)"
| renewal: "held_lease M = Some st \<Longrightarrow> renewal_turn R rfc3339 st w = (st', u) \<Longrightarrow>
    upkeep R J rfc3339 (M, I, w) (M\<lparr>held_lease := Some st'\<rparr>, I, u)"
| meanwhile: "server u = server w \<Longrightarrow> env u = env w \<Longrightarrow> upkeep R J rfc3339 (M, I, w) (M, I, u)"

context scan_server
begin

lemma sound_renewal:
  assumes "sound R view cfg (I, w)" and "lock_ok cfg M" and "held_lease M = Some st"
    and "renewal_turn R rfc3339 st w = (st', u)"
  shows "sound R view cfg (I, u) \<and> lock_ok cfg (M\<lparr>held_lease := Some st'\<rparr>)"
proof -
  let ?K = "with_connection_manager (cfg_key_prefix cfg)"
  note i = soundD(1) [OF assms(1)]
  obtain lk fk where lk: "lease_keys (cfg_key_prefix cfg) ''locks'' SWEEP_LOCK = (lk, fk)" by (simp add: lease_keys_def)
  note apart = names_apart [OF fresh_names prefix_set [OF i] lk]
  have g: "gate R view ?K (ready_now I) w" using soundD(2) [OF assms(1) fresh_names] by simp
  have st: "lease_key st = lk" "px_ok (lease_ttl_ms st)" using assms(2,3) lk by (auto simp: lock_ok_def)
  obtain q st2 y where r: "renew_state R rfc3339 st w = (q, st2, y)" by (metis prod.exhaust)
  have "gate R view ?K (ready_now I) u" "lease_key st' = lk" "lease_ttl_ms st' = lease_ttl_ms st"
    using assms(4) st g renewed_lease [OF r] keepsD [OF gate_renew [OF st(2) apart(3,4)] g, of "holder st"]
    by (auto simp: renewal_turn_def r split: if_splits sum.splits)
  with i st(2) lk show ?thesis by (simp add: sound_def lock_ok_def)
qed

lemma sound_upkeep:
  assumes "(upkeep R J rfc3339)\<^sup>*\<^sup>* (M, S) (M', T)" and "sound R view cfg S" and "lock_ok cfg M"
    and "kv_sweep_interval_ms cfg < 2 ^ 52"
  shows "sound R view cfg T \<and> lock_ok cfg M'"
  using assms(1)
proof (induction rule: rtranclp_induct2)
  case refl
  with assms(2,3) show ?case by simp
next
  case (step N U M' T)
  from step.hyps(2) step.IH show ?case
  proof cases
    case (connect r)
    with sound_conn step.IH show ?thesis by blast
  next
    case tick
    with sound_tick [OF _ _ assms(4)] step.IH show ?thesis by blast
  next
    case (on_demand r)
    with sound_complete_key_index(1) step.IH show ?thesis by blast
  next
    case (renewal st w st' u I)
    with sound_renewal step.IH show ?thesis by blast
  next
    case (meanwhile u w I)
    with step.IH gate_fields [of u w] show ?thesis by (auto simp: sound_def)
  qed
qed

end

lemma new_inner_start: "config (new_inner H t cfg) = cfg" "\<not> ready_now (new_inner H t cfg)"
  by (simp_all add: new_inner_def ready_now_def key_value_store_def)

subsection \<open>Properties\<close>

text \<open>
  C23. A running instance's listings miss nothing: in a fleet of index-writing replicas, from the
  construction of an instance, after any connections, ticks of its maintenance task and completions on
  demand, whatever failed and whoever acted meanwhile, a listing pass of its store that comes to its end
  lists every key under the prefix that is there all along, with a value the key had. Whether the pass
  reads the index or scans is what the instance's upkeep made of it.
\<close>

theorem instance_listings_miss_none:
  assumes "scan_server R view matches" and "validate cfg = Inr ()" and "kv_sweep_interval_ms cfg < 2 ^ 52"
    and "others_ok R (with_connection_manager (cfg_key_prefix cfg)) w"
    and "stable (marks_right (with_connection_manager (cfg_key_prefix cfg)) False \<circ> view) w"
    and "(upkeep R J rfc3339)\<^sup>*\<^sup>* (maintenance_start, new_inner H t cfg, w) (M, I, u)"
    and "key_value_store I = Some K" and "listing_pass R C K pfx lim u None es x"
    and "stays Q (full_key K key) (view (server u))" and "others_spare R view K Q (full_key K key) u"
    and "\<forall>st t. to_string C st = Inr t \<longrightarrow> from_str C t = Some st" and "valid_utf8 (full_key K key)"
    and "prefix pfx key" and "lim < 2 ^ 63 - 1"
  shows "\<exists>e t. (key, e) \<in> set es \<and> Q (RStr (bytes e), t)"
proof -
  have "sound R view cfg (new_inner H t cfg, w)"
    using scan_server.gate_raise [OF assms(1), of _ False w False] assms(2,4,5) new_inner_wf new_inner_start
    by (simp add: sound_def gate_def)
  then have s: "sound R view cfg (I, u)"
    using scan_server.sound_upkeep [OF assms(1,6) _ _ assms(3)] by (simp add: lock_ok_def maintenance_start_def)
  have "kv_names cfg K" using kv_names_store [of I K] soundD(1) [OF s] assms(7) by simp
  from soundD(2) [OF s this] have "gate R view K (ready_now I) u" by simp
  then have "kv_wf K (view (server u))" "index_ready K \<longrightarrow> kv_complete K (view (server u))"
    using assms(7) by (auto simp: gate_def stable_def marks_right_def ready_now_def)
  from scan_server.whole_pass_lists [OF assms(1) this assms(9,10,8,11-14)] show ?thesis .
qed

text \<open>After its first tick, the instance of the witnesses above reads the index it completed.\<close>

theorem instance_listings_miss_none_witness:
  "\<exists>es x e. listing_pass ref_ops no_json ready_store [] 5 (ref_world 1000 marked) None es x \<and> (''a'', e) \<in> set es \<and> bytes e = ''1''"
proof -
  let ?Q = "\<lambda>y. y = (RStr ''1'', None :: nat option)" and ?w = "ref_world 1000 old_key"
  have "stable (marks_right (with_connection_manager ''p'') False \<circ> ref_view) ?w"
    using old_key_facts(2) by (auto simp: stable_def marks_right_def live_def old_key_facts(1) with_connection_manager_def)
  then have w: "stable (marks_right (with_connection_manager (cfg_key_prefix idle_config)) False \<circ> ref_view) ?w"
    by (simp add: idle_config_def)
  have cfg: "validate idle_config = Inr ()" "kv_sweep_interval_ms idle_config < 2 ^ 52"
    using idle_wf(1) by (simp_all add: inner_wf_def idle_inner_def new_inner_def) (simp add: idle_config_def)
  have "upkeep ref_ops one_json (\<lambda>t. ''t'') (maintenance_start, new_inner default_host 1000 idle_config, ?w)
      (\<lparr>held_lease = Some idle_lease, unindexed_seen = None\<rparr>, up_inner (Some (0, [])) True, ref_world 1000 marked)"
    using upkeep.tick [OF first_tick] by (simp add: maintenance_start_def idle_inner_def)
  then have ran: "(upkeep ref_ops one_json (\<lambda>t. ''t''))\<^sup>*\<^sup>* (maintenance_start, new_inner default_host 1000 idle_config, ?w)
      (\<lparr>held_lease = Some idle_lease, unindexed_seen = None\<rparr>, up_inner (Some (0, [])) True, ref_world 1000 marked)" ..
  have store: "key_value_store (up_inner (Some (0, [])) True) = Some ready_store"
    by (simp add: up_simps ready_store_def)
  have key: "full_key ready_store ''a'' = ''p:a''" by (simp add: full_key_def)
  have "kv_wf ready_store (ref_view marked)"
    unfolding kv_wf_def
    by (auto simp: ref_view_def marked_def indexed_def locked_def keys_apart_def zset_ok_def all_scores_def str_slot_def
        members_def zset_at_def data_key_def full_key_def)
  moreover have "members (ref_view marked) (index_key ready_store) = {''p:a''}"
    by (simp add: members_def zset_at_def ref_view_def marked_def indexed_def locked_def)
  ultimately obtain es x where run: "listing_pass ref_ops no_json ready_store [] 5 (ref_world 1000 marked) None es x"
    using ref.pass_quiet [of "ref_world 1000 marked" ready_store None "[]" 5 None no_json]
    by (auto simp: valid_utf8_ascii byte_in_def)
  have "stays ?Q (full_key ready_store ''a'') (ref_view (server (ref_world 1000 marked)))"
    by (simp add: stays_def key ref_view_def marked_def indexed_def locked_def)
  moreover have "valid_utf8 (full_key ready_store ''a'')" unfolding key by (simp add: valid_utf8_ascii byte_in_def)
  ultimately have "\<exists>e t. (''a'', e) \<in> set es \<and> ?Q (RStr (bytes e), t)"
    using instance_listings_miss_none [OF refscan.scan_server_axioms cfg _ w ran store run, of ?Q "''a''"]
    by (simp add: others_ok_def others_spare_def no_json_def)
  with run show ?thesis by auto
qed

end
