(* ===== verification/Spec2Isabelle.thy ===== *)
theory Spec2Isabelle
  imports Kv_Counters Kv_Upkeep Watch Sweep_Lock Stale_Handles Tick_Liveness Fleet_Listing
begin

text \<open>
  Verification of the Redis cluster plugin (\<open>src/src/\<close>).

  \<^bold>\<open>The program.\<close> A gateway's replicas share a Redis server through this plugin: a key/value store with
  listings (\<open>state/kv.rs\<close>), locks and leadership as leases with fence tokens (\<open>lease.rs\<close>), a message bus
  (\<open>pubsub.rs\<close>, \<open>envelope.rs\<close>, \<open>state/topic.rs\<close>), a registry of peers (\<open>peer.rs\<close>), and a maintenance task
  (\<open>maintenance.rs\<close>) that sweeps the store's indexes and decides when listings may read them. \<open>lib.rs\<close>
  composes them behind the host's interface; \<open>config.rs\<close> reads the settings.

  \<^bold>\<open>How it is modelled.\<close> Redis is a parameter: a record \<open>redis\<close> of commands over a state \<open>'s\<close>, with what
  Redis documents of them as the laws of the locale \<open>redis_server\<close> (theory \<open>Redis_Server\<close>) and, for
  \<open>SCAN\<close>, of \<open>scan_server\<close> (\<open>Kv_Backfill\<close>); \<open>Redis_Reference\<close> has an executable server that meets both,
  on which every witness runs. The plugin acts in a \<open>world\<close> (\<open>Prelude\<close>): the server, the atomic steps
  other clients take between two executions, the fate of each round trip (answered, refused, executed
  with the reply lost), and the clocks. An operation returns a value or an error and the new world. A
  Lua script is a command composed of commands that nobody interrupts. A loop that may not end is
  \<open>loop\<close>, a \<open>partial_function (option)\<close> whose \<^const>\<open>None\<close> is not returning; no fuel is used. Lua and sorted-set
  scores use doubles (\<open>dbl\<close>), also for the integers Redis replies inside a script: what \<open>INCRBY\<close> and
  \<open>INCR\<close> reply is rounded on its way to the caller (\<open>lua_reply\<close>), what they store is not. u64 and u32
  values are words where they can wrap.

  \<^bold>\<open>Theories and sources.\<close>
  \<^item> \<open>Prelude\<close>: worlds, operations, loops, decimal text, UTF-8, and the rules that lift invariants
    (\<open>keeps_intros\<close>) and simulations (\<open>sim_intros\<close>) through composed operations.
  \<^item> \<open>Kv_Keys\<close>, \<open>Kv_Scripts\<close>, \<open>Kv_Store\<close>: \<open>state/kv.rs\<close>, its key names, its Lua scripts, and the methods of
    \<open>RedisKv\<close> with listings and upkeep.
  \<^item> \<open>Kv_Index\<close>, \<open>Kv_Effects\<close>, \<open>Kv_Contract\<close>: the index invariants, what each script does to a keyspace,
    and the contract of a script (locales \<open>index_keeper\<close>, \<open>index_reclaimer\<close>), interpreted for each one.
  \<^item> \<open>Kv_Behaviour\<close>, \<open>Kv_Counters\<close>, \<open>Kv_Fleet\<close>, \<open>Kv_Traces\<close>, \<open>Kv_Listing\<close>, \<open>Kv_Upkeep\<close>, \<open>Kv_Backfill\<close>, \<open>Kv_Scan\<close>, \<open>Kv_Pass\<close>:
    refinement of an abstract map with lifetimes, counters, invariants among replicas, claims with one
    winner, pages of the index that miss and repeat no key, the sweep, the backfill among a running
    fleet, listings that walk the keyspace with \<open>SCAN\<close>, and listing passes among a running fleet.
  \<^item> \<open>Lease\<close>, \<open>Lease_Properties\<close>: \<open>lease.rs\<close>; mutual exclusion, growing fence tokens, renewal in time.
    \<open>Lease_Handles\<close>: the reference counts of a lease's state, its handles and its renewal task.
  \<^item> \<open>Envelope\<close>, \<open>Bus\<close>: \<open>envelope.rs\<close> and the publishing side of \<open>pubsub.rs\<close> and \<open>state/topic.rs\<close>.
    \<open>Subscription\<close>: their subscribing side, the task with its bounded channel, its receiver and its
    reconnections as a step relation.
  \<^item> \<open>Config\<close>: \<open>config.rs\<close>; validation and redaction.
  \<^item> \<open>Peer\<close>, \<open>Peer_Registry\<close>: \<open>peer.rs\<close>; what a peer list shows, joining and leaving.
  \<^item> \<open>Backend\<close>: \<open>lib.rs\<close>; the instance (\<open>inner\<close>, Rust's \<open>Inner\<close>), construction, connecting on first use,
    every method the host calls, shutdown. An operation acts on a \<open>replica\<close>, the instance with its
    world; \<open>block_on\<close> runs an operation to its end. \<open>Instance\<close>: the invariant of reachable instances.
    \<open>Stale_Handles\<close>: an instance that takes a lock again while it holds an old handle of it.
    \<open>Watch\<close>: the event stream of \<open>watch_peers\<close> against a receiver that replays it.
  \<^item> \<open>Maintenance\<close>: \<open>maintenance.rs\<close>, a tick of the task. \<open>Index_Gate\<close>, \<open>Index_Trust\<close>, \<open>Index_Properties\<close>:
    the mark, the readiness flag and the peers together: when listings read the index. \<open>Tick_Liveness\<close>: a
    whole tick in a quiet world. \<open>Sweep_Lock\<close>: the task's lock across ticks.
    \<open>Fleet_Listing\<close>: the gate and the listings that rely on it, composed.

  \<^bold>\<open>What is shown\<close>, by claim. The store: it refines an abstract map with lifetimes (C1), its indexes stay
  well-formed, complete and reclaimable whatever the replicas and the links do (C2 to C4), a claim has
  one winner (C5), counters with a floor (C6, C8, C24), listing passes among a running
  fleet (C7) and alone, over the index and over the keyspace (C9, C10), the sweep (C11), the backfill (C30, C31). Leases: exclusion, tokens, life cycle, lost
  leases, renewal, waiting (C13 to C18), two ways in which locks interfere (C19, C20), and a lease that
  outlives its handle (C22), which the maintenance task runs into with its own lock (C26). The wire and
  the bus: round trips, delivery, what a subscriber hears and in which order (C21, C27 to C29). The settings
  (C25). The peer registry (C32 to C34) and its watchers (C39). The index gate of the maintenance task
  (C35 to C37) and a tick that opens it (C12); an instance's listings under its own gate (C23).
  Instances (C38). The key namespaces (C40, below).

  \<^bold>\<open>Hypotheses.\<close> Besides the laws of Redis: lifetimes below \<open>2 ^ 53\<close> milliseconds (beyond, Redis refuses or
  Lua rounds), wall clocks between 0 and \<open>2 ^ 53\<close>, and where a theorem is about a quiet world it says so.
  What a counter replies (C1, C6) and a fence token (C14, C15, C18, C20) is exact up to \<open>2 ^ 53\<close> only.
  A tick that finds its peers, and the peer lists (C12, C32 to C34), are for key prefixes in which no
  character is special in a glob pattern: \<open>peer.rs\<close> does not escape the prefix it scans with.
  The theorems on the index gate assume that every other writer is a replica that writes the index
  (\<open>others_ok\<close>); what the code does about other writers is C36.

  \<^bold>\<open>Not modelled.\<close> The client library, the JSON and TLS libraries, the file system, the environment and
  chrono's rendering of dates are parameters; so is the history of what was published, by which a
  subscriber is measured, which topics a pattern matches, and the SDK's forwarding of a stream over the
  FFI boundary. The tokio runtime's scheduling beyond the order of atomic steps, log lines, and the
  manifest's constants have no model.
\<close>

section \<open>Key namespaces\<close>

text \<open>Who owns a key of a deployment with the prefix \<open>pfx\<close>.\<close>

datatype family = Store_Data | Store_Indexes | Locks | Leadership | Peers | Peer_Index

fun owns :: "string \<Rightarrow> family \<Rightarrow> string \<Rightarrow> bool" where
  "owns pfx Store_Data k = data_key (with_connection_manager pfx) k"
| "owns pfx Store_Indexes k = (let K = with_connection_manager pfx in k \<in> {index_key K, expiry_key K, complete_key K})"
| "owns pfx Locks k = (\<exists>name. k = fst (lease_keys pfx ''locks'' name) \<or> k = snd (lease_keys pfx ''locks'' name))"
| "owns pfx Leadership k = (\<exists>role. k = fst (lease_keys pfx ''leadership'' role) \<or> k = snd (lease_keys pfx ''leadership'' role))"
| "owns pfx Peers k = (\<exists>node. k = peer_key pfx node)"
| "owns pfx Peer_Index k = (k = peers_index_key pfx)"

lemmas key_names = with_connection_manager_def lease_keys_def peer_key_def peers_index_key_def data_key_iff full_key_def

lemma owns_prefix: "owns pfx f k \<Longrightarrow> prefix pfx k"
  by (cases f) (auto simp: key_names prefix_def)

lemma owns_one: "pfx \<noteq> [] \<Longrightarrow> owns pfx f k \<Longrightarrow> owns pfx g k \<Longrightarrow> f = g"
  by (cases f; cases g) (auto simp: key_names)

text \<open>
  C40. No two parts of the plugin share a key, and neither do two deployments: with a prefix the
  configuration accepts, a key of Redis belongs to at most one of the store's data, the store's
  indexes, the locks, the leadership roles, the peer registrations and the peer set; and with prefixes
  of which neither extends the other, to one deployment.
\<close>

theorem key_namespaces_apart:
  assumes "validate c = Inr ()" and "validate d = Inr ()"
    and "cfg_key_prefix c = cfg_key_prefix d \<or>
      \<not> prefix (cfg_key_prefix c) (cfg_key_prefix d) \<and> \<not> prefix (cfg_key_prefix d) (cfg_key_prefix c)"
    and "owns (cfg_key_prefix c) f k" and "owns (cfg_key_prefix d) g k"
  shows "cfg_key_prefix c = cfg_key_prefix d \<and> f = g"
proof -
  have "cfg_key_prefix c \<noteq> []" using assms(1) by (auto simp: validate_def split: if_splits)
  moreover have "cfg_key_prefix c = cfg_key_prefix d"
    using assms(3) prefix_same_cases [OF owns_prefix [OF assms(4)] owns_prefix [OF assms(5)]] by blast
  ultimately show ?thesis using owns_one assms(4,5) by metis
qed

theorem key_namespaces_apart_witness:
  "\<not> (\<exists>f. owns ''stage:'' f (peer_key default_key_prefix ''n''))"
proof
  let ?c = "default_config ''redis://h''" and ?k = "peer_key default_key_prefix ''n''"
  let ?d = "?c\<lparr>cfg_key_prefix := ''stage:''\<rparr>"
  have "\<not> blank ''redis://h''" "\<not> blank default_service_name"
    by (auto simp: default_service_name_def byte_in_def intro!: not_blank_ascii)
  then have v: "validate ?c = Inr ()" "validate ?d = Inr ()"
    by (simp_all add: validate_def default_config_def default_key_prefix_def default_lease_ttl_ms_def
        default_peer_ttl_ms_def default_subscribe_pattern_buffer_def)
  have own: "owns (cfg_key_prefix ?c) Peers ?k" by (auto simp: default_config_def)
  assume "\<exists>f. owns ''stage:'' f ?k"
  then obtain f where "owns (cfg_key_prefix ?d) f ?k" by auto
  from key_namespaces_apart [OF v _ own this] show False by (simp add: default_config_def default_key_prefix_def)
qed

end
